(* ===== verification/LcmPrelude.thy ===== *)
theory LcmPrelude
  imports Main "HOL-Library.Word"
begin

text \<open>
  Prelude of the lcm-bus development: the names of the machine types the crate uses, the
  result type of its fallible functions, what it uses of Rust's standard library on slices,
  integers and UTF-8 text, and the generic lemmas the component theories share.

  \<^item> \<open>u8\<close>, \<open>u16\<close>, \<open>u32\<close> and \<open>i64\<close> are words of that width; an \<open>i64\<close> is read with \<open>sint\<close>.
    A \<open>usize\<close> is a \<open>nat\<close>; the target is a 64-bit one, and where the code tests for overflow
    of a \<open>usize\<close> the bound \<open>usize_max\<close> is written out.
  \<^item> A \<open>Result<T, E>\<close> is a sum: \<open>Inl\<close> is \<open>Err\<close> and \<open>Inr\<close> is \<open>Ok\<close>; \<open>and_then\<close> is the \<open>?\<close>
    operator.
  \<^item> A \<open>&str\<close> or \<open>String\<close> is a HOL \<open>string\<close> whose characters are its UTF-8 bytes, because HOL's
    \<open>char\<close> is an eight-bit type. The type invariant of a Rust string, that its bytes are UTF-8, is
    the predicate \<open>is_str\<close>.
  \<^item> A panic of the code (a slice out of range, an \<open>expect\<close> on nothing) is \<open>None\<close>.
\<close>

section \<open>Machine types\<close>

type_synonym u8 = "8 word"
type_synonym u16 = "16 word"
type_synonym u32 = "32 word"
type_synonym i64 = "64 word"
type_synonym bytes = "u8 list"

named_theorems be_simps \<open>big-endian fields: lengths and round trips\<close>
named_theorems str_simps \<open>text: conversion between characters and bytes, UTF-8\<close>

definition usize_max :: nat where
  "usize_max = 2 ^ 64 - 1"

text \<open>\<open>usize::checked_add\<close>.\<close>

definition checked_add_usize :: "nat \<Rightarrow> nat \<Rightarrow> nat option" where
  "checked_add_usize a b = (if a + b \<le> usize_max then Some (a + b) else None)"

text \<open>\<open>usize::checked_sub\<close>.\<close>

definition checked_sub_usize :: "nat \<Rightarrow> nat \<Rightarrow> nat option" where
  "checked_sub_usize a b = (if b \<le> a then Some (a - b) else None)"

text \<open>\<open>usize::div_ceil\<close>, for a divisor above zero.\<close>

definition div_ceil :: "nat \<Rightarrow> nat \<Rightarrow> nat" where
  "div_ceil a b = (a + b - 1) div b"

lemma div_ceil_less_iff:
  assumes "0 < b"
  shows "i < div_ceil a b \<longleftrightarrow> i * b < a"
proof -
  have "i < div_ceil a b \<longleftrightarrow> Suc i * b \<le> a + b - 1"
    unfolding div_ceil_def using assms by (simp only: Suc_le_eq [symmetric] less_eq_div_iff_mult_less_eq)
  also have "\<dots> \<longleftrightarrow> i * b < a"
    using assms by auto
  finally show ?thesis .
qed

section \<open>Results\<close>

definition and_then :: "'e + 'a \<Rightarrow> ('a \<Rightarrow> 'e + 'b) \<Rightarrow> 'e + 'b" where
  "and_then r f = (case r of Inl e \<Rightarrow> Inl e | Inr x \<Rightarrow> f x)"

lemma and_then_simps [simp]:
  "and_then (Inl e) f = Inl e"
  "and_then (Inr x) f = f x"
  by (simp_all add: and_then_def)

lemma and_then_Inr [simp]: "and_then r Inr = r"
  by (cases r) simp_all

lemma and_then_assoc: "and_then (and_then r f) g = and_then r (\<lambda>x. and_then (f x) g)"
  by (cases r) simp_all

lemma and_then_eq_Inr: "and_then r f = Inr y \<longleftrightarrow> (\<exists>x. r = Inr x \<and> f x = Inr y)"
  by (cases r) auto

lemma and_then_eq_Inl:
  "and_then r f = Inl e \<longleftrightarrow> r = Inl e \<or> (\<exists>x. r = Inr x \<and> f x = Inl e)"
  by (cases r) auto

lemma and_then_split: "P (and_then r f) \<longleftrightarrow> (\<forall>e. r = Inl e \<longrightarrow> P (Inl e)) \<and> (\<forall>x. r = Inr x \<longrightarrow> P (f x))"
  by (cases r) auto

section \<open>Slices\<close>

text \<open>\<open>xs[a..b]\<close>, which panics where \<open>a > b\<close> or \<open>b\<close> is past the end.\<close>

definition slice_range :: "'a list \<Rightarrow> nat \<Rightarrow> nat \<Rightarrow> 'a list option" where
  "slice_range xs a b = (if a \<le> b \<and> b \<le> length xs then Some (take (b - a) (drop a xs)) else None)"

text \<open>\<open>xs.iter().position(p)\<close>.\<close>

fun position :: "('a \<Rightarrow> bool) \<Rightarrow> 'a list \<Rightarrow> nat option" where
  "position p [] = None"
| "position p (x # xs) = (if p x then Some 0 else map_option Suc (position p xs))"

lemma position_None_iff: "position p xs = None \<longleftrightarrow> (\<forall>x \<in> set xs. \<not> p x)"
  by (induction xs) auto

lemma position_Some_iff:
  "position p xs = Some i \<longleftrightarrow> i < length xs \<and> p (xs ! i) \<and> (\<forall>j < i. \<not> p (xs ! j))"
proof (induction xs arbitrary: i)
  case Nil
  then show ?case by simp
next
  case (Cons x xs)
  show ?case
  proof (cases i)
    case 0
    then show ?thesis by (auto split: if_splits)
  next
    case (Suc k)
    then show ?thesis using Cons.IH by (auto simp: All_less_Suc2)
  qed
qed

lemma position_append_hit:
  "\<forall>x \<in> set xs. \<not> p x \<Longrightarrow> p y \<Longrightarrow> position p (xs @ y # ys) = Some (length xs)"
  by (induction xs) auto

lemma take_drop_append_eq:
  "n = length xs \<Longrightarrow> take m (drop n (xs @ ys)) = take m ys"
  by simp

lemma list_eq_take_nth_drop: "i < length xs \<Longrightarrow> xs = take i xs @ xs ! i # drop (Suc i) xs"
  by (simp add: id_take_nth_drop)

section \<open>Big-endian fields\<close>

fun be_of_nat :: "nat \<Rightarrow> nat \<Rightarrow> bytes" where
  "be_of_nat 0 v = []"
| "be_of_nat (Suc k) v = be_of_nat k (v div 256) @ [of_nat (v mod 256)]"

definition nat_of_be :: "bytes \<Rightarrow> nat" where
  "nat_of_be bs = foldl (\<lambda>a b. a * 256 + unat b) 0 bs"

text \<open>\<open>to_be_bytes\<close> and \<open>from_be_bytes\<close> of the integer types, at the width of the word.\<close>

definition to_be_bytes :: "'a::len word \<Rightarrow> bytes" where
  "to_be_bytes w = be_of_nat (LENGTH('a) div 8) (unat w)"

definition from_be_bytes :: "bytes \<Rightarrow> 'a::len word" where
  "from_be_bytes bs = of_nat (nat_of_be bs)"

lemma length_be_of_nat [simp, be_simps]: "length (be_of_nat k v) = k"
  by (induction k arbitrary: v) auto

lemma length_to_be_bytes [simp, be_simps]: "length (to_be_bytes (w :: 'a::len word)) = LENGTH('a) div 8"
  by (simp add: to_be_bytes_def)

lemma length_to_be_bytes_4: "length (to_be_bytes (w :: u32)) = 4"
  by simp

lemma nat_of_be_snoc: "nat_of_be (bs @ [b]) = nat_of_be bs * 256 + unat b"
  by (simp add: nat_of_be_def)

lemma nat_of_be_Nil [simp]: "nat_of_be [] = 0"
  by (simp add: nat_of_be_def)

lemma nat_of_be_of_nat: "nat_of_be (be_of_nat k v) = v mod 256 ^ k"
proof (induction k arbitrary: v)
  case 0
  then show ?case by simp
next
  case (Suc k)
  have "unat (of_nat (v mod 256) :: u8) = v mod 256"
    by (simp add: unat_of_nat)
  then have "nat_of_be (be_of_nat (Suc k) v) = (v div 256) mod 256 ^ k * 256 + v mod 256"
    using Suc.IH by (simp add: nat_of_be_snoc)
  also have "\<dots> = v mod (256 * 256 ^ k)"
    by (simp add: mod_mult2_eq)
  finally show ?case by simp
qed

lemma nat_of_be_bound: "nat_of_be bs < 256 ^ length bs"
proof (induction bs rule: rev_induct)
  case Nil
  then show ?case by simp
next
  case (snoc b bs)
  have "unat b < 256" using unsigned_less [of b] by simp
  moreover from snoc have "nat_of_be bs + 1 \<le> 256 ^ length bs" by simp
  then have "(nat_of_be bs + 1) * 256 \<le> 256 ^ length bs * 256" by (rule mult_le_mono1)
  ultimately show ?case by (simp add: nat_of_be_snoc)
qed

lemma be_of_nat_of_be: "be_of_nat (length bs) (nat_of_be bs) = bs"
proof (induction bs rule: rev_induct)
  case Nil
  then show ?case by simp
next
  case (snoc b bs)
  have "unat b < 256" using unsigned_less [of b] by simp
  then have "(nat_of_be bs * 256 + unat b) div 256 = nat_of_be bs"
    and "(nat_of_be bs * 256 + unat b) mod 256 = unat b"
    by simp_all
  with snoc show ?case by (simp add: nat_of_be_snoc)
qed

lemma from_be_to_be:
  assumes "8 dvd LENGTH('a::len)"
  shows "from_be_bytes (to_be_bytes (w :: 'a word)) = w"
proof -
  from assms obtain k where k: "LENGTH('a) = 8 * k" by (rule dvdE)
  have "unat w < 2 ^ LENGTH('a)" by (rule unsigned_less)
  also have "(2::nat) ^ LENGTH('a) = 256 ^ k" by (simp add: k power_mult)
  finally have "unat w mod 256 ^ k = unat w" by simp
  then show ?thesis
    by (simp add: from_be_bytes_def to_be_bytes_def nat_of_be_of_nat k)
qed

lemma from_be_to_be_widths [simp, be_simps]:
  "from_be_bytes (to_be_bytes (a :: u16)) = a"
  "from_be_bytes (to_be_bytes (b :: u32)) = b"
  "from_be_bytes (to_be_bytes (c :: i64)) = c"
  by (rule from_be_to_be, simp)+

lemma to_be_from_be:
  assumes "length bs * 8 = LENGTH('a::len)"
  shows "to_be_bytes (from_be_bytes bs :: 'a word) = bs"
proof -
  have "nat_of_be bs < 256 ^ length bs" by (rule nat_of_be_bound)
  also have "(256::nat) ^ length bs = 2 ^ LENGTH('a)"
    by (simp add: assms [symmetric] power_mult [symmetric] mult.commute [of "length bs"] power_mult [of 2 8])
  finally have "unat (of_nat (nat_of_be bs) :: 'a word) = nat_of_be bs"
    by (simp add: unat_of_nat take_bit_nat_eq_self)
  moreover have "LENGTH('a) div 8 = length bs" using assms by auto
  ultimately show ?thesis
    by (simp add: to_be_bytes_def from_be_bytes_def be_of_nat_of_be)
qed

lemma to_be_bytes_inject:
  assumes "8 dvd LENGTH('a::len)"
  shows "to_be_bytes (a :: 'a word) = to_be_bytes b \<longleftrightarrow> a = b"
  by (metis assms from_be_to_be)

section \<open>Runs of threads\<close>

text \<open>
  A component with threads is a step relation on its state, one step for what one thread does in one piece; a
  run is any number of steps. What every step keeps, every run keeps.
\<close>

lemmas run_refl = rtranclp.rtrancl_refl
lemmas run_step = rtranclp.rtrancl_into_rtrancl

lemma one_more: "rtranclp step w w' \<Longrightarrow> step w' w'' \<Longrightarrow> w'' = x \<Longrightarrow> rtranclp step w x"
  by (blast intro: run_step)

locale step_invariant =
  fixes step :: "'s \<Rightarrow> 's \<Rightarrow> bool" and inv :: "'s \<Rightarrow> bool"
  assumes step_keeps: "step w w' \<Longrightarrow> inv w \<Longrightarrow> inv w'"
begin

lemma run_keeps: "rtranclp step w w' \<Longrightarrow> inv w \<Longrightarrow> inv w'"
  by (induction rule: rtranclp_induct) (auto intro: step_keeps)

end

end
