(* ===== verification/RustStr.thy ===== *)
theory RustStr
  imports LcmPrelude
begin

text \<open>
  What the crate uses of Rust's text: \<open>str::as_bytes\<close>, \<open>core::str::from_utf8\<close> and its
  well-formedness table. A Rust string is a HOL \<open>string\<close> of its UTF-8 bytes; \<open>is_str\<close> is the
  invariant that every \<open>&str\<close> and \<open>String\<close> of the code satisfies.
\<close>

definition byte_of_char :: "char \<Rightarrow> u8" where
  "byte_of_char c = of_nat (of_char c)"

definition char_of_byte :: "u8 \<Rightarrow> char" where
  "char_of_byte b = char_of (unat b)"

lemma char_of_byte_of_char [simp, str_simps]: "char_of_byte (byte_of_char c) = c"
proof -
  have "(of_char c :: nat) < 256" by simp
  then have "unat (of_nat (of_char c) :: u8) = (of_char c :: nat)"
    by (simp add: unat_of_nat take_bit_nat_eq_self)
  then show ?thesis by (simp add: char_of_byte_def byte_of_char_def)
qed

lemma byte_of_char_of_byte [simp, str_simps]: "byte_of_char (char_of_byte b) = b"
proof -
  have "unat b < 256" using unsigned_less [of b] by simp
  then show ?thesis by (simp add: char_of_byte_def byte_of_char_def)
qed

lemma byte_of_char_inject [simp]: "byte_of_char c = byte_of_char d \<longleftrightarrow> c = d"
  by (metis char_of_byte_of_char)

definition as_bytes :: "string \<Rightarrow> bytes" where
  "as_bytes s = map byte_of_char s"

definition of_bytes :: "bytes \<Rightarrow> string" where
  "of_bytes bs = map char_of_byte bs"

lemma of_bytes_as_bytes [simp, str_simps]: "of_bytes (as_bytes s) = s"
  by (simp add: of_bytes_def as_bytes_def comp_def)

lemma as_bytes_of_bytes [simp, str_simps]: "as_bytes (of_bytes bs) = bs"
  by (simp add: of_bytes_def as_bytes_def comp_def)

lemma length_as_bytes [simp, str_simps]: "length (as_bytes s) = length s"
  by (simp add: as_bytes_def)

lemma length_of_bytes [simp, str_simps]: "length (of_bytes s) = length s"
  by (simp add: of_bytes_def)

lemma as_bytes_inject [simp]: "as_bytes s = as_bytes t \<longleftrightarrow> s = t"
  by (metis of_bytes_as_bytes)

lemma as_bytes_eq_Nil [simp]: "as_bytes s = [] \<longleftrightarrow> s = []"
  by (simp add: as_bytes_def)

lemma as_bytes_append [simp, str_simps]: "as_bytes (s @ t) = as_bytes s @ as_bytes t"
  by (simp add: as_bytes_def)

section \<open>UTF-8\<close>

text \<open>
  The well-formed byte sequences of the Unicode standard, which \<open>core::str::from_utf8\<close> accepts:
  no overlong form, no surrogate, nothing above U+10FFFF.
\<close>

definition utf8_cont :: "u8 \<Rightarrow> bool" where
  "utf8_cont b \<longleftrightarrow> 0x80 \<le> b \<and> b \<le> 0xBF"

definition utf8_head2 :: "u8 \<Rightarrow> bool" where
  "utf8_head2 a \<longleftrightarrow> 0xC2 \<le> a \<and> a \<le> 0xDF"

definition utf8_head3 :: "u8 \<Rightarrow> u8 \<Rightarrow> bool" where
  "utf8_head3 a b \<longleftrightarrow>
     a = 0xE0 \<and> 0xA0 \<le> b \<and> b \<le> 0xBF \<or>
     (0xE1 \<le> a \<and> a \<le> 0xEC \<or> a = 0xEE \<or> a = 0xEF) \<and> utf8_cont b \<or>
     a = 0xED \<and> 0x80 \<le> b \<and> b \<le> 0x9F"

definition utf8_head4 :: "u8 \<Rightarrow> u8 \<Rightarrow> bool" where
  "utf8_head4 a b \<longleftrightarrow>
     a = 0xF0 \<and> 0x90 \<le> b \<and> b \<le> 0xBF \<or>
     0xF1 \<le> a \<and> a \<le> 0xF3 \<and> utf8_cont b \<or>
     a = 0xF4 \<and> 0x80 \<le> b \<and> b \<le> 0x8F"

fun utf8_valid :: "bytes \<Rightarrow> bool" where
  "utf8_valid [] \<longleftrightarrow> True"
| "utf8_valid (a # r1) \<longleftrightarrow>
     (if a < 0x80 then utf8_valid r1
      else case r1 of
        [] \<Rightarrow> False
      | b # r2 \<Rightarrow>
          if utf8_head2 a then utf8_cont b \<and> utf8_valid r2
          else case r2 of
            [] \<Rightarrow> False
          | c # r3 \<Rightarrow>
              if utf8_head3 a b then utf8_cont c \<and> utf8_valid r3
              else case r3 of
                [] \<Rightarrow> False
              | d # r4 \<Rightarrow> utf8_head4 a b \<and> utf8_cont c \<and> utf8_cont d \<and> utf8_valid r4)"

definition is_str :: "string \<Rightarrow> bool" where
  "is_str s \<longleftrightarrow> utf8_valid (as_bytes s)"

text \<open>\<open>core::str::from_utf8\<close>.\<close>

definition from_utf8 :: "bytes \<Rightarrow> string option" where
  "from_utf8 bs = (if utf8_valid bs then Some (of_bytes bs) else None)"

lemma from_utf8_as_bytes [str_simps]: "is_str s \<Longrightarrow> from_utf8 (as_bytes s) = Some s"
  by (simp add: from_utf8_def is_str_def)

lemma from_utf8_Some_iff: "from_utf8 bs = Some s \<longleftrightarrow> utf8_valid bs \<and> bs = as_bytes s"
proof -
  have "of_bytes bs = s \<longleftrightarrow> bs = as_bytes s"
    by (metis as_bytes_of_bytes of_bytes_as_bytes)
  then show ?thesis by (simp add: from_utf8_def)
qed

lemma from_utf8_is_str: "from_utf8 bs = Some s \<Longrightarrow> is_str s"
  by (auto simp: from_utf8_Some_iff is_str_def)

lemma is_str_Nil [simp]: "is_str []"
  by (simp add: is_str_def as_bytes_def)

lemma utf8_valid_append: "utf8_valid xs \<Longrightarrow> utf8_valid ys \<Longrightarrow> utf8_valid (xs @ ys)"
proof (induction xs rule: utf8_valid.induct)
  case 1
  then show ?case by simp
next
  case (2 a r1)
  show ?case
  proof (cases "a < 0x80 \<or> r1 = []")
    case True
    with 2 show ?thesis by (cases "a < 0x80") simp_all
  next
    case False
    then obtain b r2 where a: "\<not> a < 0x80" and r1: "r1 = b # r2" by (cases r1) auto
    show ?thesis
    proof (cases "utf8_head2 a \<or> r2 = []")
      case True
      with 2 a r1 show ?thesis by (cases "utf8_head2 a") simp_all
    next
      case False
      then obtain c r3 where h2: "\<not> utf8_head2 a" and r2: "r2 = c # r3" by (cases r2) auto
      show ?thesis
      proof (cases "utf8_head3 a b \<or> r3 = []")
        case True
        with 2 a r1 r2 h2 show ?thesis by (cases "utf8_head3 a b") simp_all
      next
        case False
        then obtain d r4 where h3: "\<not> utf8_head3 a b" and r3: "r3 = d # r4" by (cases r3) auto
        with 2 a r1 r2 h2 show ?thesis by simp
      qed
    qed
  qed
qed

lemma utf8_valid_ascii: "\<forall>b \<in> set bs. b < 0x80 \<Longrightarrow> utf8_valid bs"
  by (induction bs) auto

lemma is_str_append: "is_str s \<Longrightarrow> is_str t \<Longrightarrow> is_str (s @ t)"
  by (simp add: is_str_def utf8_valid_append)

definition ascii_str :: "string \<Rightarrow> bool" where
  "ascii_str s \<longleftrightarrow> (\<forall>c \<in> set s. (of_char c :: nat) < 128)"

lemma ascii_is_str: "ascii_str s \<Longrightarrow> is_str s"
  unfolding is_str_def ascii_str_def
proof (rule utf8_valid_ascii, rule ballI)
  fix b assume ascii: "\<forall>c \<in> set s. (of_char c :: nat) < 128" and "b \<in> set (as_bytes s)"
  then obtain c where c: "c \<in> set s" and b: "b = byte_of_char c" by (auto simp: as_bytes_def)
  from ascii c have "(of_char c :: nat) < 128" by blast
  then show "b < 0x80"
    by (simp add: b byte_of_char_def word_less_nat_alt unat_of_nat take_bit_nat_eq_self)
qed

text \<open>A byte below 0x80 is a character by itself, so a step over characters that looks only for
  ASCII ones is a step over bytes.\<close>

lemma utf8_valid_concat_map:
  assumes "utf8_valid bs" and "\<And>b. 0x80 \<le> b \<Longrightarrow> f b = [b]" and "\<And>b. b < 0x80 \<Longrightarrow> utf8_valid (f b)"
  shows "utf8_valid (concat (map f bs))"
  using assms(1)
proof (induction bs rule: utf8_valid.induct)
  case 1
  then show ?case by simp
next
  case (2 a r1)
  have f: "f b = [b]" if "utf8_cont b" for b
    using that assms(2) by (simp add: utf8_cont_def)
  have g: "utf8_cont b" if "utf8_head3 a b \<or> utf8_head4 a b" for b
    using that by (auto simp: utf8_head3_def utf8_head4_def utf8_cont_def word_le_nat_alt)
  show ?case
  proof (cases "a < 0x80")
    case True
    with 2 assms(3) show ?thesis by (simp add: utf8_valid_append)
  next
    case False
    with assms(2) have fa: "f a = [a]" by simp
    from False 2 obtain b r2 where r1: "r1 = b # r2" by (cases r1) auto
    show ?thesis
    proof (cases "utf8_head2 a")
      case True
      with 2 False r1 show ?thesis by (simp add: fa f)
    next
      case h2: False
      with 2 False r1 obtain c r3 where r2: "r2 = c # r3" by (cases r2) auto
      show ?thesis
      proof (cases "utf8_head3 a b")
        case True
        with g have "utf8_cont b" by blast
        with 2 False r1 r2 h2 True show ?thesis by (simp add: fa f)
      next
        case h3: False
        with 2 False r1 r2 h2 obtain d r4 where r3: "r3 = d # r4" by (cases r3) auto
        with 2 False r1 r2 h2 h3 have "utf8_head4 a b" by simp
        with g have "utf8_cont b" by blast
        with 2 False r1 r2 r3 h2 h3 show ?thesis by (simp add: fa f)
      qed
    qed
  qed
qed

end
