(* ===== verification/Wire.thy ===== *)
theory Wire
  imports RustStr
begin

text \<open>
  The parts of \<open>src/src/wire.rs\<close> that its three formats share: frames, the error type, the
  answer of a stream decoder, the rule for channel names, and the byte reader and writer.

  A \<open>Frame\<close> and a \<open>FrameRef\<close> are the same record here: the one borrows the bytes the other owns,
  and the model has values only. \<open>Reader\<close> is a record of the data and a position; each of its
  methods gives back the value and the reader after it. \<open>Writer\<close> is the bytes written.
\<close>

section \<open>Frames and errors\<close>

record Frame =
  channel :: string
  payload :: bytes

text \<open>\<open>FrameRef\<close> borrows what \<open>Frame\<close> owns, and \<open>to_frame\<close> and \<open>view\<close> go between the two.\<close>

type_synonym FrameRef = Frame

definition to_frame :: "FrameRef \<Rightarrow> Frame" where
  "to_frame f = \<lparr>channel = channel f, payload = payload f\<rparr>"

definition view :: "Frame \<Rightarrow> FrameRef" where
  "view f = \<lparr>channel = channel f, payload = payload f\<rparr>"

lemma frame_eta [simp]: "\<lparr>channel = channel f, payload = payload f\<rparr> = (f :: Frame)"
  by simp

lemma to_frame_id [simp]: "to_frame f = f"
  by (simp add: to_frame_def)

lemma view_id [simp]: "view f = f"
  by (simp add: view_def)

definition MAX_CHANNEL_LEN :: nat where
  "MAX_CHANNEL_LEN = 63"

text \<open>\<open>1 << 28\<close>.\<close>

definition MAX_MESSAGE_LEN :: nat where
  "MAX_MESSAGE_LEN = 268435456"

lemma MAX_MESSAGE_LEN_shift: "MAX_MESSAGE_LEN = push_bit 28 1"
  by (simp add: MAX_MESSAGE_LEN_def)

datatype WireError =
  Truncated nat nat
| BadMagic u32
| BadChannel
| ChannelTooLong nat
| MessageTooLarge nat
| DatagramTooSmall nat nat
| TooManyFragments nat
| InconsistentFragment u32
| UnknownFrameType u32

datatype 'a Decoded = Item 'a nat | Need nat | Skip nat

text \<open>\<open>Decoded::item\<close>.\<close>

definition decoded_item :: "'a Decoded \<Rightarrow> ('a \<times> nat) option" where
  "decoded_item d = (case d of Item x n \<Rightarrow> Some (x, n) | Need _ \<Rightarrow> None | Skip _ \<Rightarrow> None)"

definition check_channel :: "string \<Rightarrow> nat \<Rightarrow> WireError + unit" where
  "check_channel ch mx =
     (let bs = as_bytes ch in
      if bs = [] \<or> 0 \<in> set bs then Inl BadChannel
      else if length bs > mx then Inl (ChannelTooLong (length bs))
      else Inr ())"

lemma check_channel_Inr_iff:
  "check_channel ch mx = Inr u \<longleftrightarrow> ch \<noteq> [] \<and> 0 \<notin> set (as_bytes ch) \<and> length ch \<le> mx"
  by (auto simp: check_channel_def Let_def)

lemma check_channel_mono: "check_channel ch a = Inr u \<Longrightarrow> a \<le> b \<Longrightarrow> check_channel ch b = Inr u"
  by (simp add: check_channel_Inr_iff)

section \<open>Reader\<close>

record Reader =
  data :: bytes
  pos :: nat

definition reader_new :: "bytes \<Rightarrow> Reader" where
  "reader_new d = \<lparr>data = d, pos = 0\<rparr>"

definition reader_take :: "Reader \<Rightarrow> nat \<Rightarrow> WireError + bytes \<times> Reader" where
  "reader_take r n =
     (let remaining = length (data r) - pos r in
      if remaining < n then Inl (Truncated n remaining)
      else Inr (take n (drop (pos r) (data r)), r\<lparr>pos := pos r + n\<rparr>))"

definition reader_u16 :: "Reader \<Rightarrow> WireError + u16 \<times> Reader" where
  "reader_u16 r = and_then (reader_take r 2) (\<lambda>(bs, r). Inr (from_be_bytes bs, r))"

definition reader_u32 :: "Reader \<Rightarrow> WireError + u32 \<times> Reader" where
  "reader_u32 r = and_then (reader_take r 4) (\<lambda>(bs, r). Inr (from_be_bytes bs, r))"

definition reader_i64 :: "Reader \<Rightarrow> WireError + i64 \<times> Reader" where
  "reader_i64 r = and_then (reader_take r 8) (\<lambda>(bs, r). Inr (from_be_bytes bs, r))"

definition reader_channel :: "Reader \<Rightarrow> WireError + string \<times> Reader" where
  "reader_channel r =
     (let rst = drop (pos r) (data r) in
      case position (\<lambda>b. b = 0) rst of
        None \<Rightarrow> Inl BadChannel
      | Some e \<Rightarrow>
          if e = 0 then Inl BadChannel
          else if e > MAX_CHANNEL_LEN then Inl (ChannelTooLong e)
          else case from_utf8 (take e rst) of
            None \<Rightarrow> Inl BadChannel
          | Some name \<Rightarrow> Inr (name, r\<lparr>pos := pos r + (e + 1)\<rparr>))"

definition reader_rest :: "Reader \<Rightarrow> bytes \<times> Reader" where
  "reader_rest r = (drop (pos r) (data r), r\<lparr>pos := length (data r)\<rparr>)"

section \<open>Writer\<close>

type_synonym Writer = bytes

definition writer_new :: Writer where
  "writer_new = []"

definition writer_bytes :: "Writer \<Rightarrow> bytes \<Rightarrow> Writer" where
  "writer_bytes w bs = w @ bs"

definition writer_u32 :: "Writer \<Rightarrow> u32 \<Rightarrow> Writer" where
  "writer_u32 w v = writer_bytes w (to_be_bytes v)"

definition writer_i64 :: "Writer \<Rightarrow> i64 \<Rightarrow> Writer" where
  "writer_i64 w v = writer_bytes w (to_be_bytes v)"

text \<open>\<open>bytes.len() as u32\<close> keeps the low 32 bits.\<close>

definition writer_length_prefixed :: "Writer \<Rightarrow> bytes \<Rightarrow> Writer" where
  "writer_length_prefixed w bs = writer_bytes (writer_u32 w (of_nat (length bs))) bs"

definition writer_finish :: "Writer \<Rightarrow> bytes" where
  "writer_finish w = w"

lemmas writer_defs =
  writer_new_def writer_bytes_def writer_u32_def writer_i64_def writer_length_prefixed_def
  writer_finish_def

section \<open>Reading what was written\<close>

text \<open>
  A reader in the middle of its data: \<open>at_suffix r s\<close> says \<open>s\<close> is what is left. The lemmas on
  reading a field are stated on it, so a decoder's proof follows the fields of the format.
\<close>

definition at_suffix :: "Reader \<Rightarrow> bytes \<Rightarrow> bool" where
  "at_suffix r s \<longleftrightarrow> pos r \<le> length (data r) \<and> drop (pos r) (data r) = s"

lemma at_suffix_new [simp]: "at_suffix (reader_new d) d"
  by (simp add: at_suffix_def reader_new_def)

lemma at_suffix_pos: "at_suffix r s \<Longrightarrow> pos r = length (data r) - length s"
  by (auto simp: at_suffix_def)

lemma at_suffix_advance:
  assumes "at_suffix r s" and "n \<le> length s"
  shows "at_suffix (r\<lparr>pos := pos r + n\<rparr>) (drop n s)"
  using assms by (auto simp: at_suffix_def add.commute)

lemma reader_take_at:
  assumes "at_suffix r s"
  shows "reader_take r n =
    (if length s < n then Inl (Truncated n (length s))
     else Inr (take n s, r\<lparr>pos := pos r + n\<rparr>))"
  using assms by (auto simp: reader_take_def at_suffix_def Let_def)

lemma reader_take_append:
  assumes "at_suffix r (xs @ s)" and "length xs = n"
  obtains r' where "reader_take r n = Inr (xs, r')" and "at_suffix r' s" and "data r' = data r"
proof -
  have "at_suffix (r\<lparr>pos := pos r + n\<rparr>) s"
    using at_suffix_advance [OF assms(1), of n] assms(2) by simp
  with assms show ?thesis by (intro that [of "r\<lparr>pos := pos r + n\<rparr>"]) (simp_all add: reader_take_at)
qed

lemma reader_u16_append:
  assumes "at_suffix r (to_be_bytes (v :: u16) @ s)"
  obtains r' where "reader_u16 r = Inr (v, r')" and "at_suffix r' s" and "data r' = data r"
proof -
  obtain r' where "reader_take r 2 = Inr (to_be_bytes v, r')" and "at_suffix r' s" and "data r' = data r"
    by (rule reader_take_append [OF assms]) simp
  then show ?thesis by (intro that [of r']) (simp_all add: reader_u16_def)
qed

lemma reader_u32_append:
  assumes "at_suffix r (to_be_bytes (v :: u32) @ s)"
  obtains r' where "reader_u32 r = Inr (v, r')" and "at_suffix r' s" and "data r' = data r"
proof -
  obtain r' where "reader_take r 4 = Inr (to_be_bytes v, r')" and "at_suffix r' s" and "data r' = data r"
    by (rule reader_take_append [OF assms]) simp
  then show ?thesis by (intro that [of r']) (simp_all add: reader_u32_def)
qed

lemma reader_i64_append:
  assumes "at_suffix r (to_be_bytes (v :: i64) @ s)"
  obtains r' where "reader_i64 r = Inr (v, r')" and "at_suffix r' s" and "data r' = data r"
proof -
  obtain r' where "reader_take r 8 = Inr (to_be_bytes v, r')" and "at_suffix r' s" and "data r' = data r"
    by (rule reader_take_append [OF assms]) simp
  then show ?thesis by (intro that [of r']) (simp_all add: reader_i64_def)
qed

lemma reader_channel_append:
  assumes "at_suffix r (as_bytes ch @ 0 # s)"
    and "is_str ch" and "check_channel ch MAX_CHANNEL_LEN = Inr u"
  obtains r' where "reader_channel r = Inr (ch, r')" and "at_suffix r' s" and "data r' = data r"
proof -
  from assms(3) have ne: "ch \<noteq> []" and nul: "0 \<notin> set (as_bytes ch)" and len: "length ch \<le> MAX_CHANNEL_LEN"
    by (auto simp: check_channel_Inr_iff)
  have drp: "drop (pos r) (data r) = as_bytes ch @ 0 # s"
    using assms(1) by (simp add: at_suffix_def)
  have end_at: "position (\<lambda>b. b = 0) (as_bytes ch @ 0 # s) = Some (length ch)"
    using nul position_append_hit [of "as_bytes ch" "\<lambda>b. b = 0" 0 s] by auto
  have "at_suffix (r\<lparr>pos := pos r + (length ch + 1)\<rparr>) s"
    using at_suffix_advance [OF assms(1), of "length ch + 1"] by simp
  with drp end_at ne len assms(2) show ?thesis
    by (intro that [of "r\<lparr>pos := pos r + (length ch + 1)\<rparr>"])
      (simp_all add: reader_channel_def from_utf8_as_bytes)
qed

text \<open>The same reads at a known position, to run a decoder on data it knows nothing of.\<close>

lemma reader_take_eq:
  "reader_take \<lparr>data = d, pos = p\<rparr> n =
    (if length d - p < n then Inl (Truncated n (length d - p))
     else Inr (take n (drop p d), \<lparr>data = d, pos = p + n\<rparr>))"
  by (simp add: reader_take_def)

lemma reader_u16_eq:
  "reader_u16 \<lparr>data = d, pos = p\<rparr> =
    (if length d - p < 2 then Inl (Truncated 2 (length d - p))
     else Inr (from_be_bytes (take 2 (drop p d)), \<lparr>data = d, pos = p + 2\<rparr>))"
  by (simp add: reader_u16_def reader_take_eq)

lemma reader_u32_eq:
  "reader_u32 \<lparr>data = d, pos = p\<rparr> =
    (if length d - p < 4 then Inl (Truncated 4 (length d - p))
     else Inr (from_be_bytes (take 4 (drop p d)), \<lparr>data = d, pos = p + 4\<rparr>))"
  by (simp add: reader_u32_def reader_take_eq)

lemma reader_i64_eq:
  "reader_i64 \<lparr>data = d, pos = p\<rparr> =
    (if length d - p < 8 then Inl (Truncated 8 (length d - p))
     else Inr (from_be_bytes (take 8 (drop p d)), \<lparr>data = d, pos = p + 8\<rparr>))"
  by (simp add: reader_i64_def reader_take_eq)

lemmas reader_eqs = reader_new_def reader_take_eq reader_u16_eq reader_u32_eq reader_i64_eq

text \<open>What a name read off the wire is: a text of 1 to 63 bytes with no NUL in it.\<close>

lemma reader_channel_sound:
  assumes "reader_channel r = Inr (ch, r')"
  shows "is_str ch" and "check_channel ch MAX_CHANNEL_LEN = Inr ()"
    and "drop (pos r) (data r) = as_bytes ch @ 0 # drop (pos r') (data r')"
    and "data r' = data r"
proof -
  let ?rst = "drop (pos r) (data r)"
  from assms obtain e where e: "position (\<lambda>b. b = 0) ?rst = Some e" and e0: "e \<noteq> 0"
    and emax: "e \<le> MAX_CHANNEL_LEN" and u: "from_utf8 (take e ?rst) = Some ch"
    and r': "r' = r\<lparr>pos := pos r + (e + 1)\<rparr>"
    by (auto simp: reader_channel_def Let_def split: option.splits if_splits)
  from e have elt: "e < length ?rst" and z: "?rst ! e = 0" and nz: "\<forall>j < e. ?rst ! j \<noteq> 0"
    unfolding position_Some_iff by blast+
  from u have ch: "as_bytes ch = take e ?rst" by (simp add: from_utf8_Some_iff)
  from u show "is_str ch" by (rule from_utf8_is_str)
  from ch elt have len: "length ch = e" by (metis length_as_bytes length_take min.absorb4)
  have "0 \<notin> set (take e ?rst)"
    using nz elt by (auto simp: in_set_conv_nth)
  with ch len e0 emax show "check_channel ch MAX_CHANNEL_LEN = Inr ()"
    by (auto simp: check_channel_Inr_iff)
  show "data r' = data r" by (simp add: r')
  have "?rst = take e ?rst @ ?rst ! e # drop (Suc e) ?rst"
    using elt by (rule list_eq_take_nth_drop)
  then show "drop (pos r) (data r) = as_bytes ch @ 0 # drop (pos r') (data r')"
    by (simp add: ch z r' add.commute)
qed

section \<open>Fields at a place of the data\<close>

definition field32 :: "bytes \<Rightarrow> nat \<Rightarrow> u32" where
  "field32 d at = from_be_bytes (take 4 (drop at d))"

lemma read_field32:
  "p + 4 \<le> length d \<Longrightarrow>
    reader_u32 \<lparr>data = d, pos = p\<rparr> = Inr (field32 d p, \<lparr>data = d, pos = p + 4\<rparr>)"
  by (simp add: reader_u32_eq field32_def)

lemma field32_append: "at + 4 \<le> length d \<Longrightarrow> field32 (d @ e) at = field32 d at"
  by (simp add: field32_def)

lemma field32_hit: "p = length xs \<Longrightarrow> field32 (xs @ to_be_bytes v @ s) p = v"
  by (simp add: field32_def)

lemma field32_bytes: "p + 4 \<le> length d \<Longrightarrow> to_be_bytes (field32 d p) = take 4 (drop p d)"
  unfolding field32_def by (rule to_be_from_be) simp

definition field16 :: "bytes \<Rightarrow> nat \<Rightarrow> u16" where
  "field16 d at = from_be_bytes (take 2 (drop at d))"

lemma read_field16:
  "p + 2 \<le> length d \<Longrightarrow>
    reader_u16 \<lparr>data = d, pos = p\<rparr> = Inr (field16 d p, \<lparr>data = d, pos = p + 2\<rparr>)"
  by (simp add: reader_u16_eq field16_def)

lemma field16_bytes: "p + 2 \<le> length d \<Longrightarrow> to_be_bytes (field16 d p) = take 2 (drop p d)"
  unfolding field16_def by (rule to_be_from_be) simp

end
