(* ===== verification/Streams.thy ===== *)
theory Streams
  imports Wire
begin

text \<open>
  Decoders of a byte stream, as the readers use them: ask, take what came, step over it, ask again.
  \<open>decoder_progress\<close> is what each of the three decoders promises about the lengths it answers with;
  \<open>stream_decoder\<close> adds what makes a decoder of a byte stream independent of how the bytes were cut
  into reads. \<open>drain\<close> is the loop of the readers over the bytes of one buffer: what it took, an item
  (\<open>Some\<close>) or a frame it stepped over (\<open>None\<close>), the bytes it left, and the error that ended it. As a
  whole it is \<open>None\<close> where the loop does not end.
\<close>

section \<open>The loop of a reader\<close>

partial_function (option) drain ::
    "(bytes \<Rightarrow> WireError + 'a Decoded) \<Rightarrow> bytes \<Rightarrow> ('a option list \<times> bytes \<times> WireError option) option" where
  "drain dec d =
     (case dec d of
        Inl e \<Rightarrow> Some ([], d, Some e)
      | Inr (Need n) \<Rightarrow> Some ([], d, None)
      | Inr (Skip n) \<Rightarrow> Option.bind (drain dec (drop n d)) (\<lambda>(xs, out). Some (None # xs, out))
      | Inr (Item x n) \<Rightarrow> Option.bind (drain dec (drop n d)) (\<lambda>(xs, out). Some (Some x # xs, out)))"

text \<open>The bytes of a stream, in the pieces a socket gave them.\<close>

fun drain_chunks ::
    "(bytes \<Rightarrow> WireError + 'a Decoded) \<Rightarrow> bytes \<Rightarrow> bytes list \<Rightarrow> ('a option list \<times> bytes \<times> WireError option) option" where
  "drain_chunks dec d [] = drain dec d"
| "drain_chunks dec d (c # cs) =
     (case drain dec d of
        None \<Rightarrow> None
      | Some (xs, rst, Some e) \<Rightarrow> Some (xs, rst @ concat (c # cs), Some e)
      | Some (xs, rst, None) \<Rightarrow> map_option (\<lambda>(ys, out). (xs @ ys, out)) (drain_chunks dec (rst @ c) cs))"

section \<open>Progress\<close>

locale decoder_progress =
  fixes dec :: "bytes \<Rightarrow> WireError + 'a Decoded"
  assumes need_more: "dec d = Inr (Need n) \<Longrightarrow> length d < n"
    and item_within: "dec d = Inr (Item x n) \<Longrightarrow> 0 < n \<and> n \<le> length d"
    and skip_within: "dec d = Inr (Skip n) \<Longrightarrow> 0 < n \<and> n \<le> length d"
begin

text \<open>The loop ends, with some of the bytes left, and stops only where the decoder has an error or
  wants bytes that are not there.\<close>

lemma drain_ends:
  "\<exists>xs rst err. drain dec d = Some (xs, rst, err) \<and> (\<exists>used. d = used @ rst) \<and>
    (case err of Some e \<Rightarrow> dec rst = Inl e | None \<Rightarrow> \<exists>n. dec rst = Inr (Need n) \<and> length rst < n)"
proof (induction "length d" arbitrary: d rule: less_induct)
  case less
  have next_part: "\<exists>xs rst err. drain dec (drop n d) = Some (xs, rst, err) \<and> (\<exists>used. d = used @ rst) \<and>
      (case err of Some e \<Rightarrow> dec rst = Inl e | None \<Rightarrow> \<exists>n. dec rst = Inr (Need n) \<and> length rst < n)"
    if "0 < n" "n \<le> length d" for n
  proof -
    have "length (drop n d) < length d" using that by simp
    from less [OF this] obtain xs rst err where out: "drain dec (drop n d) = Some (xs, rst, err)"
      "\<exists>used. drop n d = used @ rst"
      "case err of Some e \<Rightarrow> dec rst = Inl e | None \<Rightarrow> \<exists>n. dec rst = Inr (Need n) \<and> length rst < n"
      by blast
    from out(2) have "\<exists>used. d = used @ rst" by (metis append_assoc append_take_drop_id)
    with out(1,3) show ?thesis by blast
  qed
  show ?case
  proof (cases "dec d")
    case (Inl e)
    then show ?thesis by (simp add: drain.simps)
  next
    case (Inr r)
    show ?thesis
    proof (cases r)
      case (Item x n)
      with Inr item_within have "0 < n" "n \<le> length d" by blast+
      from next_part [OF this] Inr Item show ?thesis by (subst drain.simps) force
    next
      case (Need n)
      with Inr need_more show ?thesis by (simp add: drain.simps)
    next
      case (Skip n)
      with Inr skip_within have "0 < n" "n \<le> length d" by blast+
      from next_part [OF this] Inr Skip show ?thesis by (subst drain.simps) force
    qed
  qed
qed

end

section \<open>A stream in pieces\<close>

locale stream_decoder = decoder_progress +
  assumes stable: "dec d = r \<Longrightarrow> (\<forall>n. r \<noteq> Inr (Need n)) \<Longrightarrow> dec (d @ e) = r"
    and need_stable: "dec d = Inr (Need n) \<Longrightarrow> length (d @ e) < n \<Longrightarrow> dec (d @ e) = Inr (Need n)"
begin

lemma drain_append:
  "drain dec (d @ e) =
    (case drain dec d of
       None \<Rightarrow> None
     | Some (xs, rst, Some err) \<Rightarrow> Some (xs, rst @ e, Some err)
     | Some (xs, rst, None) \<Rightarrow> map_option (\<lambda>(ys, out). (xs @ ys, out)) (drain dec (rst @ e)))"
proof (induction "length d" arbitrary: d rule: less_induct)
  case less
  show ?case
  proof (cases "dec d")
    case (Inl err)
    then have "dec (d @ e) = Inl err" by (rule stable) simp
    with Inl show ?thesis by (simp add: drain.simps)
  next
    case (Inr r)
    show ?thesis
    proof (cases r)
      case (Item x n)
      with Inr have it: "dec d = Inr (Item x n)" by simp
      then have "dec (d @ e) = Inr (Item x n)" by (rule stable) simp
      moreover from item_within [OF it] have n: "0 < n" "n \<le> length d" by simp_all
      then have "length (drop n d) < length d" by simp
      note less [OF this]
      ultimately show ?thesis
        using it n by (subst (1 2) drain.simps)
          (auto simp: bind_eq_Some_conv split: option.splits prod.splits bind_splits)
    next
      case (Need n)
      with Inr have "drain dec d = Some ([], d, None)" by (simp add: drain.simps)
      then show ?thesis by (simp add: option.map_ident_strong case_prod_beta)
    next
      case (Skip n)
      with Inr have it: "dec d = Inr (Skip n)" by simp
      then have "dec (d @ e) = Inr (Skip n)" by (rule stable) simp
      moreover from skip_within [OF it] have n: "0 < n" "n \<le> length d" by simp_all
      then have "length (drop n d) < length d" by simp
      note less [OF this]
      ultimately show ?thesis
        using it n by (subst (1 2) drain.simps)
          (auto simp: bind_eq_Some_conv split: option.splits prod.splits bind_splits)
    qed
  qed
qed

text \<open>However a stream is cut, the items that come out of it, what is left and the error that ends
  it are those of the whole stream.\<close>

lemma drain_chunks_concat: "drain_chunks dec d cs = drain dec (d @ concat cs)"
proof (induction cs arbitrary: d)
  case Nil
  then show ?case by simp
next
  case (Cons c cs)
  obtain xs rst err where d: "drain dec d = Some (xs, rst, err)" using drain_ends by blast
  show ?case
  proof (cases err)
    case None
    with d Cons.IH [of "rst @ c"] drain_append [of d "c @ concat cs"] show ?thesis by simp
  next
    case (Some e)
    with d drain_append [of d "c @ concat cs"] show ?thesis by simp
  qed
qed

text \<open>A stream of items, one behind the other, is read back in order, however it is cut.\<close>

definition writes :: "'a \<Rightarrow> bytes \<Rightarrow> bool" where
  "writes x bs \<longleftrightarrow> (\<forall>e. dec (bs @ e) = Inr (Item x (length bs)))"

lemma drain_items:
  assumes "list_all2 writes xs bss" and "dec [] = Inr (Need n)"
  shows "drain dec (concat bss) = Some (map Some xs, [], None)"
  using assms(1)
proof (induction rule: list_all2_induct)
  case Nil
  then show ?case using assms(2) by (simp add: drain.simps)
next
  case (Cons x xs bs bss)
  then show ?case by (simp add: drain.simps [of _ "bs @ concat bss"] writes_def)
qed

lemma chunks_items:
  assumes "list_all2 writes xs bss" and "dec [] = Inr (Need n)" and "concat cs = concat bss"
  shows "drain_chunks dec [] cs = Some (map Some xs, [], None)"
  using drain_items [OF assms(1,2)] by (simp add: drain_chunks_concat assms(3))

end

end
