(* ===== verification/ReadBuf.thy ===== *)
theory ReadBuf
  imports Streams
begin

text \<open>
  \<open>bus::ReadBuffer\<close>: the bytes read off a stream and not decoded yet. The buffer is a list, \<open>start\<close>
  and \<open>end\<close> are positions in it. \<open>spare\<close> and \<open>filled\<close> hand a part of the buffer to a read and take it
  back; \<open>put\<close> is the pair of them around a read of some bytes. \<open>byte_queue\<close> is the interface the
  readers use; the model of the code is an instance of it, so what goes in comes out once and in order.
\<close>

section \<open>Definitions\<close>

record ReadBuffer =
  rb_buffer :: bytes
  rb_start :: nat
  rb_end :: nat
  rb_floor :: nat
  rb_ceiling :: nat
  rb_wanted :: nat

definition with_limits :: "nat \<Rightarrow> nat \<Rightarrow> ReadBuffer" where
  "with_limits floor ceiling =
     (let floor = max floor 1 in
      \<lparr>rb_buffer = replicate floor 0, rb_start = 0, rb_end = 0, rb_floor = floor,
       rb_ceiling = max ceiling floor, rb_wanted = 0\<rparr>)"

definition read_buffer_new :: "nat \<Rightarrow> ReadBuffer" where
  "read_buffer_new floor = with_limits floor MAX_MESSAGE_LEN"

text \<open>\<open>copy_within(start..end, 0)\<close> and \<open>resize(want, 0)\<close>.\<close>

definition copy_to_front :: "bytes \<Rightarrow> nat \<Rightarrow> nat \<Rightarrow> bytes" where
  "copy_to_front xs a b = take (b - a) (drop a xs) @ drop (b - a) xs"

definition resize :: "nat \<Rightarrow> bytes \<Rightarrow> bytes" where
  "resize n xs = take n xs @ replicate (n - length xs) 0"

definition make_room :: "ReadBuffer \<Rightarrow> ReadBuffer" where
  "make_room b =
     (if rb_start b = rb_end b then
        let keep = max (rb_floor b) (rb_wanted b) in
        b\<lparr>rb_start := 0, rb_end := 0,
          rb_buffer := (if length (rb_buffer b) > keep then replicate keep 0 else rb_buffer b)\<rparr>
      else
        let b = (if rb_start b * 2 \<ge> length (rb_buffer b) \<or> rb_end b = length (rb_buffer b) then
                   b\<lparr>rb_buffer := copy_to_front (rb_buffer b) (rb_start b) (rb_end b),
                     rb_end := rb_end b - rb_start b, rb_start := 0\<rparr>
                 else b)
        in if rb_end b = length (rb_buffer b) \<and> length (rb_buffer b) < rb_ceiling b then
             b\<lparr>rb_buffer := resize (min (length (rb_buffer b) * 2) (rb_ceiling b)) (rb_buffer b)\<rparr>
           else b)"

definition reserve :: "ReadBuffer \<Rightarrow> nat \<Rightarrow> bool \<times> ReadBuffer" where
  "reserve b n =
     (if n > rb_ceiling b then (False, b) else (True, make_room (b\<lparr>rb_wanted := n\<rparr>)))"

text \<open>The slice of \<open>unread\<close>; out of range is a panic in the code, and the invariant excludes it.\<close>

definition unread :: "ReadBuffer \<Rightarrow> bytes" where
  "unread b = take (rb_end b - rb_start b) (drop (rb_start b) (rb_buffer b))"

definition consume :: "ReadBuffer \<Rightarrow> nat \<Rightarrow> ReadBuffer" where
  "consume b n =
     (if n = 0 then b
      else b\<lparr>rb_start := min (rb_start b + n) (rb_end b), rb_wanted := 0\<rparr>)"

text \<open>The length of \<open>spare()\<close>, and the buffer with the room made.\<close>

definition spare :: "ReadBuffer \<Rightarrow> nat \<times> ReadBuffer" where
  "spare b = (let b = make_room b in (length (rb_buffer b) - rb_end b, b))"

text \<open>A read writes to the front of the spare part.\<close>

definition write_spare :: "ReadBuffer \<Rightarrow> bytes \<Rightarrow> ReadBuffer" where
  "write_spare b bs =
     b\<lparr>rb_buffer := take (rb_end b) (rb_buffer b) @ bs @ drop (rb_end b + length bs) (rb_buffer b)\<rparr>"

definition filled :: "ReadBuffer \<Rightarrow> nat \<Rightarrow> ReadBuffer" where
  "filled b n = b\<lparr>rb_end := min (rb_end b + n) (length (rb_buffer b))\<rparr>"

text \<open>
  \<open>fill_from\<close>. The source is an argument: given the length of the room it answers with the bytes it
  wrote or an error. \<open>Inl None\<close> is the error of a full buffer, \<open>Inl (Some e)\<close> one of the source.
\<close>

definition fill_from ::
    "(nat \<Rightarrow> 'e + bytes) \<Rightarrow> ReadBuffer \<Rightarrow> ('e option + nat) \<times> ReadBuffer" where
  "fill_from source b =
     (let (room, b) = spare b in
      if room = 0 then (Inl None, b)
      else case source room of
        Inl e \<Rightarrow> (Inl (Some e), b)
      | Inr bs \<Rightarrow> (Inr (length bs), filled (write_spare b bs) (length bs)))"

section \<open>Invariant\<close>

definition read_buffer_ok :: "ReadBuffer \<Rightarrow> bool" where
  "read_buffer_ok b \<longleftrightarrow>
     rb_start b \<le> rb_end b \<and> rb_end b \<le> length (rb_buffer b) \<and>
     1 \<le> rb_floor b \<and> rb_floor b \<le> rb_ceiling b \<and> rb_wanted b \<le> rb_ceiling b \<and>
     1 \<le> length (rb_buffer b) \<and> length (rb_buffer b) \<le> rb_ceiling b"

lemma with_limits_ok: "read_buffer_ok (with_limits floor ceiling)"
  and unread_new: "unread (with_limits floor ceiling) = []"
  by (auto simp: read_buffer_ok_def with_limits_def unread_def Let_def)

lemma length_unread: "read_buffer_ok b \<Longrightarrow> length (unread b) = rb_end b - rb_start b"
  by (auto simp: read_buffer_ok_def unread_def)

lemma length_copy_to_front [simp]: "a \<le> b \<Longrightarrow> b \<le> length xs \<Longrightarrow> length (copy_to_front xs a b) = length xs"
  by (simp add: copy_to_front_def)

lemma take_copy_to_front: "b \<le> length xs \<Longrightarrow> a \<le> b \<Longrightarrow> take (b - a) (copy_to_front xs a b) = take (b - a) (drop a xs)"
  by (simp add: copy_to_front_def)

lemma length_resize [simp]: "length (resize n xs) = n"
  by (simp add: resize_def)

lemma take_resize: "k \<le> length xs \<Longrightarrow> k \<le> n \<Longrightarrow> take k (resize n xs) = take k xs"
  by (simp add: resize_def)

text \<open>
  \<open>make_room\<close> by its three steps: an empty buffer, the move to the front, and the growth.
\<close>

definition to_front :: "ReadBuffer \<Rightarrow> ReadBuffer" where
  "to_front b = b\<lparr>rb_buffer := copy_to_front (rb_buffer b) (rb_start b) (rb_end b),
     rb_end := rb_end b - rb_start b, rb_start := 0\<rparr>"

definition grow :: "ReadBuffer \<Rightarrow> ReadBuffer" where
  "grow b = (if rb_end b = length (rb_buffer b) \<and> length (rb_buffer b) < rb_ceiling b then
     b\<lparr>rb_buffer := resize (min (length (rb_buffer b) * 2) (rb_ceiling b)) (rb_buffer b)\<rparr> else b)"

lemma make_room_steps:
  "make_room b =
    (if rb_start b = rb_end b then
       b\<lparr>rb_start := 0, rb_end := 0,
         rb_buffer := (if length (rb_buffer b) > max (rb_floor b) (rb_wanted b)
           then replicate (max (rb_floor b) (rb_wanted b)) 0 else rb_buffer b)\<rparr>
     else grow (if rb_start b * 2 \<ge> length (rb_buffer b) \<or> rb_end b = length (rb_buffer b)
       then to_front b else b))"
  by (simp add: make_room_def grow_def to_front_def Let_def)

lemma to_front_ok: "read_buffer_ok b \<Longrightarrow> read_buffer_ok (to_front b)"
  and to_front_unread: "read_buffer_ok b \<Longrightarrow> unread (to_front b) = unread b"
  by (auto simp: read_buffer_ok_def to_front_def unread_def take_copy_to_front)

lemma grow_ok: "read_buffer_ok b \<Longrightarrow> read_buffer_ok (grow b)"
  by (auto simp: read_buffer_ok_def grow_def)

lemma grow_unread: "read_buffer_ok b \<Longrightarrow> unread (grow b) = unread b"
  by (auto simp: read_buffer_ok_def grow_def unread_def resize_def)

lemma make_room_ok:
  assumes "read_buffer_ok b"
  shows "read_buffer_ok (make_room b)"
proof (cases "rb_start b = rb_end b")
  case True
  with assms show ?thesis by (auto simp: make_room_def read_buffer_ok_def Let_def)
next
  case False
  with assms show ?thesis by (simp add: make_room_steps grow_ok to_front_ok)
qed

lemma make_room_unread:
  assumes "read_buffer_ok b"
  shows "unread (make_room b) = unread b"
proof (cases "rb_start b = rb_end b")
  case True
  then show ?thesis by (simp add: make_room_def unread_def Let_def)
next
  case False
  with assms show ?thesis by (simp add: make_room_steps grow_unread to_front_ok to_front_unread)
qed

lemma make_room_limits:
  "rb_floor (make_room b) = rb_floor b" "rb_ceiling (make_room b) = rb_ceiling b"
  "rb_wanted (make_room b) = rb_wanted b"
  by (simp_all add: make_room_def Let_def)

text \<open>Room is bought by bytes that came: the buffer grows only where the unread bytes fill it.\<close>

lemma make_room_growth:
  assumes "read_buffer_ok b"
  shows "length (rb_buffer (make_room b)) \<le> max (length (rb_buffer b)) (2 * length (unread b))"
proof (cases "rb_start b = rb_end b")
  case True
  then show ?thesis by (auto simp: make_room_def Let_def)
next
  case False
  have "length (rb_buffer (grow c)) \<le> max (length (rb_buffer c)) (2 * rb_end c)" for c
    by (auto simp: grow_def)
  from this [of "to_front b"] this [of b] False assms show ?thesis
    by (auto simp: make_room_steps to_front_def length_unread read_buffer_ok_def grow_def)
qed

text \<open>There is room after \<open>make_room\<close> unless the unread bytes are at the ceiling.\<close>

lemma make_room_spare:
  assumes ok: "read_buffer_ok b"
  shows "rb_end (make_room b) < length (rb_buffer (make_room b)) \<or> length (unread b) = rb_ceiling b"
proof (cases "rb_start b = rb_end b")
  case True
  with ok show ?thesis by (auto simp: make_room_def read_buffer_ok_def Let_def)
next
  case False
  have grown: "rb_end (grow c) < length (rb_buffer (grow c)) \<or> rb_end c = rb_ceiling c"
    if "read_buffer_ok c" for c
    using that by (auto simp: grow_def read_buffer_ok_def)
  show ?thesis
  proof (cases "rb_start b * 2 \<ge> length (rb_buffer b) \<or> rb_end b = length (rb_buffer b)")
    case True
    with grown [OF to_front_ok [OF ok]] False ok show ?thesis
      by (auto simp: make_room_steps to_front_def length_unread)
  next
    case stay: False
    with ok have "rb_end b < length (rb_buffer b)" by (simp add: read_buffer_ok_def)
    with stay False show ?thesis by (simp add: make_room_steps grow_def)
  qed
qed

section \<open>Each operation\<close>

lemma reserve_ok:
  assumes "read_buffer_ok b" and "reserve b n = (yes, b')"
  shows "read_buffer_ok b'" and "unread b' = unread b" and "rb_ceiling b' = rb_ceiling b"
    and "yes \<longleftrightarrow> n \<le> rb_ceiling b"
proof -
  have "read_buffer_ok (b\<lparr>rb_wanted := n\<rparr>)" if "n \<le> rb_ceiling b"
    using assms(1) that by (simp add: read_buffer_ok_def)
  moreover have "unread (b\<lparr>rb_wanted := n\<rparr>) = unread b" by (simp add: unread_def)
  ultimately show "read_buffer_ok b'" and "unread b' = unread b" and "rb_ceiling b' = rb_ceiling b"
    and "yes \<longleftrightarrow> n \<le> rb_ceiling b"
    using assms make_room_ok [of "b\<lparr>rb_wanted := n\<rparr>"] make_room_unread [of "b\<lparr>rb_wanted := n\<rparr>"]
    by (auto simp: reserve_def make_room_limits split: if_splits)
qed

lemma reserve_growth:
  assumes "read_buffer_ok b" and "reserve b n = (yes, b')"
  shows "length (rb_buffer b') \<le> max (length (rb_buffer b)) (2 * length (unread b))"
proof (cases "n > rb_ceiling b")
  case False
  with assms(1) have "read_buffer_ok (b\<lparr>rb_wanted := n\<rparr>)" by (simp add: read_buffer_ok_def)
  from make_room_growth [OF this] assms(2) False show ?thesis by (simp add: reserve_def unread_def)
qed (use assms(2) in \<open>simp add: reserve_def\<close>)

lemma consume_ok:
  assumes "read_buffer_ok b"
  shows "read_buffer_ok (consume b n)" and "unread (consume b n) = drop n (unread b)"
    and "rb_ceiling (consume b n) = rb_ceiling b"
  using assms by (auto simp: read_buffer_ok_def consume_def unread_def min_def drop_take add.commute)

lemma filled_unread:
  assumes ok: "read_buffer_ok b" and room: "rb_end b + length bs \<le> length (rb_buffer b)"
  shows "unread (filled (write_spare b bs) (length bs)) = unread b @ bs"
    and "read_buffer_ok (filled (write_spare b bs) (length bs))"
proof -
  from ok have le: "rb_start b \<le> rb_end b" "rb_end b \<le> length (rb_buffer b)"
    by (simp_all add: read_buffer_ok_def)
  let ?xs = "take (rb_end b) (rb_buffer b)"
  have "unread (filled (write_spare b bs) (length bs))
      = take (rb_end b + length bs - rb_start b) (drop (rb_start b) (?xs @ bs @ drop (rb_end b + length bs) (rb_buffer b)))"
    using room by (simp add: unread_def filled_def write_spare_def)
  also have "\<dots> = drop (rb_start b) ?xs @ bs"
    using le by simp
  also have "drop (rb_start b) ?xs = unread b"
    by (simp add: unread_def drop_take)
  finally show "unread (filled (write_spare b bs) (length bs)) = unread b @ bs" .
  show "read_buffer_ok (filled (write_spare b bs) (length bs))"
    using ok room by (auto simp: read_buffer_ok_def filled_def write_spare_def)
qed

text \<open>What \<open>Read::read\<close> promises: it writes no more than the room it was given.\<close>

definition reads_within :: "(nat \<Rightarrow> 'e + bytes) \<Rightarrow> bool" where
  "reads_within source \<longleftrightarrow> (\<forall>room bs. source room = Inr bs \<longrightarrow> length bs \<le> room)"

lemma fill_from_ok:
  assumes ok: "read_buffer_ok b" and src: "reads_within source" and f: "fill_from source b = (r, b')"
  shows "read_buffer_ok b' \<and> rb_ceiling b' = rb_ceiling b \<and>
    (case r of
       Inl None \<Rightarrow> unread b' = unread b \<and> length (unread b) = rb_ceiling b
     | Inl (Some e) \<Rightarrow> unread b' = unread b \<and> (\<exists>room > 0. source room = Inl e)
     | Inr n \<Rightarrow> \<exists>room bs. 0 < room \<and> source room = Inr bs \<and> n = length bs \<and> unread b' = unread b @ bs)"
proof -
  let ?m = "make_room b"
  let ?room = "length (rb_buffer ?m) - rb_end ?m"
  note M = make_room_ok [OF ok] make_room_unread [OF ok] make_room_limits [of b]
  show ?thesis
  proof (cases "?room = 0")
    case True
    with f have "r = Inl None" "b' = ?m" by (auto simp: fill_from_def spare_def Let_def)
    with M make_room_spare [OF ok] True show ?thesis by auto
  next
    case False
    show ?thesis
    proof (cases "source ?room")
      case (Inl e)
      with f False have "r = Inl (Some e)" "b' = ?m" by (auto simp: fill_from_def spare_def Let_def)
      moreover have "0 < ?room" using False by simp
      with Inl have "\<exists>room > 0. source room = Inl e" by blast
      ultimately show ?thesis using M by simp
    next
      case (Inr bs)
      with src have "length bs \<le> ?room" by (simp add: reads_within_def)
      with False have "rb_end ?m + length bs \<le> length (rb_buffer ?m)" by simp
      note F = filled_unread [OF M(1) this]
      have "r = Inr (length bs)" "b' = filled (write_spare ?m bs) (length bs)"
        using f False Inr by (auto simp: fill_from_def spare_def Let_def)
      moreover have "rb_ceiling (filled (write_spare ?m bs) (length bs)) = rb_ceiling ?m"
        by (simp add: filled_def write_spare_def)
      moreover have "\<exists>room > 0. source room = Inr bs" using Inr False by (intro exI [of _ ?room]) simp
      ultimately show ?thesis using F M by auto
    qed
  qed
qed

text \<open>The room that was offered is the length of \<open>spare\<close>.\<close>

lemma fill_from_reads:
  assumes ok: "read_buffer_ok b" and src: "reads_within source" and f: "fill_from source b = (Inr n, b')"
  shows "\<exists>bs. source (fst (spare b)) = Inr bs \<and> n = length bs \<and> unread b' = unread b @ bs"
proof -
  let ?m = "make_room b"
  have room: "fst (spare b) = length (rb_buffer ?m) - rb_end ?m" by (simp add: spare_def Let_def)
  from f obtain bs where bs: "source (fst (spare b)) = Inr bs" "n = length bs"
    "b' = filled (write_spare ?m bs) (length bs)" "fst (spare b) \<noteq> 0"
    by (auto simp: fill_from_def spare_def Let_def split: if_splits sum.splits)
  from bs(1) src have "length bs \<le> fst (spare b)" by (auto simp: reads_within_def)
  with bs(4) have "rb_end ?m + length bs \<le> length (rb_buffer ?m)" by (simp add: room)
  from filled_unread(1) [OF make_room_ok [OF ok] this] bs make_room_unread [OF ok] show ?thesis by simp
qed

section \<open>The interface of the readers\<close>

datatype 'e QueueOp = Fill "nat \<Rightarrow> 'e + bytes" | Ask nat | Drop nat

text \<open>A run of operations: the bytes that were dropped from the front, and the bytes that were read in,
  in order. A \<open>Drop\<close> of more than there is drops what there is.\<close>

fun queue_run ::
    "('q \<Rightarrow> bytes) \<Rightarrow> ((nat \<Rightarrow> 'e + bytes) \<Rightarrow> 'q \<Rightarrow> ('e option + nat) \<times> 'q) \<Rightarrow> ('q \<Rightarrow> nat \<Rightarrow> bool \<times> 'q) \<Rightarrow>
     ('q \<Rightarrow> nat \<Rightarrow> 'q) \<Rightarrow> 'e QueueOp list \<Rightarrow> 'q \<Rightarrow> bytes \<times> bytes \<times> 'q" where
  "queue_run cont fil ask drp [] q = ([], [], q)"
| "queue_run cont fil ask drp (Fill src # ops) q =
     (let (r, q') = fil src q; (out, inn, q'') = queue_run cont fil ask drp ops q'
      in (out, (case r of Inl _ \<Rightarrow> [] | Inr n \<Rightarrow> drop (length (cont q)) (cont q')) @ inn, q''))"
| "queue_run cont fil ask drp (Ask n # ops) q = queue_run cont fil ask drp ops (snd (ask q n))"
| "queue_run cont fil ask drp (Drop n # ops) q =
     (let (out, inn, q') = queue_run cont fil ask drp ops (drp q n)
      in (take n (cont q) @ out, inn, q'))"

fun op_within :: "'e QueueOp \<Rightarrow> bool" where
  "op_within (Fill src) = reads_within src"
| "op_within _ = True"

locale byte_queue =
  fixes ok :: "'q \<Rightarrow> bool" and cont :: "'q \<Rightarrow> bytes" and ceil :: "'q \<Rightarrow> nat"
    and fil :: "(nat \<Rightarrow> 'e + bytes) \<Rightarrow> 'q \<Rightarrow> ('e option + nat) \<times> 'q"
    and ask :: "'q \<Rightarrow> nat \<Rightarrow> bool \<times> 'q" and drp :: "'q \<Rightarrow> nat \<Rightarrow> 'q"
  assumes drp: "ok q \<Longrightarrow> ok (drp q n) \<and> cont (drp q n) = drop n (cont q) \<and> ceil (drp q n) = ceil q"
    and ask: "ok q \<Longrightarrow> ask q n = (yes, q') \<Longrightarrow>
      ok q' \<and> cont q' = cont q \<and> ceil q' = ceil q \<and> (yes \<longleftrightarrow> n \<le> ceil q)"
    and fil: "ok q \<Longrightarrow> reads_within src \<Longrightarrow> fil src q = (r, q') \<Longrightarrow> ok q' \<and> ceil q' = ceil q \<and>
      (case r of
         Inl None \<Rightarrow> cont q' = cont q \<and> length (cont q) = ceil q
       | Inl (Some e) \<Rightarrow> cont q' = cont q \<and> (\<exists>room > 0. src room = Inl e)
       | Inr n \<Rightarrow> \<exists>room bs. 0 < room \<and> src room = Inr bs \<and> n = length bs \<and> cont q' = cont q @ bs)"
begin

text \<open>What goes in comes out once and in order, and the ceiling does not move.\<close>

lemma run_fifo:
  "ok q \<Longrightarrow> list_all op_within ops \<Longrightarrow> queue_run cont fil ask drp ops q = (out, inn, q') \<Longrightarrow>
    out @ cont q' = cont q @ inn \<and> ok q' \<and> ceil q' = ceil q"
proof (induction ops arbitrary: q out inn)
  case Nil
  then show ?case by simp
next
  case (Cons oper ops)
  show ?case
  proof (cases oper)
    case (Fill src)
    obtain r q1 where f: "fil src q = (r, q1)" by (cases "fil src q")
    obtain out1 inn1 q2 where run: "queue_run cont fil ask drp ops q1 = (out1, inn1, q2)"
      by (cases "queue_run cont fil ask drp ops q1")
    from Cons.prems(2) Fill have "reads_within src" by simp
    note F = fil [OF Cons.prems(1) this f]
    from Cons.prems(3) Fill f run have out: "out = out1" "q' = q2"
      "inn = (case r of Inl _ \<Rightarrow> [] | Inr n \<Rightarrow> drop (length (cont q)) (cont q1)) @ inn1" by auto
    have "cont q1 = cont q @ (case r of Inl _ \<Rightarrow> [] | Inr n \<Rightarrow> drop (length (cont q)) (cont q1))"
      using F by (auto split: sum.splits option.splits)
    moreover have "out1 @ cont q2 = cont q1 @ inn1 \<and> ok q2 \<and> ceil q2 = ceil q1"
      using Cons.IH [of q1 out1 inn1] run F Cons.prems(2) out(2) by simp
    ultimately show ?thesis using out F by simp
  next
    case (Ask n)
    obtain yes q1 where a: "ask q n = (yes, q1)" by (cases "ask q n")
    from ask [OF Cons.prems(1) a] Cons.IH [of q1 out inn] Cons.prems a Ask show ?thesis by auto
  next
    case (Drop n)
    obtain out1 inn1 q2 where run: "queue_run cont fil ask drp ops (drp q n) = (out1, inn1, q2)"
      by (cases "queue_run cont fil ask drp ops (drp q n)")
    with Cons.prems Drop have out: "out = take n (cont q) @ out1" "inn = inn1" "q' = q2" by auto
    note D = drp [OF Cons.prems(1), of n]
    then have "out1 @ cont q2 = drop n (cont q) @ inn1 \<and> ok q2 \<and> ceil q2 = ceil q"
      using Cons.IH [of "drp q n" out1 inn1] run Cons.prems(2) out(3) by simp
    moreover have "cont q = take n (cont q) @ drop n (cont q)" by simp
    ultimately show ?thesis using out by (metis append_assoc)
  qed
qed

text \<open>Where the queue said yes to a length it does not hold yet, a read has room.\<close>

lemma asked_has_room:
  assumes "ok q" and "ask q n = (True, q')" and "length (cont q) < n" and "reads_within src"
  shows "fst (fil src q') \<noteq> Inl None"
proof
  assume none: "fst (fil src q') = Inl None"
  obtain q'' where f: "fil src q' = (Inl None, q'')" using none by (cases "fil src q'") simp
  from ask [OF assms(1,2)] have "ok q'" "cont q' = cont q" "ceil q' = ceil q" "n \<le> ceil q" by simp_all
  with fil [OF _ assms(4) f] assms(3) show False by simp
qed

end

interpretation rb: byte_queue read_buffer_ok unread rb_ceiling fill_from reserve consume
proof unfold_locales
  fix b and n :: nat assume "read_buffer_ok b"
  then show "read_buffer_ok (consume b n) \<and> unread (consume b n) = drop n (unread b) \<and>
      rb_ceiling (consume b n) = rb_ceiling b"
    by (simp add: consume_ok)
next
  fix b n yes b' assume "read_buffer_ok b" "reserve b n = (yes, b')"
  from reserve_ok [OF this] show "read_buffer_ok b' \<and> unread b' = unread b \<and> rb_ceiling b' = rb_ceiling b \<and>
      (yes \<longleftrightarrow> n \<le> rb_ceiling b)" by simp
qed (rule fill_from_ok)

end
