(* ===== verification/Tcpq.thy ===== *)
theory Tcpq
  imports Streams
begin

text \<open>
  \<open>wire::tcpq\<close>: the stream between a client and a relay. The greetings, the three requests of a
  client, and the two decoders: \<open>tcpq_decode\<close> for what a relay sends, \<open>decode_request\<close> for what a
  client sends. A \<open>usize\<close> has 64 bits, so the sums of two \<open>u32\<close> lengths and a constant do not wrap.
\<close>

definition MAGIC_SERVER :: u32 where "MAGIC_SERVER = 0x287617fa"
definition MAGIC_CLIENT :: u32 where "MAGIC_CLIENT = 0x287617fb"
definition PROTOCOL_VERSION :: u32 where "PROTOCOL_VERSION = 0x0100"
definition MESSAGE_TYPE_PUBLISH :: u32 where "MESSAGE_TYPE_PUBLISH = 1"
definition MESSAGE_TYPE_SUBSCRIBE :: u32 where "MESSAGE_TYPE_SUBSCRIBE = 2"
definition MESSAGE_TYPE_UNSUBSCRIBE :: u32 where "MESSAGE_TYPE_UNSUBSCRIBE = 3"

lemmas message_types = MESSAGE_TYPE_PUBLISH_def MESSAGE_TYPE_SUBSCRIBE_def MESSAGE_TYPE_UNSUBSCRIBE_def

section \<open>Greetings\<close>

definition handshake :: bytes where
  "handshake = writer_finish (writer_u32 (writer_u32 writer_new MAGIC_CLIENT) PROTOCOL_VERSION)"

definition server_handshake :: bytes where
  "server_handshake = writer_finish (writer_u32 (writer_u32 writer_new MAGIC_SERVER) PROTOCOL_VERSION)"

definition check_handshake :: "bytes \<Rightarrow> WireError + u32" where
  "check_handshake reply =
     and_then (reader_u32 (reader_new reply)) (\<lambda>(magic, r).
     and_then (reader_u32 r) (\<lambda>(version, r).
     if magic \<noteq> MAGIC_SERVER then Inl (BadMagic magic) else Inr version))"

definition check_client_handshake :: "bytes \<Rightarrow> WireError + u32" where
  "check_client_handshake greeting =
     and_then (reader_u32 (reader_new greeting)) (\<lambda>(magic, r).
     and_then (reader_u32 r) (\<lambda>(version, r).
     if magic \<noteq> MAGIC_CLIENT then Inl (BadMagic magic) else Inr version))"

section \<open>Requests\<close>

datatype Request = Publish FrameRef | Subscribe string | Unsubscribe string

definition request :: "u32 \<Rightarrow> string \<Rightarrow> bytes" where
  "request kind pattern =
     writer_finish (writer_length_prefixed (writer_u32 writer_new kind) (as_bytes pattern))"

definition subscribe :: "string \<Rightarrow> bytes" where
  "subscribe pattern = request MESSAGE_TYPE_SUBSCRIBE pattern"

definition unsubscribe :: "string \<Rightarrow> bytes" where
  "unsubscribe pattern = request MESSAGE_TYPE_UNSUBSCRIBE pattern"

definition publish :: "FrameRef \<Rightarrow> WireError + bytes" where
  "publish frame =
     and_then (check_channel (channel frame) MAX_CHANNEL_LEN) (\<lambda>_.
     if length (payload frame) > MAX_MESSAGE_LEN then Inl (MessageTooLarge (length (payload frame)))
     else Inr (writer_finish (writer_length_prefixed (writer_length_prefixed
            (writer_u32 writer_new MESSAGE_TYPE_PUBLISH) (as_bytes (channel frame))) (payload frame))))"

section \<open>Reading\<close>

definition CHANNEL_READ_MAX :: nat where "CHANNEL_READ_MAX = 1024"

text \<open>The constant \<open>HEAD\<close> of both decoders.\<close>

definition TCPQ_HEAD :: nat where "TCPQ_HEAD = 8"

text \<open>From the channel name of a publish frame on, which is the same code in the two decoders.\<close>

definition decode_publish :: "(FrameRef \<Rightarrow> 'a) \<Rightarrow> bytes \<Rightarrow> nat \<Rightarrow> Reader \<Rightarrow> WireError + 'a Decoded" where
  "decode_publish wrap d channel_len r =
     (let head = TCPQ_HEAD + channel_len + 4 in
      if length d < head then Inr (Need head)
      else
        and_then (reader_take r channel_len) (\<lambda>(ch, r).
        and_then (reader_u32 r) (\<lambda>(n, r).
        let payload_len = unat n in
        if payload_len > MAX_MESSAGE_LEN then Inl (MessageTooLarge payload_len)
        else
          let frame = head + payload_len in
          if length d < frame then Inr (Need frame)
          else case from_utf8 ch of
            None \<Rightarrow> Inr (Skip frame)
          | Some name \<Rightarrow>
              (case check_channel name MAX_CHANNEL_LEN of
                 Inl _ \<Rightarrow> Inr (Skip frame)
               | Inr _ \<Rightarrow>
                   and_then (reader_take r payload_len) (\<lambda>(pl, r).
                   Inr (Item (wrap \<lparr>channel = name, payload = pl\<rparr>) frame))))))"

definition tcpq_decode :: "bytes \<Rightarrow> WireError + FrameRef Decoded" where
  "tcpq_decode d =
     (if length d < TCPQ_HEAD then Inr (Need TCPQ_HEAD)
      else
        and_then (reader_u32 (reader_new d)) (\<lambda>(kind, r).
        if kind \<noteq> MESSAGE_TYPE_PUBLISH then Inl (UnknownFrameType kind)
        else
          and_then (reader_u32 r) (\<lambda>(n, r).
          let channel_len = unat n in
          if channel_len > CHANNEL_READ_MAX then Inl (ChannelTooLong channel_len)
          else decode_publish (\<lambda>f. f) d channel_len r)))"

definition decode_request :: "bytes \<Rightarrow> WireError + Request Decoded" where
  "decode_request d =
     (if length d < TCPQ_HEAD then Inr (Need TCPQ_HEAD)
      else
        and_then (reader_u32 (reader_new d)) (\<lambda>(kind, r).
        if \<not> (kind = MESSAGE_TYPE_PUBLISH \<or> kind = MESSAGE_TYPE_SUBSCRIBE \<or>
               kind = MESSAGE_TYPE_UNSUBSCRIBE) then Inl (UnknownFrameType kind)
        else
          and_then (reader_u32 r) (\<lambda>(n, r).
          let first_len = unat n in
          if first_len > CHANNEL_READ_MAX then Inl (ChannelTooLong first_len)
          else if kind \<noteq> MESSAGE_TYPE_PUBLISH then
            let frame = TCPQ_HEAD + first_len in
            if length d < frame then Inr (Need frame)
            else
              and_then (reader_take r first_len) (\<lambda>(bs, r).
              case from_utf8 bs of
                None \<Rightarrow> Inr (Skip frame)
              | Some pattern \<Rightarrow>
                  Inr (Item (if kind = MESSAGE_TYPE_SUBSCRIBE then Subscribe pattern
                             else Unsubscribe pattern) frame))
          else decode_publish Publish d first_len r)))"

section \<open>The decoders in closed form\<close>

text \<open>What a publish frame is from its lengths on.\<close>

definition publish_at :: "(FrameRef \<Rightarrow> 'a) \<Rightarrow> bytes \<Rightarrow> nat \<Rightarrow> nat \<Rightarrow> 'a Decoded" where
  "publish_at wrap d n m =
     (case from_utf8 (take n (drop 8 d)) of
        None \<Rightarrow> Skip (12 + n + m)
      | Some name \<Rightarrow>
          (case check_channel name MAX_CHANNEL_LEN of
             Inl _ \<Rightarrow> Skip (12 + n + m)
           | Inr _ \<Rightarrow> Item (wrap \<lparr>channel = name, payload = take m (drop (12 + n) d)\<rparr>) (12 + n + m)))"

definition publish_frame :: "(FrameRef \<Rightarrow> 'a) \<Rightarrow> bytes \<Rightarrow> nat \<Rightarrow> WireError + 'a Decoded" where
  "publish_frame wrap d n =
     (let m = unat (field32 d (8 + n)) in
      if length d < 12 + n then Inr (Need (12 + n))
      else if m > MAX_MESSAGE_LEN then Inl (MessageTooLarge m)
      else if length d < 12 + n + m then Inr (Need (12 + n + m))
      else Inr (publish_at wrap d n m))"

lemma decode_publish_eq:
  "decode_publish wrap d n \<lparr>data = d, pos = 8\<rparr> = publish_frame wrap d n"
proof (cases "length d < 12 + n")
  case True
  then show ?thesis by (simp add: decode_publish_def publish_frame_def TCPQ_HEAD_def Let_def add_ac)
next
  case False
  let ?m = "unat (field32 d (8 + n))"
  from False have n: "reader_take \<lparr>data = d, pos = 8\<rparr> n = Inr (take n (drop 8 d), \<lparr>data = d, pos = 8 + n\<rparr>)"
    and len: "reader_u32 \<lparr>data = d, pos = 8 + n\<rparr> = Inr (field32 d (8 + n), \<lparr>data = d, pos = 12 + n\<rparr>)"
    by (simp_all add: reader_take_eq read_field32)
  show ?thesis
  proof (cases "length d < 12 + n + ?m")
    case True
    with False n len show ?thesis
      by (simp add: decode_publish_def publish_frame_def TCPQ_HEAD_def Let_def add.commute [of n])
  next
    case enough: False
    then have "reader_take \<lparr>data = d, pos = 12 + n\<rparr> ?m
        = Inr (take ?m (drop (12 + n) d), \<lparr>data = d, pos = 12 + n + ?m\<rparr>)"
      by (simp add: reader_take_eq)
    with False enough n len show ?thesis
      by (simp add: decode_publish_def publish_frame_def publish_at_def TCPQ_HEAD_def Let_def
          add.commute [of n] split: option.splits sum.splits)
  qed
qed

lemma tcpq_decode_eq:
  "tcpq_decode d =
    (let n = unat (field32 d 4) in
     if length d < 8 then Inr (Need 8)
     else if field32 d 0 \<noteq> MESSAGE_TYPE_PUBLISH then Inl (UnknownFrameType (field32 d 0))
     else if n > CHANNEL_READ_MAX then Inl (ChannelTooLong n)
     else publish_frame (\<lambda>f. f) d n)"
  by (cases "length d < 8")
    (simp_all add: tcpq_decode_def TCPQ_HEAD_def reader_new_def read_field32 Let_def decode_publish_eq)

definition pattern_frame :: "bytes \<Rightarrow> nat \<Rightarrow> WireError + Request Decoded" where
  "pattern_frame d n =
     (if length d < 8 + n then Inr (Need (8 + n))
      else case from_utf8 (take n (drop 8 d)) of
        None \<Rightarrow> Inr (Skip (8 + n))
      | Some pattern \<Rightarrow>
          Inr (Item (if field32 d 0 = MESSAGE_TYPE_SUBSCRIBE then Subscribe pattern
                     else Unsubscribe pattern) (8 + n)))"

lemma decode_request_eq:
  "decode_request d =
    (let n = unat (field32 d 4) in
     if length d < 8 then Inr (Need 8)
     else if \<not> (field32 d 0 = MESSAGE_TYPE_PUBLISH \<or> field32 d 0 = MESSAGE_TYPE_SUBSCRIBE \<or>
                field32 d 0 = MESSAGE_TYPE_UNSUBSCRIBE) then Inl (UnknownFrameType (field32 d 0))
     else if n > CHANNEL_READ_MAX then Inl (ChannelTooLong n)
     else if field32 d 0 \<noteq> MESSAGE_TYPE_PUBLISH then pattern_frame d n
     else publish_frame Publish d n)"
proof (cases "length d < 8")
  case True
  then show ?thesis by (simp add: decode_request_def TCPQ_HEAD_def)
next
  case False
  let ?n = "unat (field32 d 4)"
  let ?r = "\<lparr>data = d, pos = 8\<rparr>"
  have "(let frame = TCPQ_HEAD + ?n in
      if length d < frame then Inr (Need frame)
      else and_then (reader_take ?r ?n) (\<lambda>(bs, r).
        case from_utf8 bs of
          None \<Rightarrow> Inr (Skip frame)
        | Some pattern \<Rightarrow> Inr (Item (if field32 d 0 = MESSAGE_TYPE_SUBSCRIBE then Subscribe pattern
            else Unsubscribe pattern) frame))) = pattern_frame d ?n"
    using False by (auto simp: pattern_frame_def TCPQ_HEAD_def reader_take_eq Let_def split: option.splits)
  with False show ?thesis
    by (simp add: decode_request_def TCPQ_HEAD_def reader_new_def read_field32 Let_def decode_publish_eq)
qed

section \<open>The promises of a stream decoder\<close>

lemma publish_frame_lengths:
  "publish_frame wrap d n = Inr (Need k) \<Longrightarrow> length d < k"
  "publish_frame wrap d n = Inr (Item x k) \<Longrightarrow> 0 < k \<and> k \<le> length d"
  "publish_frame wrap d n = Inr (Skip k) \<Longrightarrow> 0 < k \<and> k \<le> length d"
  by (auto simp: publish_frame_def publish_at_def Let_def split: if_splits option.splits sum.splits)

lemma publish_at_append:
  "12 + n + m \<le> length d \<Longrightarrow> publish_at wrap (d @ e) n m = publish_at wrap d n m"
  by (simp add: publish_at_def split: option.splits sum.splits)

lemma publish_frame_append:
  assumes "\<And>k. publish_frame wrap d n = Inr (Need k) \<Longrightarrow> length (d @ e) < k"
  shows "publish_frame wrap (d @ e) n = publish_frame wrap d n"
proof (cases "length d < 12 + n")
  case True
  with assms [of "12 + n"] show ?thesis by (simp add: publish_frame_def)
next
  case False
  then have same: "field32 (d @ e) (8 + n) = field32 d (8 + n)" by (intro field32_append) simp
  let ?m = "unat (field32 d (8 + n))"
  consider "?m > MAX_MESSAGE_LEN" | "?m \<le> MAX_MESSAGE_LEN" "length d < 12 + n + ?m"
    | "?m \<le> MAX_MESSAGE_LEN" "12 + n + ?m \<le> length d" by linarith
  then show ?thesis
  proof cases
    case 1
    with False same show ?thesis by (simp add: publish_frame_def)
  next
    case 2
    with False assms [of "12 + n + ?m"] same show ?thesis by (simp add: publish_frame_def)
  next
    case 3
    with False same show ?thesis by (simp add: publish_frame_def publish_at_append)
  qed
qed

lemma pattern_frame_lengths:
  "pattern_frame d n = Inr (Need k) \<Longrightarrow> length d < k"
  "pattern_frame d n = Inr (Item x k) \<Longrightarrow> 0 < k \<and> k \<le> length d"
  "pattern_frame d n = Inr (Skip k) \<Longrightarrow> 0 < k \<and> k \<le> length d"
  by (auto simp: pattern_frame_def split: if_splits option.splits)

lemma pattern_frame_append:
  assumes "8 \<le> length d" and "\<And>k. pattern_frame d n = Inr (Need k) \<Longrightarrow> length (d @ e) < k"
  shows "pattern_frame (d @ e) n = pattern_frame d n"
  using assms(2) [of "8 + n"] assms(1)
  by (cases "length d < 8 + n") (auto simp: pattern_frame_def field32_append cong: option.case_cong)

text \<open>An answer stays while the stream is shorter than the bytes it asks for.\<close>

lemma tcpq_decode_append:
  assumes "\<And>k. tcpq_decode d = Inr (Need k) \<Longrightarrow> length (d @ e) < k"
  shows "tcpq_decode (d @ e) = tcpq_decode d"
proof (cases "length d < 8")
  case True
  with assms [of 8] show ?thesis by (simp add: tcpq_decode_eq)
next
  case False
  then have "field32 (d @ e) 0 = field32 d 0" "field32 (d @ e) 4 = field32 d 4"
    by (intro field32_append; simp)+
  with False assms show ?thesis
    by (simp add: tcpq_decode_eq Let_def publish_frame_append)
qed

lemma decode_request_append:
  assumes "\<And>k. decode_request d = Inr (Need k) \<Longrightarrow> length (d @ e) < k"
  shows "decode_request (d @ e) = decode_request d"
proof (cases "length d < 8")
  case True
  with assms [of 8] show ?thesis by (simp add: decode_request_eq)
next
  case False
  then have f: "field32 (d @ e) 0 = field32 d 0" "field32 (d @ e) 4 = field32 d 4"
    by (intro field32_append; simp)+
  let ?n = "unat (field32 d 4)"
  have "publish_frame Publish (d @ e) ?n = publish_frame Publish d ?n"
    if "decode_request d = publish_frame Publish d ?n"
    using assms that by (intro publish_frame_append) simp
  moreover have "pattern_frame (d @ e) ?n = pattern_frame d ?n"
    if "decode_request d = pattern_frame d ?n"
    using assms that False by (intro pattern_frame_append) simp_all
  ultimately show ?thesis using False f by (simp add: decode_request_eq Let_def)
qed

interpretation tcpq: stream_decoder tcpq_decode
proof unfold_locales
  show "length d < n" if "tcpq_decode d = Inr (Need n)" for d n
    using that by (auto simp: tcpq_decode_eq Let_def publish_frame_lengths split: if_splits)
  show "0 < n \<and> n \<le> length d" if "tcpq_decode d = Inr (Item x n)" for d x n
    using that by (simp add: tcpq_decode_eq Let_def publish_frame_lengths split: if_splits)
  show "0 < n \<and> n \<le> length d" if "tcpq_decode d = Inr (Skip n)" for d n
    using that by (simp add: tcpq_decode_eq Let_def publish_frame_lengths split: if_splits)
  show "tcpq_decode (d @ e) = r" if "tcpq_decode d = r" "\<forall>n. r \<noteq> Inr (Need n)" for d e r
    using that by (subst tcpq_decode_append) auto
  show "tcpq_decode (d @ e) = Inr (Need n)" if "tcpq_decode d = Inr (Need n)" "length (d @ e) < n" for d e n
    using that by (subst tcpq_decode_append) auto
qed

interpretation requests: stream_decoder decode_request
proof unfold_locales
  show "length d < n" if "decode_request d = Inr (Need n)" for d n
    using that by (auto simp: decode_request_eq Let_def publish_frame_lengths pattern_frame_lengths
        split: if_splits)
  show "0 < n \<and> n \<le> length d" if "decode_request d = Inr (Item x n)" for d x n
    using that by (simp add: decode_request_eq Let_def publish_frame_lengths pattern_frame_lengths
        split: if_splits)
  show "0 < n \<and> n \<le> length d" if "decode_request d = Inr (Skip n)" for d n
    using that by (simp add: decode_request_eq Let_def publish_frame_lengths pattern_frame_lengths
        split: if_splits)
  show "decode_request (d @ e) = r" if "decode_request d = r" "\<forall>n. r \<noteq> Inr (Need n)" for d e r
    using that by (subst decode_request_append) auto
  show "decode_request (d @ e) = Inr (Need n)"
    if "decode_request d = Inr (Need n)" "length (d @ e) < n" for d e n
    using that by (subst decode_request_append) auto
qed

section \<open>Round trips\<close>

text \<open>The bytes of a publish frame, and of a request with a pattern.\<close>

definition publish_bytes :: "FrameRef \<Rightarrow> bytes" where
  "publish_bytes f =
     to_be_bytes MESSAGE_TYPE_PUBLISH @ to_be_bytes (of_nat (length (channel f)) :: u32) @
     as_bytes (channel f) @ to_be_bytes (of_nat (length (payload f)) :: u32) @ payload f"

lemma publish_Inr:
  "publish f = Inr bs \<longleftrightarrow> check_channel (channel f) MAX_CHANNEL_LEN = Inr () \<and>
    length (payload f) \<le> MAX_MESSAGE_LEN \<and> bs = publish_bytes f"
  by (auto simp: publish_def writer_defs publish_bytes_def and_then_eq_Inr)

lemma request_eq:
  "request kind p = to_be_bytes kind @ to_be_bytes (of_nat (length p) :: u32) @ as_bytes p"
  by (simp add: request_def writer_defs)

lemma unat_u32_small: "n < 2 ^ 32 \<Longrightarrow> unat (of_nat n :: u32) = n"
  by (simp add: unat_of_nat take_bit_nat_eq_self)

lemma length_publish_bytes:
  "length (publish_bytes f) = 12 + length (channel f) + length (payload f)"
  by (simp add: publish_bytes_def)

lemma length_request: "length (request kind p) = 8 + length p"
  by (simp add: request_eq)

lemma publish_fields:
  fixes e :: bytes
  assumes "length (channel f) \<le> MAX_CHANNEL_LEN" and "length (payload f) \<le> MAX_MESSAGE_LEN"
  defines "d \<equiv> publish_bytes f @ e"
  shows "field32 d 0 = MESSAGE_TYPE_PUBLISH" and "unat (field32 d 4) = length (channel f)"
    and "unat (field32 d (8 + length (channel f))) = length (payload f)"
    and "take (length (channel f)) (drop 8 d) = as_bytes (channel f)"
    and "take (length (payload f)) (drop (12 + length (channel f)) d) = payload f"
proof -
  let ?a = "to_be_bytes MESSAGE_TYPE_PUBLISH" and ?n = "of_nat (length (channel f)) :: u32"
    and ?m = "of_nat (length (payload f)) :: u32"
  show "field32 d 0 = MESSAGE_TYPE_PUBLISH"
    using field32_hit [of 0 "[]"] by (simp add: d_def publish_bytes_def)
  have "field32 d 4 = ?n"
    using field32_hit [of 4 ?a ?n] by (simp add: d_def publish_bytes_def)
  then show "unat (field32 d 4) = length (channel f)"
    using assms(1) by (simp add: unat_u32_small MAX_CHANNEL_LEN_def)
  have "field32 d (8 + length (channel f)) = ?m"
    using field32_hit [of "8 + length (channel f)" "?a @ to_be_bytes ?n @ as_bytes (channel f)" ?m]
    by (simp add: d_def publish_bytes_def)
  then show "unat (field32 d (8 + length (channel f))) = length (payload f)"
    using assms(2) by (simp add: unat_u32_small MAX_MESSAGE_LEN_def)
qed (simp_all add: d_def publish_bytes_def)

lemma publish_frame_bytes:
  assumes "is_str (channel f)" and "check_channel (channel f) MAX_CHANNEL_LEN = Inr ()"
    and "length (payload f) \<le> MAX_MESSAGE_LEN"
  shows "publish_frame wrap (publish_bytes f @ e) (length (channel f))
    = Inr (Item (wrap f) (length (publish_bytes f)))"
proof -
  from assms(2) have n: "length (channel f) \<le> MAX_CHANNEL_LEN" by (simp add: check_channel_Inr_iff)
  note F = publish_fields [OF n assms(3), of e]
  have "publish_at wrap (publish_bytes f @ e) (length (channel f)) (length (payload f))
      = Item (wrap f) (length (publish_bytes f))"
    unfolding publish_at_def F(4,5) by (simp add: from_utf8_as_bytes assms(1,2) length_publish_bytes)
  with F(3) assms(3) show ?thesis by (simp add: publish_frame_def length_publish_bytes)
qed

lemma check_channel_short: "check_channel ch MAX_CHANNEL_LEN = Inr () \<Longrightarrow> length ch \<le> CHANNEL_READ_MAX"
  by (simp add: check_channel_Inr_iff MAX_CHANNEL_LEN_def CHANNEL_READ_MAX_def)

lemma tcpq_decode_publish:
  assumes "publish f = Inr bs" and "is_str (channel f)"
  shows "tcpq_decode (bs @ e) = Inr (Item f (length bs))"
proof -
  from assms(1) have cc: "check_channel (channel f) MAX_CHANNEL_LEN = Inr ()"
    and m: "length (payload f) \<le> MAX_MESSAGE_LEN" and bs: "bs = publish_bytes f"
    by (simp_all add: publish_Inr)
  from cc have n: "length (channel f) \<le> MAX_CHANNEL_LEN" by (simp add: check_channel_Inr_iff)
  from publish_fields [OF n m, of e] publish_frame_bytes [OF assms(2) cc m, of "\<lambda>f. f" e]
    check_channel_short [OF cc]
  show ?thesis by (simp add: bs tcpq_decode_eq length_publish_bytes)
qed

lemma decode_request_publish:
  assumes "publish f = Inr bs" and "is_str (channel f)"
  shows "decode_request (bs @ e) = Inr (Item (Publish f) (length bs))"
proof -
  from assms(1) have cc: "check_channel (channel f) MAX_CHANNEL_LEN = Inr ()"
    and m: "length (payload f) \<le> MAX_MESSAGE_LEN" and bs: "bs = publish_bytes f"
    by (simp_all add: publish_Inr)
  from cc have n: "length (channel f) \<le> MAX_CHANNEL_LEN" by (simp add: check_channel_Inr_iff)
  from publish_fields [OF n m, of e] publish_frame_bytes [OF assms(2) cc m, of Publish e]
    check_channel_short [OF cc]
  show ?thesis by (simp add: bs decode_request_eq length_publish_bytes)
qed

text \<open>A pattern goes through the relay up to \<open>CHANNEL_READ_MAX\<close> bytes; the encoder has no limit, and a
  longer one ends the stream.\<close>

lemma request_fields:
  fixes e :: bytes and kind :: u32
  assumes "length p < 2 ^ 32"
  defines "d \<equiv> request kind p @ e"
  shows "field32 d 0 = kind" and "unat (field32 d 4) = length p"
    and "take (length p) (drop 8 d) = as_bytes p"
proof -
  show "field32 d 0 = kind"
    using field32_hit [of 0 "[]" kind] by (simp add: d_def request_eq)
  have "field32 d 4 = of_nat (length p)"
    using field32_hit [of 4 "to_be_bytes kind" "of_nat (length p)"] by (simp add: d_def request_eq)
  then show "unat (field32 d 4) = length p" using assms(1) by (simp add: unat_u32_small)
qed (simp_all add: d_def request_eq)

lemma decode_request_pattern:
  assumes kind: "kind = MESSAGE_TYPE_SUBSCRIBE \<or> kind = MESSAGE_TYPE_UNSUBSCRIBE"
    and "is_str p" and len: "length p \<le> CHANNEL_READ_MAX"
  shows "decode_request (request kind p @ e) =
    Inr (Item (if kind = MESSAGE_TYPE_SUBSCRIBE then Subscribe p else Unsubscribe p)
      (length (request kind p)))"
proof -
  have "length p < 2 ^ 32" using len by (simp add: CHANNEL_READ_MAX_def)
  note F = request_fields [OF this, of kind e]
  have "kind \<noteq> MESSAGE_TYPE_PUBLISH" using kind by (auto simp: message_types)
  with F kind len show ?thesis
    by (auto simp: decode_request_eq pattern_frame_def from_utf8_as_bytes assms(2) length_request)
qed

lemma decode_request_too_long:
  assumes kind: "kind = MESSAGE_TYPE_SUBSCRIBE \<or> kind = MESSAGE_TYPE_UNSUBSCRIBE"
    and "CHANNEL_READ_MAX < length p" and "length p < 2 ^ 32"
  shows "decode_request (request kind p @ e) = Inl (ChannelTooLong (length p))"
  using request_fields [OF assms(3), of kind e] kind assms(2)
  by (auto simp: decode_request_eq length_request)

text \<open>What a decoder gives back is what the encoder writes: the bytes it used are the encoding of the
  item, so no two byte strings decode to one item.\<close>

lemma publish_frame_sound:
  assumes it: "publish_frame wrap d n = Inr (Item x k)" and n: "n = unat (field32 d 4)"
    and kind: "field32 d 0 = MESSAGE_TYPE_PUBLISH"
  shows "\<exists>f. x = wrap f \<and> is_str (channel f) \<and> publish f = Inr (take k d) \<and> k \<le> length d"
proof -
  let ?m = "unat (field32 d (8 + n))"
  from it have len: "12 + n + ?m \<le> length d" and m: "?m \<le> MAX_MESSAGE_LEN"
    and p: "publish_at wrap d n ?m = Item x k"
    by (auto simp: publish_frame_def Let_def split: if_splits)
  from p obtain name where u: "from_utf8 (take n (drop 8 d)) = Some name"
    and cc: "check_channel name MAX_CHANNEL_LEN = Inr ()"
    and x: "x = wrap \<lparr>channel = name, payload = take ?m (drop (12 + n) d)\<rparr>" and k: "k = 12 + n + ?m"
    by (auto simp: publish_at_def split: option.splits sum.splits)
  let ?f = "\<lparr>channel = name, payload = take ?m (drop (12 + n) d)\<rparr>"
  from u have name: "as_bytes name = take n (drop 8 d)" by (simp add: from_utf8_Some_iff)
  with len have nlen: "length name = n" using length_as_bytes [of name] by simp
  have "take k d = take (4 + (4 + (n + (4 + ?m)))) d" by (simp add: k add_ac)
  also have "\<dots> = take 4 d @ take 4 (drop 4 d) @ take n (drop 8 d) @ take 4 (drop (8 + n) d)
      @ take ?m (drop (12 + n) d)"
    by (simp only: take_add drop_drop) (simp add: add.commute)
  also have "\<dots> = publish_bytes ?f"
    using len field32_bytes [of 0 d] field32_bytes [of 4 d] field32_bytes [of "8 + n" d] kind name nlen n
    by (simp add: publish_bytes_def)
  finally have "publish ?f = Inr (take k d)"
    using cc m by (simp add: publish_Inr)
  with x u len k show ?thesis using from_utf8_is_str by (intro exI [of _ ?f]) simp
qed

lemma tcpq_decode_sound:
  assumes "tcpq_decode d = Inr (Item f k)"
  shows "is_str (channel f)" and "publish f = Inr (take k d)" and "k \<le> length d"
proof -
  from assms have "field32 d 0 = MESSAGE_TYPE_PUBLISH"
    and "publish_frame (\<lambda>f. f) d (unat (field32 d 4)) = Inr (Item f k)"
    by (simp_all add: tcpq_decode_eq Let_def split: if_splits)
  from publish_frame_sound [OF this(2) refl this(1)]
  show "is_str (channel f)" and "publish f = Inr (take k d)" and "k \<le> length d" by auto
qed

text \<open>The bytes of a request, as its client writes them.\<close>

fun request_bytes :: "Request \<Rightarrow> WireError + bytes" where
  "request_bytes (Publish f) = publish f"
| "request_bytes (Subscribe p) = Inr (subscribe p)"
| "request_bytes (Unsubscribe p) = Inr (unsubscribe p)"

fun request_text :: "Request \<Rightarrow> string" where
  "request_text (Publish f) = channel f"
| "request_text (Subscribe p) = p"
| "request_text (Unsubscribe p) = p"

lemma pattern_frame_sound:
  assumes it: "pattern_frame d n = Inr (Item q k)" and n: "n = unat (field32 d 4)"
    and kind: "field32 d 0 = MESSAGE_TYPE_SUBSCRIBE \<or> field32 d 0 = MESSAGE_TYPE_UNSUBSCRIBE"
  shows "is_str (request_text q)" and "request_bytes q = Inr (take k d)" and "k \<le> length d"
proof -
  from it obtain p where len: "8 + n \<le> length d" and u: "from_utf8 (take n (drop 8 d)) = Some p"
    and q: "q = (if field32 d 0 = MESSAGE_TYPE_SUBSCRIBE then Subscribe p else Unsubscribe p)"
    and k: "k = 8 + n"
    by (auto simp: pattern_frame_def split: if_splits option.splits)
  from u have name: "as_bytes p = take n (drop 8 d)" by (simp add: from_utf8_Some_iff)
  with len have nlen: "length p = n" using length_as_bytes [of p] by simp
  have "take k d = take (4 + (4 + n)) d" by (simp add: k)
  also have "\<dots> = take 4 d @ take 4 (drop 4 d) @ take n (drop 8 d)"
    by (simp only: take_add drop_drop) (simp add: add.commute)
  also have "\<dots> = request (field32 d 0) p"
    using len field32_bytes [of 0 d] field32_bytes [of 4 d] name nlen n by (simp add: request_eq)
  finally show "request_bytes q = Inr (take k d)"
    using kind q by (auto simp: subscribe_def unsubscribe_def)
  show "k \<le> length d" using k len by simp
  show "is_str (request_text q)" using from_utf8_is_str [OF u] by (simp add: q)
qed

lemma decode_request_sound:
  assumes "decode_request d = Inr (Item q k)"
  shows "is_str (request_text q)" and "request_bytes q = Inr (take k d)" and "k \<le> length d"
proof -
  have "is_str (request_text q) \<and> request_bytes q = Inr (take k d) \<and> k \<le> length d"
  proof (cases "field32 d 0 = MESSAGE_TYPE_PUBLISH")
    case True
    with assms have "publish_frame Publish d (unat (field32 d 4)) = Inr (Item q k)"
      by (simp add: decode_request_eq Let_def split: if_splits)
    from publish_frame_sound [OF this refl True] show ?thesis by auto
  next
    case False
    with assms have "pattern_frame d (unat (field32 d 4)) = Inr (Item q k)"
      and "field32 d 0 = MESSAGE_TYPE_SUBSCRIBE \<or> field32 d 0 = MESSAGE_TYPE_UNSUBSCRIBE"
      by (auto simp: decode_request_eq Let_def split: if_splits)
    from pattern_frame_sound [OF this(1) refl this(2)] show ?thesis by blast
  qed
  then show "is_str (request_text q)" and "request_bytes q = Inr (take k d)" and "k \<le> length d"
    by blast+
qed

section \<open>Greetings\<close>

lemma check_handshake_eq:
  "check_handshake d =
    (if length d < 4 then Inl (Truncated 4 (length d))
     else if length d < 8 then Inl (Truncated 4 (length d - 4))
     else if field32 d 0 \<noteq> MAGIC_SERVER then Inl (BadMagic (field32 d 0)) else Inr (field32 d 4))"
  by (auto simp: check_handshake_def reader_new_def reader_u32_eq field32_def)

lemma check_client_handshake_eq:
  "check_client_handshake d =
    (if length d < 4 then Inl (Truncated 4 (length d))
     else if length d < 8 then Inl (Truncated 4 (length d - 4))
     else if field32 d 0 \<noteq> MAGIC_CLIENT then Inl (BadMagic (field32 d 0)) else Inr (field32 d 4))"
  by (auto simp: check_client_handshake_def reader_new_def reader_u32_eq field32_def)

lemma handshake_fields:
  "field32 handshake 0 = MAGIC_CLIENT" "field32 handshake 4 = PROTOCOL_VERSION" "length handshake = 8"
  "field32 server_handshake 0 = MAGIC_SERVER" "field32 server_handshake 4 = PROTOCOL_VERSION"
  "length server_handshake = 8"
  by (simp_all add: handshake_def server_handshake_def writer_defs field32_def)

lemma drain_published:
  assumes "list_all2 (\<lambda>f bs. publish f = Inr bs \<and> is_str (channel f)) fs bss"
  shows "drain tcpq_decode (concat bss) = Some (map Some fs, [], None)"
proof -
  have "list_all2 tcpq.writes fs bss"
    by (rule list_all2_mono [OF assms]) (simp add: tcpq.writes_def tcpq_decode_publish)
  moreover have "tcpq_decode [] = Inr (Need 8)" by (simp add: tcpq_decode_eq)
  ultimately show ?thesis by (rule tcpq.drain_items)
qed

definition request_frame :: "Request \<Rightarrow> bytes \<Rightarrow> bool" where
  "request_frame q bs \<longleftrightarrow> request_bytes q = Inr bs \<and> is_str (request_text q) \<and>
     length (request_text q) \<le> CHANNEL_READ_MAX"

lemma drain_requests:
  assumes "list_all2 request_frame qs bss"
  shows "drain decode_request (concat bss) = Some (map Some qs, [], None)"
proof -
  have "requests.writes q bs" if "request_frame q bs" for q bs
    using that decode_request_pattern [of _ "request_text q"] unfolding requests.writes_def request_frame_def
    by (cases q) (auto simp: decode_request_publish subscribe_def unsubscribe_def message_types)
  then have "list_all2 requests.writes qs bss" by (intro list_all2_mono [OF assms]) blast
  moreover have "decode_request [] = Inr (Need 8)" by (simp add: decode_request_eq)
  ultimately show ?thesis by (rule requests.drain_items)
qed

end
