(* ===== verification/Readers.thy ===== *)
theory Readers
  imports ReadBuf Tcpq
begin

text \<open>
  The loop that \<open>tcpq_reader\<close> (of a client) and \<open>peer_reader\<close> (of a relay) share: fill the buffer,
  decode what is there, hand each item on, and fill again where the decoder wants more.

  A socket is a script of what its reads will find: bytes, or an error; at the end of the script the
  stream is closed. A read takes no more of the bytes than there is room for. The flag \<open>running\<close> is a
  number: it is read as set that many times, and then as clear. Whatever moment \<open>close\<close> comes at, it is
  one of these numbers, and both loops of the code read the flag before each turn, so the number bounds
  the recursion. The clock is a function of it as well.
\<close>

section \<open>Sockets and stops\<close>

text \<open>The kinds of \<open>io::Error\<close> the crate tells apart.\<close>

datatype IoError =
  WouldBlock | TimedOut | Interrupted | ConnectionRefused | ConnectionReset | HostUnreachable
| NetworkUnreachable | OutOfMemory | WriteZero | UnexpectedEof | InvalidData | NotFound | AddrNotAvailable | OtherIo nat

definition is_timeout :: "IoError \<Rightarrow> bool" where
  "is_timeout e \<longleftrightarrow> e = WouldBlock \<or> e = TimedOut \<or> e = Interrupted"

definition is_transient :: "IoError \<Rightarrow> bool" where
  "is_transient e \<longleftrightarrow> e = ConnectionRefused \<or> e = ConnectionReset \<or> e = HostUnreachable \<or> e = NetworkUnreachable"

datatype Stop = EndOfLog | TornLog | Panicked | Closed | StopIo IoError | StopWire WireError

datatype SocketEvent = SBytes bytes | SError IoError

type_synonym script = "SocketEvent list"

text \<open>One read into room for so many bytes. \<open>Inr []\<close> is the end of the stream.\<close>

fun read_once :: "nat \<Rightarrow> script \<Rightarrow> (IoError + bytes) \<times> script" where
  "read_once room [] = (Inr [], [])"
| "read_once room (SError e # rst) = (Inl e, rst)"
| "read_once room (SBytes bs # rst) =
     (Inr (take room bs), if length bs \<le> room then rst else SBytes (drop room bs) # rst)"

text \<open>\<open>fill_from\<close> on a socket. The error of a full buffer is of the kind \<open>OutOfMemory\<close>.\<close>

definition fill_socket :: "ReadBuffer \<Rightarrow> script \<Rightarrow> (IoError + nat) \<times> ReadBuffer \<times> script" where
  "fill_socket b script =
     (let (r, b') = fill_from (\<lambda>room. fst (read_once room script)) b in
      case r of
        Inl None \<Rightarrow> (Inl OutOfMemory, b', script)
      | Inl (Some e) \<Rightarrow> (Inl e, b', snd (read_once (fst (spare b)) script))
      | Inr n \<Rightarrow> (Inr n, b', snd (read_once (fst (spare b)) script)))"

section \<open>The loop\<close>

text \<open>\<open>torn\<close> is what the writer left, if it left anything, when the stream ends.\<close>

fun fill_loop and decode_loop where
  "fill_loop dec torn item skip 0 script b st = (None, st)"
| "fill_loop dec torn item skip (Suc n) script b st =
     (case fill_socket b script of
        (Inr 0, _, _) \<Rightarrow> (Some (case torn of Some e \<Rightarrow> StopIo e | None \<Rightarrow> Closed), st)
      | (Inr (Suc _), b', script') \<Rightarrow> decode_loop dec torn item skip n script' b' st
      | (Inl e, b', script') \<Rightarrow>
          if is_timeout e then fill_loop dec torn item skip n script' b' st else (Some (StopIo e), st))"
| "decode_loop dec torn item skip 0 script b st = (None, st)"
| "decode_loop (dec :: bytes \<Rightarrow> WireError + 'a Decoded) (torn :: IoError option)
      (item :: nat \<Rightarrow> 'a \<Rightarrow> 'st \<Rightarrow> 'st) (skip :: 'st \<Rightarrow> 'st) (Suc n) (script :: script) (b :: ReadBuffer) st =
     (case dec (unread b) of
        Inl e \<Rightarrow> (Some (StopWire e), st)
      | Inr (Need k) \<Rightarrow>
          (case reserve b k of
             (False, _) \<Rightarrow> (Some (StopWire (MessageTooLarge k)), st)
           | (True, b') \<Rightarrow> fill_loop dec torn item skip n script b' st)
      | Inr (Skip k) \<Rightarrow> decode_loop dec torn item skip n script (consume b k) (skip st)
      | Inr (Item x k) \<Rightarrow> decode_loop dec torn item skip n script (consume b k) (item n x st))"

section \<open>What a read does to the stream\<close>

fun script_bytes :: "script \<Rightarrow> bytes" where
  "script_bytes [] = []"
| "script_bytes (SError e # rst) = script_bytes rst"
| "script_bytes (SBytes bs # rst) = bs @ script_bytes rst"

text \<open>A read of bytes that came is not empty: an empty one is how a socket says it is closed.\<close>

definition script_ok :: "script \<Rightarrow> bool" where
  "script_ok script \<longleftrightarrow> SBytes [] \<notin> set script"

fun script_size :: "script \<Rightarrow> nat" where
  "script_size [] = 0"
| "script_size (SError e # rst) = Suc (script_size rst)"
| "script_size (SBytes bs # rst) = Suc (length bs) + script_size rst"

lemma script_ok_simps [simp]:
  "script_ok []" "script_ok (SError e # rst) = script_ok rst"
  "script_ok (SBytes bs # rst) \<longleftrightarrow> bs \<noteq> [] \<and> script_ok rst"
  by (auto simp: script_ok_def)

lemma read_once_within: "reads_within (\<lambda>room. fst (read_once room script))"
  by (cases script rule: script_bytes.cases) (auto simp: reads_within_def)

lemma read_once_bytes:
  assumes "script_ok script" and "0 < room"
  shows "(case read_once room script of
      (Inl e, script') \<Rightarrow> script_ok script' \<and> script_bytes script' = script_bytes script \<and>
        script_size script' < script_size script \<and> SError e \<in> set script
    | (Inr bs, script') \<Rightarrow> script_ok script' \<and> bs @ script_bytes script' = script_bytes script \<and>
        (if bs = [] then script = [] else script_size script' + length bs \<le> script_size script))"
  using assms by (cases script rule: script_bytes.cases) auto

lemma fill_socket_cases [consumes 3, case_names full error closed bytes]:
  assumes ok: "read_buffer_ok b" and script: "script_ok script"
    and f: "fill_socket b script = (r, b', script')"
  obtains (full) "r = Inl OutOfMemory" and "length (unread b) = rb_ceiling b"
  | (error) e where "r = Inl e" and "unread b' = unread b" and "script_bytes script' = script_bytes script"
      and "script_size script' < script_size script"
      and "read_buffer_ok b'" and "rb_ceiling b' = rb_ceiling b" and "script_ok script'"
      and "SError e \<in> set script"
  | (closed) "r = Inr 0" and "script = []"
  | (bytes) bs where "r = Inr (length bs)" and "bs \<noteq> []" and "unread b' = unread b @ bs"
      and "bs @ script_bytes script' = script_bytes script"
      and "script_size script' + length bs \<le> script_size script"
      and "read_buffer_ok b'" and "rb_ceiling b' = rb_ceiling b" and "script_ok script'"
proof -
  let ?src = "\<lambda>room. fst (read_once room script)" and ?room = "fst (spare b)"
  obtain r0 b0 where f0: "fill_from ?src b = (r0, b0)" by (cases "fill_from ?src b")
  note F = fill_from_ok [OF ok read_once_within f0]
  show ?thesis
  proof (cases "?room = 0")
    case True
    then have "r0 = Inl None" using f0 by (auto simp: fill_from_def spare_def Let_def)
    with F f f0 full show ?thesis by (auto simp: fill_socket_def)
  next
    case False
    then have pos: "0 < ?room" by simp
    note R = read_once_bytes [OF script pos]
    show ?thesis
    proof (cases "?src ?room")
      case (Inl e)
      with f0 False have "r0 = Inl (Some e)" by (auto simp: fill_from_def spare_def Let_def)
      with F f f0 R Inl error show ?thesis
        by (cases "read_once ?room script") (auto simp: fill_socket_def)
    next
      case (Inr bs)
      with f0 False have r0: "r0 = Inr (length bs)" by (auto simp: fill_from_def spare_def Let_def)
      from fill_from_reads [OF ok read_once_within f0 [unfolded r0]] Inr
      have b0: "unread b0 = unread b @ bs" by auto
      from F f f0 r0 have b': "b' = b0" "r = Inr (length bs)" "script' = snd (read_once ?room script)"
        "read_buffer_ok b'" "rb_ceiling b' = rb_ceiling b"
        by (auto simp: fill_socket_def)
      show ?thesis
      proof (cases "bs = []")
        case True
        with R Inr b'(2) closed show ?thesis by (cases "read_once ?room script") auto
      next
        case False
        with R Inr b' b0 show ?thesis
          by (intro bytes [of bs]) (cases "read_once ?room script"; auto)+
      qed
    qed
  qed
qed

lemma read_once_errors: "set (snd (read_once room script)) \<inter> range SError \<subseteq> set script"
  by (cases script rule: script_bytes.cases) auto

lemma fill_error_script:
  "fill_socket b script = (r, b', script') \<Longrightarrow> SError e \<in> set script' \<Longrightarrow> SError e \<in> set script"
  using read_once_errors [of "fst (spare b)" script]
  by (auto simp: fill_socket_def split: prod.splits sum.splits option.splits)

section \<open>What the loop does\<close>

text \<open>The handlers, over what the decoder took, each at the count it was taken at.\<close>

definition handle_all ::
    "(nat \<Rightarrow> 'a \<Rightarrow> 'st \<Rightarrow> 'st) \<Rightarrow> ('st \<Rightarrow> 'st) \<Rightarrow> nat list \<Rightarrow> 'a option list \<Rightarrow> 'st \<Rightarrow> 'st" where
  "handle_all item skip ns evs st =
     foldl (\<lambda>st (n, ev). case ev of Some x \<Rightarrow> item n x st | None \<Rightarrow> skip st) st (zip ns evs)"

lemma handle_all_Nil [simp]: "handle_all item skip [] evs st = st"
  by (simp add: handle_all_def)

lemma handle_all_Cons [simp]:
  "handle_all item skip (n # ns) (Some x # evs) st = handle_all item skip ns evs (item n x st)"
  "handle_all item skip (n # ns) (None # evs) st = handle_all item skip ns evs (skip st)"
  by (simp_all add: handle_all_def)

text \<open>
  \<open>whole\<close> is the stream from here on. What was handled is a beginning of what the decoder makes of it;
  where the loop stops for the end of the stream or for bytes that no frame can follow it is all of it.
\<close>

definition stop_ok :: "IoError option \<Rightarrow> script \<Rightarrow> bool \<Rightarrow> WireError option \<Rightarrow> Stop option \<Rightarrow> bool" where
  "stop_ok torn script all_done err r \<longleftrightarrow>
     (case r of
        None \<Rightarrow> True
      | Some (StopIo e) \<Rightarrow> torn = Some e \<and> all_done \<and> err = None \<or> SError e \<in> set script \<and> \<not> is_timeout e
      | Some Closed \<Rightarrow> torn = None \<and> all_done \<and> err = None
      | Some (StopWire e) \<Rightarrow> all_done \<and> err = Some e
      | Some _ \<Rightarrow> False)"

definition loop_outcome ::
    "(bytes \<Rightarrow> WireError + 'a Decoded) \<Rightarrow> IoError option \<Rightarrow> (nat \<Rightarrow> 'a \<Rightarrow> 'st \<Rightarrow> 'st) \<Rightarrow> ('st \<Rightarrow> 'st) \<Rightarrow>
     script \<Rightarrow> bytes \<Rightarrow> 'st \<Rightarrow> Stop option \<times> 'st \<Rightarrow> bool" where
  "loop_outcome dec torn item skip script whole st out \<longleftrightarrow>
     (\<exists>ns xs left err. drain dec whole = Some (xs, left, err) \<and> length ns \<le> length xs \<and>
        snd out = handle_all item skip ns xs st \<and>
        stop_ok torn script (length ns = length xs) err (fst out))"

lemma loop_outcomeI:
  assumes "drain dec whole = Some (xs, left, err)" and "length ns \<le> length xs"
    and "snd out = handle_all item skip ns xs st"
    and "stop_ok torn script (length ns = length xs) err (fst out)"
  shows "loop_outcome dec torn item skip script whole st out"
  unfolding loop_outcome_def using assms by (intro exI conjI)

lemma stop_ok_script:
  "stop_ok torn script' d err r \<Longrightarrow> (\<And>e. SError e \<in> set script' \<Longrightarrow> SError e \<in> set script) \<Longrightarrow>
    stop_ok torn script d err r"
  by (auto simp: stop_ok_def split: option.splits Stop.splits)

lemma outcome_script:
  assumes "loop_outcome dec torn item skip script' whole st out"
    and "\<And>e. SError e \<in> set script' \<Longrightarrow> SError e \<in> set script"
  shows "loop_outcome dec torn item skip script whole st out"
proof -
  from assms(1) obtain ns xs left err where o: "drain dec whole = Some (xs, left, err)"
    "length ns \<le> length xs" "snd out = handle_all item skip ns xs st"
    and stop: "stop_ok torn script' (length ns = length xs) err (fst out)"
    unfolding loop_outcome_def by blast
  from stop_ok_script [OF stop assms(2)] show ?thesis by (rule loop_outcomeI [OF o])
qed

text \<open>One thing more that was taken off the front.\<close>

lemma outcome_step:
  assumes "loop_outcome dec torn item skip script (drop k whole)
      (case ev of Some x \<Rightarrow> item n x st | None \<Rightarrow> skip st) out"
    and "\<And>xs left err. drain dec (drop k whole) = Some (xs, left, err) \<Longrightarrow>
      drain dec whole = Some (ev # xs, left, err)"
  shows "loop_outcome dec torn item skip script whole st out"
proof -
  from assms(1) obtain ns xs left err where d: "drain dec (drop k whole) = Some (xs, left, err)"
    and len: "length ns \<le> length xs"
    and st: "snd out = handle_all item skip ns xs (case ev of Some x \<Rightarrow> item n x st | None \<Rightarrow> skip st)"
    and stop: "stop_ok torn script (length ns = length xs) err (fst out)"
    unfolding loop_outcome_def by blast
  show ?thesis
  proof (rule loop_outcomeI [OF assms(2) [OF d]])
    show "snd out = handle_all item skip (n # ns) (ev # xs) st" using st by (cases ev) simp_all
    show "length (n # ns) \<le> length (ev # xs)" using len by simp
    show "stop_ok torn script (length (n # ns) = length (ev # xs)) err (fst out)" using stop by simp
  qed
qed

text \<open>Nothing more is taken.\<close>

lemma outcome_now:
  assumes "drain dec whole = Some (xs, left, err)" and "stop_ok torn script (xs = []) err r"
  shows "loop_outcome dec torn item skip script whole st (r, st)"
proof (rule loop_outcomeI [OF assms(1), of "[]"])
  have "(length ([] :: nat list) = length xs) = (xs = [])" by (cases xs) simp_all
  with assms(2) show "stop_ok torn script (length ([] :: nat list) = length xs) err (fst (r, st))" by simp
qed simp_all

locale bounded_stream = stream_decoder dec for dec :: "bytes \<Rightarrow> WireError + 'a Decoded" +
  fixes bound :: nat
  assumes need_le: "dec d = Inr (Need k) \<Longrightarrow> k \<le> bound"
begin

lemma outcome_any:
  assumes "stop_ok torn script False None r"
  shows "loop_outcome dec torn item skip script whole st (r, st)"
proof -
  obtain xs rst err where d: "drain dec whole = Some (xs, rst, err)" using drain_ends by blast
  have "stop_ok torn script (xs = []) err r"
    using assms by (auto simp: stop_ok_def split: option.splits Stop.splits)
  with d show ?thesis by (rule outcome_now)
qed

lemma loops_outcome:
  assumes "read_buffer_ok b" and "rb_ceiling b = bound" and "script_ok script"
  shows "(\<exists>k. dec (unread b) = Inr (Need k)) \<Longrightarrow>
      loop_outcome dec torn item skip script (unread b @ script_bytes script) st
        (fill_loop dec torn item skip n script b st)"
    and "loop_outcome dec torn item skip script (unread b @ script_bytes script) st
        (decode_loop dec torn item skip n script b st)"
  using assms
proof (induction n arbitrary: script b st)
  case 0
  { case 1 show ?case by (simp add: outcome_any stop_ok_def) }
  { case 2 show ?case by (simp add: outcome_any stop_ok_def) }
next
  case (Suc n)
  { case 1
    then obtain k where need: "dec (unread b) = Inr (Need k)" by blast
    obtain r b' script' where f: "fill_socket b script = (r, b', script')"
      by (cases "fill_socket b script") auto
    from 1(2,4) f show ?case
    proof (cases rule: fill_socket_cases)
      case full
      with need_more [OF need] need_le [OF need] 1(3) show ?thesis by simp
    next
      case (error e)
      show ?thesis
      proof (cases "is_timeout e")
        case True
        have "dec (unread b') = Inr (Need k)" using need error(2) by simp
        then have "loop_outcome dec torn item skip script' (unread b' @ script_bytes script') st
            (fill_loop dec torn item skip n script' b' st)"
          using Suc.IH(1) [of b' script' st] error(5-7) 1(3) by simp
        from outcome_script [OF this fill_error_script [OF f]] error(1,2,3) True f
        show ?thesis by simp
      next
        case False
        with error(1,8) f show ?thesis by (simp add: outcome_any stop_ok_def)
      qed
    next
      case closed
      have "drain dec (unread b @ script_bytes script) = Some ([], unread b, None)"
        using need closed(2) by (simp add: drain.simps)
      moreover have "stop_ok torn script ([] = []) None (Some (case torn of Some e \<Rightarrow> StopIo e | None \<Rightarrow> Closed))"
        by (simp add: stop_ok_def split: option.splits)
      ultimately show ?thesis using f closed(1) by (simp add: outcome_now)
    next
      case (bytes bs)
      then obtain m where m: "length bs = Suc m" by (cases bs) auto
      have "loop_outcome dec torn item skip script' (unread b' @ script_bytes script') st
          (decode_loop dec torn item skip n script' b' st)"
        using Suc.IH(2) [of b' script' st] bytes(6-8) 1(3) by simp
      from outcome_script [OF this fill_error_script [OF f]] bytes(1,3,4) m f
      show ?thesis by (simp add: append_assoc [symmetric] del: append_assoc) (simp add: append_assoc)
    qed }
  { case 2
    let ?whole = "unread b @ script_bytes script"
    show ?case
    proof (cases "dec (unread b)")
      case (Inl e)
      then have "dec ?whole = Inl e" by (rule stable) simp
      then have "drain dec ?whole = Some ([], ?whole, Some e)" by (simp add: drain.simps)
      moreover have "stop_ok torn script ([] = []) (Some e) (Some (StopWire e))" by (simp add: stop_ok_def)
      ultimately show ?thesis using Inl by (simp add: outcome_now)
    next
      case (Inr d)
      have part: "read_buffer_ok (consume b k)" "rb_ceiling (consume b k) = bound"
        "unread (consume b k) @ script_bytes script = drop k ?whole"
        if "k \<le> length (unread b)" for k
        using that 2 consume_ok [of b k] by simp_all
      show ?thesis
      proof (cases d)
        case (Item x k)
        with Inr have it: "dec (unread b) = Inr (Item x k)" by simp
        then have w: "dec ?whole = Inr (Item x k)" by (rule stable) simp
        from item_within [OF it] have k: "k \<le> length (unread b)" by simp
        from Suc.IH(2) [OF part(1,2) [OF k] 2(3), of "item n x st"] it
        have "loop_outcome dec torn item skip script (drop k ?whole)
            (case Some x of Some x \<Rightarrow> item n x st | None \<Rightarrow> skip st) (decode_loop dec torn item skip (Suc n) script b st)"
          by (simp add: part(3) [OF k])
        then show ?thesis by (rule outcome_step) (simp add: drain.simps [of _ ?whole] w)
      next
        case (Skip k)
        with Inr have it: "dec (unread b) = Inr (Skip k)" by simp
        then have w: "dec ?whole = Inr (Skip k)" by (rule stable) simp
        from skip_within [OF it] have k: "k \<le> length (unread b)" by simp
        from Suc.IH(2) [OF part(1,2) [OF k] 2(3), of "skip st"] it
        have "loop_outcome dec torn item skip script (drop k ?whole)
            (case None of Some x \<Rightarrow> item n x st | None \<Rightarrow> skip st) (decode_loop dec torn item skip (Suc n) script b st)"
          by (simp add: part(3) [OF k])
        then show ?thesis by (rule outcome_step) (simp add: drain.simps [of _ ?whole] w)
      next
        case (Need k)
        with Inr have need: "dec (unread b) = Inr (Need k)" by simp
        from need_le [OF need] 2(2) have "k \<le> rb_ceiling b" by simp
        then obtain b' where res: "reserve b k = (True, b')" by (simp add: reserve_def)
        note R = reserve_ok [OF 2(1) res]
        with need have "dec (unread b') = Inr (Need k)" by simp
        with Suc.IH(1) [of b' script st] R 2(2,3) need res show ?thesis by simp
      qed
    qed }
qed

text \<open>With the flag set for long enough the loop comes to an end of its own.\<close>

definition loop_size :: "script \<Rightarrow> ReadBuffer \<Rightarrow> nat" where
  "loop_size script b = length (unread b) + 3 * script_size script"

lemma loops_end:
  assumes "read_buffer_ok b" and "rb_ceiling b = bound" and "script_ok script"
  shows "\<exists>k. dec (unread b) = Inr (Need k) \<Longrightarrow> loop_size script b < n \<Longrightarrow>
      fst (fill_loop dec torn item skip n script b st) \<noteq> None"
    and "Suc (loop_size script b) < n \<Longrightarrow> fst (decode_loop dec torn item skip n script b st) \<noteq> None"
  using assms
proof (induction n arbitrary: script b st)
  case 0
  { case 1 then show ?case by simp }
  { case 2 then show ?case by simp }
next
  case (Suc n)
  { case 1
    then obtain k where need: "dec (unread b) = Inr (Need k)" by blast
    obtain r b' script' where f: "fill_socket b script = (r, b', script')"
      by (cases "fill_socket b script") auto
    from 1(3,5) f show ?case
    proof (cases rule: fill_socket_cases)
      case full
      with f show ?thesis by (simp add: is_timeout_def)
    next
      case (error e)
      have "loop_size script' b' < n" using 1(2) error(2,4) by (simp add: loop_size_def)
      with Suc.IH(1) [of b' script' st] need error 1(4) f show ?thesis by simp
    next
      case closed
      with f show ?thesis by simp
    next
      case (bytes bs)
      then obtain m where m: "length bs = Suc m" by (cases bs) auto
      have "Suc (loop_size script' b') < n" using 1(2) bytes(3,5) m by (simp add: loop_size_def)
      with Suc.IH(2) [of script' b' st] bytes 1(4) f m show ?thesis by simp
    qed }
  { case 2
    show ?case
    proof (cases "dec (unread b)")
      case (Inl e)
      then show ?thesis by simp
    next
      case (Inr d)
      have part: "Suc (loop_size script (consume b k)) < n" "read_buffer_ok (consume b k)"
        "rb_ceiling (consume b k) = bound"
        if "0 < k" "k \<le> length (unread b)" for k
        using that 2 consume_ok [of b k] by (auto simp: loop_size_def)
      show ?thesis
      proof (cases d)
        case (Item x k)
        with Inr item_within have k: "0 < k" "k \<le> length (unread b)" by blast+
        from Suc.IH(2) [OF part [OF k] 2(4)] Inr Item show ?thesis by simp
      next
        case (Skip k)
        with Inr skip_within have k: "0 < k" "k \<le> length (unread b)" by blast+
        from Suc.IH(2) [OF part [OF k] 2(4)] Inr Skip show ?thesis by simp
      next
        case (Need k)
        show ?thesis
        proof (cases "reserve b k")
          case (Pair yes b')
          note R = reserve_ok [OF 2(2) Pair]
          from R(2) 2(1) have "loop_size script b' < n" by (simp add: loop_size_def)
          with Suc.IH(1) [of b' script st] R Pair Inr Need 2(3,4) show ?thesis
            by (cases yes) simp_all
        qed
      qed
    qed }
qed

end

end
