(* ===== verification/Udpm.thy ===== *)
theory Udpm
  imports Wire
begin

text \<open>
  \<open>wire::udpm\<close>: the datagrams of a multicast bus. A short message is one datagram, a larger one
  is fragments. \<open>udpm_decode\<close> reads a datagram; \<open>fragments\<close> and the iterator step
  \<open>fragments_next\<close> write the datagrams of a message as a head (a fixed array and a \<open>u8\<close> length)
  and a slice of the payload. \<open>None\<close> of the writing functions is a panic: a slice or a copy out
  of range.
\<close>

section \<open>Constants\<close>

definition MAGIC_SHORT :: u32 where "MAGIC_SHORT = 0x4c433032"
definition MAGIC_LONG :: u32 where "MAGIC_LONG = 0x4c433033"

definition HEADER_SHORT :: nat where "HEADER_SHORT = 8"
definition HEADER_LONG :: nat where "HEADER_LONG = 20"

definition SHORT_MESSAGE_MAX_APPLE :: nat where "SHORT_MESSAGE_MAX_APPLE = 1435"

text \<open>\<open>cfg!(target_os = "macos")\<close> is the argument.\<close>

definition SHORT_MESSAGE_MAX :: "bool \<Rightarrow> nat" where
  "SHORT_MESSAGE_MAX macos = (if macos then SHORT_MESSAGE_MAX_APPLE else 65499)"

definition HEADER_GAP :: nat where "HEADER_GAP = HEADER_LONG - HEADER_SHORT"

definition fragment_max :: "nat \<Rightarrow> nat" where
  "fragment_max short_max = (if short_max > HEADER_GAP then short_max - HEADER_GAP else 1)"

definition HEAD_MAX :: nat where "HEAD_MAX = HEADER_LONG + MAX_CHANNEL_LEN + 1"

section \<open>Reading a datagram\<close>

record Fragment =
  fr_sequence :: u32
  fr_total :: u32
  fr_offset :: u32
  fr_index :: u16
  fr_count :: u16
  fr_channel :: "string option"
  fr_payload :: bytes

datatype Datagram = Whole u32 FrameRef | DFragment Fragment

definition udpm_decode :: "bytes \<Rightarrow> WireError + Datagram" where
  "udpm_decode d =
     and_then (reader_u32 (reader_new d)) (\<lambda>(magic, r).
     if magic = MAGIC_SHORT then
       and_then (reader_u32 r) (\<lambda>(sequence, r).
       and_then (reader_channel r) (\<lambda>(ch, r).
       Inr (Whole sequence \<lparr>channel = ch, payload = fst (reader_rest r)\<rparr>)))
     else if magic = MAGIC_LONG then
       and_then (reader_u32 r) (\<lambda>(sequence, r).
       and_then (reader_u32 r) (\<lambda>(total, r).
       and_then (reader_u32 r) (\<lambda>(offset, r).
       and_then (reader_u16 r) (\<lambda>(index, r).
       and_then (reader_u16 r) (\<lambda>(count, r).
       if unat total > MAX_MESSAGE_LEN then Inl (MessageTooLarge (unat total))
       else
         and_then (if index = 0 then and_then (reader_channel r) (\<lambda>(ch, r). Inr (Some ch, r))
                   else Inr (None, r)) (\<lambda>(ch, r).
         Inr (DFragment \<lparr>fr_sequence = sequence, fr_total = total, fr_offset = offset,
           fr_index = index, fr_count = count, fr_channel = ch,
           fr_payload = fst (reader_rest r)\<rparr>)))))))
     else Inl (BadMagic magic))"

section \<open>Writing the datagrams of a message\<close>

record Head =
  hd_bytes :: bytes
  hd_len :: u8

definition head_new :: Head where
  "head_new = \<lparr>hd_bytes = replicate HEAD_MAX 0, hd_len = 0\<rparr>"

text \<open>\<open>Head::as_ref\<close>.\<close>

definition head_as_ref :: "Head \<Rightarrow> bytes option" where
  "head_as_ref h = slice_range (hd_bytes h) 0 (unat (hd_len h))"

text \<open>The closure \<open>put\<close>: a copy to \<open>bytes[at..at + len]\<close>, then the \<open>u8\<close> length goes up.\<close>

definition head_put :: "Head \<Rightarrow> bytes \<Rightarrow> Head option" where
  "head_put h bs =
     (let at = unat (hd_len h) in
      if at + length bs \<le> length (hd_bytes h) then
        Some \<lparr>hd_bytes = take at (hd_bytes h) @ bs @ drop (at + length bs) (hd_bytes h),
              hd_len = hd_len h + of_nat (length bs)\<rparr>
      else None)"

fun head_puts :: "Head \<Rightarrow> bytes list \<Rightarrow> Head option" where
  "head_puts h [] = Some h"
| "head_puts h (bs # rst) = (case head_put h bs of None \<Rightarrow> None | Some h' \<Rightarrow> head_puts h' rst)"

record Fragments =
  fs_sequence :: u32
  fs_channel :: bytes
  fs_payload :: bytes
  fs_first :: nat
  fs_limit :: nat
  fs_count :: nat
  fs_index :: nat

definition fragments_start :: "Fragments \<Rightarrow> nat \<Rightarrow> nat" where
  "fragments_start f i = (if i = 0 then 0 else fs_first f + (i - 1) * fs_limit f)"

text \<open>
  \<open>Iterator::next\<close>: the item, if there is one, and the iterator after it.
\<close>

definition fragments_next :: "Fragments \<Rightarrow> ((Head \<times> bytes) option \<times> Fragments) option" where
  "fragments_next f =
     (if fs_index f \<ge> fs_count f then Some (None, f)
      else
        let index = fs_index f; f' = f\<lparr>fs_index := index + 1\<rparr> in
        if fs_count f = 1 then
          map_option (\<lambda>head. (Some (head, fs_payload f), f'))
            (head_puts head_new
              [to_be_bytes MAGIC_SHORT, to_be_bytes (fs_sequence f), fs_channel f, [0]])
        else
          case head_puts head_new
            ([to_be_bytes MAGIC_LONG, to_be_bytes (fs_sequence f),
              to_be_bytes (of_nat (length (fs_payload f)) :: u32),
              to_be_bytes (of_nat (fragments_start f index) :: u32),
              to_be_bytes (of_nat index :: u16),
              to_be_bytes (of_nat (fs_count f) :: u16)]
             @ (if index = 0 then [fs_channel f, [0]] else [])) of
            None \<Rightarrow> None
          | Some head \<Rightarrow>
              let fin = min (fragments_start f (index + 1)) (length (fs_payload f)) in
              map_option (\<lambda>body. (Some (head, body), f'))
                (slice_range (fs_payload f) (fragments_start f index) fin))"

text \<open>\<open>Iterator::size_hint\<close>, exact.\<close>

definition fragments_size_hint :: "Fragments \<Rightarrow> nat" where
  "fragments_size_hint f = fs_count f - fs_index f"

definition fragments :: "u32 \<Rightarrow> FrameRef \<Rightarrow> nat \<Rightarrow> WireError + Fragments" where
  "fragments sequence frame short_max =
     and_then (check_channel (channel frame) MAX_CHANNEL_LEN) (\<lambda>_.
     let ch = as_bytes (channel frame) in
     if length (payload frame) > MAX_MESSAGE_LEN then Inl (MessageTooLarge (length (payload frame)))
     else
       let head = length ch + 1;
           whole = \<lparr>fs_sequence = sequence, fs_channel = ch, fs_payload = payload frame,
                    fs_first = 0, fs_limit = 0, fs_count = 1, fs_index = 0\<rparr>
       in if head + length (payload frame) \<le> short_max then Inr whole
          else
            let limit = fragment_max short_max in
            case Option.bind (checked_sub_usize limit head) (\<lambda>first. if first > 0 then Some first else None) of
              None \<Rightarrow> Inl (DatagramTooSmall short_max (head + 1 + HEADER_GAP))
            | Some first \<Rightarrow>
                let count = div_ceil (head + length (payload frame)) limit in
                if count > 65535 then Inl (TooManyFragments count)
                else Inr (whole\<lparr>fs_first := first, fs_limit := limit, fs_count := count\<rparr>))"

text \<open>The \<open>map\<close> and \<open>collect\<close> of \<open>encode\<close>, over the iterator.\<close>

lemma fragments_next_progress:
  "fragments_next f = Some (Some x, f') \<Longrightarrow> fs_count f' - fs_index f' < fs_count f - fs_index f"
  by (auto simp: fragments_next_def Let_def split: if_splits option.splits)

function collect_datagrams :: "Fragments \<Rightarrow> bytes list option" where
  "collect_datagrams f =
     (case fragments_next f of
        None \<Rightarrow> None
      | Some (None, _) \<Rightarrow> Some []
      | Some (Some (head, body), f') \<Rightarrow>
          (case head_as_ref head of
             None \<Rightarrow> None
           | Some bs \<Rightarrow> map_option ((#) (bs @ body)) (collect_datagrams f')))"
  by pat_completeness auto
termination
  by (relation "measure (\<lambda>f. fs_count f - fs_index f)") (auto dest: fragments_next_progress)

declare collect_datagrams.simps [simp del]

definition udpm_encode :: "u32 \<Rightarrow> FrameRef \<Rightarrow> nat \<Rightarrow> (WireError + bytes list) option" where
  "udpm_encode sequence frame short_max =
     (case fragments sequence frame short_max of
        Inl e \<Rightarrow> Some (Inl e)
      | Inr f \<Rightarrow> map_option Inr (collect_datagrams f))"

section \<open>The datagrams, in closed form\<close>

text \<open>The fields of datagram \<open>i\<close> of a message, and the part of the payload it carries.\<close>

definition frag_head :: "Fragments \<Rightarrow> nat \<Rightarrow> bytes" where
  "frag_head f i =
     (if fs_count f = 1 then to_be_bytes MAGIC_SHORT @ to_be_bytes (fs_sequence f) @ fs_channel f @ [0]
      else to_be_bytes MAGIC_LONG @ to_be_bytes (fs_sequence f)
        @ to_be_bytes (of_nat (length (fs_payload f)) :: u32)
        @ to_be_bytes (of_nat (fragments_start f i) :: u32)
        @ to_be_bytes (of_nat i :: u16) @ to_be_bytes (of_nat (fs_count f) :: u16)
        @ (if i = 0 then fs_channel f @ [0] else []))"

definition frag_end :: "Fragments \<Rightarrow> nat \<Rightarrow> nat" where
  "frag_end f i = (if fs_count f = 1 then length (fs_payload f)
     else min (fragments_start f (i + 1)) (length (fs_payload f)))"

definition frag_body :: "Fragments \<Rightarrow> nat \<Rightarrow> bytes" where
  "frag_body f i = take (frag_end f i - fragments_start f i) (drop (fragments_start f i) (fs_payload f))"

definition datagram :: "Fragments \<Rightarrow> nat \<Rightarrow> bytes" where
  "datagram f i = frag_head f i @ frag_body f i"

definition fragments_wf :: "Fragments \<Rightarrow> bool" where
  "fragments_wf f \<longleftrightarrow>
     length (fs_channel f) \<le> MAX_CHANNEL_LEN \<and>
     length (fs_payload f) \<le> MAX_MESSAGE_LEN \<and>
     fs_count f \<le> 65535 \<and>
     (fs_count f = 1 \<or>
      1 < fs_count f \<and> 0 < fs_first f \<and>
      fs_limit f = fs_first f + length (fs_channel f) + 1 \<and>
      (fs_count f - 1) * fs_limit f < length (fs_channel f) + 1 + length (fs_payload f) \<and>
      length (fs_channel f) + 1 + length (fs_payload f) \<le> fs_count f * fs_limit f)"

lemma frag_index_irrelevant [simp]:
  "fragments_start (f\<lparr>fs_index := k\<rparr>) i = fragments_start f i"
  "frag_head (f\<lparr>fs_index := k\<rparr>) i = frag_head f i"
  "frag_body (f\<lparr>fs_index := k\<rparr>) i = frag_body f i"
  "datagram (f\<lparr>fs_index := k\<rparr>) i = datagram f i"
  "fragments_wf (f\<lparr>fs_index := k\<rparr>) = fragments_wf f"
  by (simp_all add: fragments_start_def frag_head_def frag_body_def frag_end_def datagram_def
      fragments_wf_def)

text \<open>Where a fragment starts, without the special case of fragment zero.\<close>

lemma fragments_start_mult:
  assumes "fragments_wf f" and "1 < fs_count f" and "0 < i"
  shows "fragments_start f i + (length (fs_channel f) + 1) = i * fs_limit f"
proof -
  from assms(3) obtain k where i: "i = Suc k" by (cases i) auto
  from assms(1,2) have "fs_limit f = fs_first f + length (fs_channel f) + 1"
    by (auto simp: fragments_wf_def)
  then show ?thesis by (simp add: fragments_start_def i)
qed

lemma fragments_start_step:
  assumes "fragments_wf f" and "1 < fs_count f"
  shows "fragments_start f i < fragments_start f (Suc i)"
  using assms by (cases i) (auto simp: fragments_start_def fragments_wf_def)

lemma fragments_start_mono:
  assumes "fragments_wf f" and "1 < fs_count f" and "i < j"
  shows "fragments_start f i < fragments_start f j"
  using lift_Suc_mono_less [of "fragments_start f" i j] fragments_start_step [OF assms(1,2)] assms(3)
  by blast

text \<open>Each fragment but the first starts inside the payload, so none of those is empty.\<close>

lemma fragments_start_less:
  assumes wf: "fragments_wf f" and many: "1 < fs_count f" and i: "0 < i" "i < fs_count f"
  shows "fragments_start f i < length (fs_payload f)"
proof -
  from i have "i * fs_limit f \<le> (fs_count f - 1) * fs_limit f" by (intro mult_le_mono1) simp
  also have "\<dots> < length (fs_channel f) + 1 + length (fs_payload f)"
    using wf many by (auto simp: fragments_wf_def)
  finally show ?thesis using fragments_start_mult [OF wf many i(1)] by linarith
qed

lemma fragments_start_count:
  assumes wf: "fragments_wf f" and many: "1 < fs_count f"
  shows "length (fs_payload f) \<le> fragments_start f (fs_count f)"
proof -
  have "length (fs_channel f) + 1 + length (fs_payload f) \<le> fs_count f * fs_limit f"
    using wf many by (auto simp: fragments_wf_def)
  then show ?thesis using fragments_start_mult [OF wf many, of "fs_count f"] many by linarith
qed

lemma fragments_payload_pos:
  assumes "fragments_wf f" and "1 < fs_count f"
  shows "0 < length (fs_payload f)"
  using fragments_start_less [OF assms, of "fs_count f - 1"] assms(2) by linarith

lemma fragments_start_0 [simp]: "fragments_start f 0 = 0"
  by (simp add: fragments_start_def)

lemma fragments_start_le_end:
  assumes wf: "fragments_wf f" and i: "i < fs_count f"
  shows "fragments_start f i \<le> frag_end f i" and "frag_end f i \<le> length (fs_payload f)"
proof -
  show "frag_end f i \<le> length (fs_payload f)" by (simp add: frag_end_def)
  show "fragments_start f i \<le> frag_end f i"
  proof (cases "fs_count f = 1")
    case True
    with i show ?thesis by (simp add: frag_end_def)
  next
    case False
    with i have many: "1 < fs_count f" by simp
    have "fragments_start f i \<le> length (fs_payload f)"
      using fragments_start_less [OF wf many, of i] i by (cases "i = 0") auto
    moreover have "fragments_start f i < fragments_start f (Suc i)"
      by (rule fragments_start_step [OF wf many])
    ultimately show ?thesis using False by (simp add: frag_end_def)
  qed
qed

lemma frag_end_last:
  assumes wf: "fragments_wf f" and i: "Suc i = fs_count f"
  shows "frag_end f i = length (fs_payload f)"
proof (cases "fs_count f = 1")
  case True
  then show ?thesis by (simp add: frag_end_def)
next
  case False
  with i have "1 < fs_count f" by linarith
  from fragments_start_count [OF wf this] False i show ?thesis
    by (simp add: frag_end_def)
qed

lemma frag_end_next:
  assumes wf: "fragments_wf f" and i: "Suc i < fs_count f"
  shows "frag_end f i = fragments_start f (Suc i)"
proof -
  from i have many: "1 < fs_count f" by simp
  from fragments_start_less [OF wf many, of "Suc i"] i many show ?thesis
    by (simp add: frag_end_def)
qed

lemma length_frag_body:
  assumes "fragments_wf f" and "i < fs_count f"
  shows "length (frag_body f i) = frag_end f i - fragments_start f i"
  using fragments_start_le_end [OF assms] by (simp add: frag_body_def)

text \<open>The bodies, in sequence, are the payload: each one starts where the one before it ends.\<close>

lemma concat_frag_bodies_prefix:
  assumes wf: "fragments_wf f"
  shows "k < fs_count f \<Longrightarrow>
    concat (map (frag_body f) [0..<k]) = take (fragments_start f k) (fs_payload f)"
proof (induction k)
  case 0
  then show ?case by simp
next
  case (Suc k)
  let ?s = "fragments_start f k" and ?e = "fragments_start f (Suc k)" and ?p = "fs_payload f"
  from Suc.prems have many: "1 < fs_count f" by simp
  have le: "?s \<le> ?e" using fragments_start_step [OF wf many, of k] by simp
  have "concat (map (frag_body f) [0..<Suc k]) = take ?s ?p @ frag_body f k"
    using Suc by simp
  also have "frag_body f k = take (?e - ?s) (drop ?s ?p)"
    using frag_end_next [OF wf Suc.prems] by (simp add: frag_body_def)
  also have "take ?s ?p @ take (?e - ?s) (drop ?s ?p) = take ?e ?p"
    using le by (metis le_add_diff_inverse take_add)
  finally show ?case .
qed

lemma concat_frag_bodies:
  assumes wf: "fragments_wf f" and c: "0 < fs_count f"
  shows "concat (map (frag_body f) [0..<fs_count f]) = fs_payload f"
proof -
  from c obtain k where k: "fs_count f = Suc k" by (cases "fs_count f") auto
  have "concat (map (frag_body f) [0..<Suc k]) = take (fragments_start f k) (fs_payload f) @ frag_body f k"
    using concat_frag_bodies_prefix [OF wf, of k] k by simp
  also have "frag_body f k = drop (fragments_start f k) (fs_payload f)"
    using frag_end_last [OF wf, of k] k by (simp add: frag_body_def)
  finally show ?thesis by (simp add: k)
qed

section \<open>The writer does not panic\<close>

text \<open>\<open>head_holds h bs\<close>: the array has its fixed length and the first \<open>hd_len\<close> bytes are \<open>bs\<close>.\<close>

definition head_holds :: "Head \<Rightarrow> bytes \<Rightarrow> bool" where
  "head_holds h bs \<longleftrightarrow> length (hd_bytes h) = HEAD_MAX \<and> unat (hd_len h) = length bs \<and>
     take (length bs) (hd_bytes h) = bs"

lemma head_holds_new: "head_holds head_new []"
  by (simp add: head_holds_def head_new_def)

lemma head_put_holds:
  assumes h: "head_holds h bs" and room: "length bs + length cs \<le> HEAD_MAX"
  obtains h' where "head_put h cs = Some h'" and "head_holds h' (bs @ cs)"
proof -
  let ?h = "\<lparr>hd_bytes = take (length bs) (hd_bytes h) @ cs @ drop (length bs + length cs) (hd_bytes h),
            hd_len = hd_len h + of_nat (length cs)\<rparr>"
  have small: "HEAD_MAX < 256" by (simp add: HEAD_MAX_def HEADER_LONG_def MAX_CHANNEL_LEN_def)
  from room small have "unat (of_nat (length cs) :: u8) = length cs"
    by (simp add: unat_of_nat take_bit_nat_eq_self)
  with h room small have len: "unat (hd_len h + of_nat (length cs)) = length bs + length cs"
    by (simp add: head_holds_def unat_word_ariths)
  have "head_put h cs = Some ?h"
    using h room by (simp add: head_put_def head_holds_def Let_def)
  moreover have "head_holds ?h (bs @ cs)"
    using h room len by (simp add: head_holds_def)
  ultimately show ?thesis by (rule that)
qed

lemma head_puts_holds:
  assumes "head_holds h bs" and "length bs + length (concat css) \<le> HEAD_MAX"
  shows "\<exists>h'. head_puts h css = Some h' \<and> head_holds h' (bs @ concat css)"
  using assms
proof (induction css arbitrary: h bs)
  case Nil
  then show ?case by simp
next
  case (Cons cs css)
  then obtain h' where p: "head_put h cs = Some h'" and h': "head_holds h' (bs @ cs)"
    by (metis add_leD1 concat.simps(2) head_put_holds length_append add.assoc)
  from Cons.IH [OF h'] Cons.prems p show ?case by simp
qed

lemma head_holds_as_ref:
  assumes "head_holds h bs"
  shows "head_as_ref h = Some bs"
proof -
  from assms have "take (length bs) (hd_bytes h) = bs" and l: "unat (hd_len h) = length bs"
    by (simp_all add: head_holds_def)
  then have "length bs \<le> length (hd_bytes h)" by (metis length_take min.cobounded1)
  with assms l show ?thesis by (simp add: head_as_ref_def slice_range_def head_holds_def)
qed

lemma length_frag_head:
  assumes "fragments_wf f"
  shows "length (frag_head f i) \<le> HEAD_MAX"
  using assms
  by (auto simp: frag_head_def fragments_wf_def HEAD_MAX_def HEADER_LONG_def MAX_CHANNEL_LEN_def)

lemma fragments_next_wf:
  assumes wf: "fragments_wf f" and i: "fs_index f < fs_count f"
  obtains h where
    "fragments_next f = Some (Some (h, frag_body f (fs_index f)), f\<lparr>fs_index := fs_index f + 1\<rparr>)"
    and "head_as_ref h = Some (frag_head f (fs_index f))"
proof -
  let ?i = "fs_index f"
  define css where "css =
    (if fs_count f = 1 then [to_be_bytes MAGIC_SHORT, to_be_bytes (fs_sequence f), fs_channel f, [0]]
     else [to_be_bytes MAGIC_LONG, to_be_bytes (fs_sequence f),
        to_be_bytes (of_nat (length (fs_payload f)) :: u32),
        to_be_bytes (of_nat (fragments_start f ?i) :: u32),
        to_be_bytes (of_nat ?i :: u16), to_be_bytes (of_nat (fs_count f) :: u16)]
       @ (if ?i = 0 then [fs_channel f, [0]] else []))"
  have css: "concat css = frag_head f ?i" by (simp add: css_def frag_head_def)
  have "length ([] :: bytes) + length (concat css) \<le> HEAD_MAX"
    using length_frag_head [OF wf, of ?i] css by simp
  from head_puts_holds [OF head_holds_new this] obtain h where
    h: "head_puts head_new css = Some h" and "head_holds h (frag_head f ?i)"
    by (auto simp: css)
  then have ref: "head_as_ref h = Some (frag_head f ?i)" by (simp add: head_holds_as_ref)
  have body: "slice_range (fs_payload f) (fragments_start f ?i) (frag_end f ?i) = Some (frag_body f ?i)"
    using fragments_start_le_end [OF wf i] by (simp add: slice_range_def frag_body_def)
  show ?thesis
  proof (rule that [OF _ ref])
    show "fragments_next f = Some (Some (h, frag_body f ?i), f\<lparr>fs_index := ?i + 1\<rparr>)"
    proof (cases "fs_count f = 1")
      case True
      with i have "?i = 0" by simp
      with True h i show ?thesis
        by (simp add: fragments_next_def css_def frag_body_def frag_end_def Let_def)
    next
      case False
      with h i body show ?thesis
        by (simp add: fragments_next_def css_def frag_end_def Let_def del: head_puts.simps)
    qed
  qed
qed

lemma collect_datagrams_wf:
  assumes "fragments_wf f" and "fs_index f \<le> fs_count f"
  shows "collect_datagrams f = Some (map (datagram f) [fs_index f..<fs_count f])"
  using assms
proof (induction f rule: collect_datagrams.induct)
  case (1 f)
  show ?case
  proof (cases "fs_index f < fs_count f")
    case True
    from fragments_next_wf [OF "1.prems"(1) True] obtain h where
      nxt: "fragments_next f = Some (Some (h, frag_body f (fs_index f)), f\<lparr>fs_index := fs_index f + 1\<rparr>)"
      and ref: "head_as_ref h = Some (frag_head f (fs_index f))" .
    have "collect_datagrams (f\<lparr>fs_index := fs_index f + 1\<rparr>)
        = Some (map (datagram f) [Suc (fs_index f)..<fs_count f])"
      using "1.IH" [OF nxt refl refl refl ref] "1.prems" True by (simp cong: map_cong)
    with nxt ref True show ?thesis
      by (simp add: collect_datagrams.simps [of f] upt_conv_Cons datagram_def)
  next
    case False
    with "1.prems" show ?thesis
      by (simp add: collect_datagrams.simps [of f] fragments_next_def)
  qed
qed

text \<open>What \<open>fragments\<close> gives back is well formed, so the writer runs to its end on it.\<close>

lemma fragments_many:
  assumes len: "head + n > short_max" and lim: "limit = fragment_max short_max"
    and head: "head = c + 1" "0 < c" and first: "first = limit - head" "0 < first" "head \<le> limit"
  defines "count \<equiv> div_ceil (head + n) limit"
  shows "1 < count" and "(count - 1) * limit < head + n" and "head + n \<le> count * limit"
    and "limit + HEADER_GAP = short_max"
proof -
  from head first have l1: "1 < limit" by simp
  with lim show sm: "limit + HEADER_GAP = short_max"
    by (auto simp: fragment_max_def split: if_splits)
  from l1 have iff: "i < count \<longleftrightarrow> i * limit < head + n" for i
    unfolding count_def by (intro div_ceil_less_iff) simp
  from len sm have "limit < head + n" by linarith
  then show c1: "1 < count" using iff [of 1] by simp
  then show "(count - 1) * limit < head + n" using iff [of "count - 1"] by simp
  show "head + n \<le> count * limit" using iff [of count] by simp
qed

lemma fragments_Inr:
  assumes "fragments sequence frame short_max = Inr f"
  shows "fragments_wf f" and "fs_index f = 0" and "0 < fs_count f"
    and "fs_sequence f = sequence" and "fs_channel f = as_bytes (channel frame)"
    and "fs_payload f = payload frame"
    and "check_channel (channel frame) MAX_CHANNEL_LEN = Inr ()"
    and "fs_count f = 1 \<and> length (channel frame) + 1 + length (payload frame) \<le> short_max \<or>
         1 < fs_count f \<and> fs_limit f + HEADER_GAP = short_max"
proof -
  let ?ch = "as_bytes (channel frame)" and ?n = "length (payload frame)"
  let ?whole = "\<lparr>fs_sequence = sequence, fs_channel = ?ch, fs_payload = payload frame,
                 fs_first = 0, fs_limit = 0, fs_count = 1, fs_index = 0\<rparr>"
  let ?lim = "fragment_max short_max"
  from assms show cc: "check_channel (channel frame) MAX_CHANNEL_LEN = Inr ()"
    by (auto simp: fragments_def and_then_eq_Inr)
  then have ch: "length ?ch \<le> MAX_CHANNEL_LEN" "0 < length ?ch"
    by (auto simp: check_channel_Inr_iff)
  from assms cc have n: "?n \<le> MAX_MESSAGE_LEN"
    by (auto simp: fragments_def Let_def split: if_splits)
  consider (short) "length ?ch + 1 + ?n \<le> short_max" "f = ?whole"
    | (long) first where "short_max < length ?ch + 1 + ?n"
        "first = ?lim - (length ?ch + 1)" "0 < first" "length ?ch + 1 \<le> ?lim"
        "div_ceil (length ?ch + 1 + ?n) ?lim \<le> 65535"
        "f = ?whole\<lparr>fs_first := first, fs_limit := ?lim,
              fs_count := div_ceil (length ?ch + 1 + ?n) ?lim\<rparr>"
    using assms cc
    by (auto simp: fragments_def Let_def checked_sub_usize_def bind_eq_Some_conv
        split: if_splits option.splits)
  then have "fragments_wf f \<and> fs_index f = 0 \<and> 0 < fs_count f \<and> fs_sequence f = sequence
    \<and> fs_channel f = ?ch \<and> fs_payload f = payload frame \<and>
    (fs_count f = 1 \<and> length (channel frame) + 1 + ?n \<le> short_max \<or>
     1 < fs_count f \<and> fs_limit f + HEADER_GAP = short_max)"
  proof cases
    case short
    with ch n show ?thesis by (simp add: fragments_wf_def)
  next
    case long
    note m = fragments_many [OF long(1) refl refl ch(2) long(2,3,4)]
    from m(1,2,3,4) long ch n show ?thesis by (simp add: fragments_wf_def)
  qed
  then show "fragments_wf f" and "fs_index f = 0" and "0 < fs_count f"
    and "fs_sequence f = sequence" and "fs_channel f = as_bytes (channel frame)"
    and "fs_payload f = payload frame"
    and "fs_count f = 1 \<and> length (channel frame) + 1 + length (payload frame) \<le> short_max \<or>
         1 < fs_count f \<and> fs_limit f + HEADER_GAP = short_max"
    by blast+
qed

lemma udpm_encode_eq:
  "udpm_encode sequence frame short_max =
    Some (case fragments sequence frame short_max of
      Inl e \<Rightarrow> Inl e | Inr f \<Rightarrow> Inr (map (datagram f) [0..<fs_count f]))"
  using collect_datagrams_wf fragments_Inr(1,2)
  by (auto simp: udpm_encode_def split: sum.splits)

lemma udpm_encode_Inr:
  assumes "udpm_encode sequence frame short_max = Some (Inr ds)"
  obtains f where "fragments sequence frame short_max = Inr f"
    and "ds = map (datagram f) [0..<fs_count f]"
  using assms by (auto simp: udpm_encode_eq split: sum.splits)

section \<open>Length of a datagram\<close>

lemma length_datagram:
  assumes "fragments sequence frame short_max = Inr f" and "i < fs_count f"
  shows "length (datagram f i) \<le> HEADER_SHORT + short_max"
proof -
  note F = fragments_Inr [OF assms(1)]
  have body: "length (frag_body f i) = frag_end f i - fragments_start f i"
    by (rule length_frag_body [OF F(1) assms(2)])
  from F(8) show ?thesis
  proof
    assume one: "fs_count f = 1 \<and> length (channel frame) + 1 + length (payload frame) \<le> short_max"
    with assms(2) have "i = 0" by simp
    with one body F(5,6) show ?thesis
      by (simp add: datagram_def frag_head_def frag_end_def HEADER_SHORT_def)
  next
    assume many: "1 < fs_count f \<and> fs_limit f + HEADER_GAP = short_max"
    with F(1) have lim: "fs_limit f = fs_first f + length (fs_channel f) + 1"
      by (auto simp: fragments_wf_def)
    have "length (frag_head f i) + length (frag_body f i) \<le> HEADER_LONG + fs_limit f"
    proof (cases i)
      case 0
      with many body have "length (frag_body f i) \<le> fs_first f"
        by (simp add: frag_end_def fragments_start_def)
      with 0 many lim show ?thesis by (simp add: frag_head_def HEADER_LONG_def)
    next
      case (Suc k)
      with many body have "length (frag_body f i) \<le> fs_limit f"
        by (simp add: frag_end_def fragments_start_def)
      with Suc many show ?thesis by (simp add: frag_head_def HEADER_LONG_def)
    qed
    with many show ?thesis
      by (simp add: datagram_def HEADER_GAP_def HEADER_LONG_def HEADER_SHORT_def)
  qed
qed

section \<open>Reading what the writer wrote\<close>

definition nth_fragment :: "Fragments \<Rightarrow> nat \<Rightarrow> Fragment" where
  "nth_fragment f i =
     \<lparr>fr_sequence = fs_sequence f, fr_total = of_nat (length (fs_payload f)),
      fr_offset = of_nat (fragments_start f i), fr_index = of_nat i, fr_count = of_nat (fs_count f),
      fr_channel = (if i = 0 then Some (of_bytes (fs_channel f)) else None),
      fr_payload = frag_body f i\<rparr>"

text \<open>None of the casts to \<open>u16\<close> and \<open>u32\<close> loses a bit.\<close>

lemma unat_u16 [simp]: "n \<le> 65535 \<Longrightarrow> unat (of_nat n :: u16) = n"
  by (simp add: unat_of_nat take_bit_nat_eq_self)

lemma unat_u32 [simp]: "n \<le> MAX_MESSAGE_LEN \<Longrightarrow> unat (of_nat n :: u32) = n"
  by (simp add: unat_of_nat take_bit_nat_eq_self MAX_MESSAGE_LEN_def)

lemma of_nat_u16_eq_0 [simp]: "n \<le> 65535 \<Longrightarrow> (of_nat n :: u16) = 0 \<longleftrightarrow> n = 0"
  using unat_u16 [of n] by (metis of_nat_0 unat_eq_zero)

lemma fragments_start_max:
  assumes "fragments_wf f" and "i < fs_count f"
  shows "fragments_start f i \<le> MAX_MESSAGE_LEN"
  using fragments_start_le_end [OF assms] assms(1) by (simp add: fragments_wf_def)

lemma reader_rest_at [simp]: "at_suffix r s \<Longrightarrow> fst (reader_rest r) = s"
  by (simp add: reader_rest_def at_suffix_def)

lemma udpm_decode_whole:
  assumes "is_str ch" and "check_channel ch MAX_CHANNEL_LEN = Inr u"
  shows "udpm_decode (to_be_bytes MAGIC_SHORT @ to_be_bytes sequence @ as_bytes ch @ 0 # pl)
    = Inr (Whole sequence \<lparr>channel = ch, payload = pl\<rparr>)"
proof -
  let ?d = "to_be_bytes MAGIC_SHORT @ to_be_bytes sequence @ as_bytes ch @ 0 # pl"
  obtain r1 where 1: "reader_u32 (reader_new ?d) = Inr (MAGIC_SHORT, r1)"
    "at_suffix r1 (to_be_bytes sequence @ as_bytes ch @ 0 # pl)"
    using reader_u32_append [OF at_suffix_new] by blast
  obtain r2 where 2: "reader_u32 r1 = Inr (sequence, r2)" "at_suffix r2 (as_bytes ch @ 0 # pl)"
    using reader_u32_append [OF 1(2)] by blast
  obtain r3 where 3: "reader_channel r2 = Inr (ch, r3)" "at_suffix r3 pl"
    using reader_channel_append [OF 2(2) assms] by blast
  from 1(1) 2(1) 3 show ?thesis by (simp add: udpm_decode_def)
qed

lemma udpm_decode_fragment:
  assumes "unat tot \<le> MAX_MESSAGE_LEN"
    and "if index = 0 then \<exists>ch. och = Some ch \<and> is_str ch \<and> check_channel ch MAX_CHANNEL_LEN = Inr ()
           \<and> name = as_bytes ch @ [0]
         else och = None \<and> name = []"
  shows "udpm_decode (to_be_bytes MAGIC_LONG @ to_be_bytes sequence @ to_be_bytes tot
      @ to_be_bytes offset @ to_be_bytes index @ to_be_bytes count @ name @ pl)
    = Inr (DFragment \<lparr>fr_sequence = sequence, fr_total = tot, fr_offset = offset,
        fr_index = index, fr_count = count, fr_channel = och, fr_payload = pl\<rparr>)"
    (is "udpm_decode ?d = _")
proof -
  have magic: "MAGIC_LONG \<noteq> MAGIC_SHORT" by (simp add: MAGIC_LONG_def MAGIC_SHORT_def)
  obtain r1 where 1: "reader_u32 (reader_new ?d) = Inr (MAGIC_LONG, r1)"
    "at_suffix r1 (to_be_bytes sequence @ to_be_bytes tot
      @ to_be_bytes offset @ to_be_bytes index @ to_be_bytes count @ name @ pl)"
    using reader_u32_append [OF at_suffix_new] by blast
  obtain r2 where 2: "reader_u32 r1 = Inr (sequence, r2)"
    "at_suffix r2 (to_be_bytes tot @ to_be_bytes offset @ to_be_bytes index @ to_be_bytes count @ name @ pl)"
    using reader_u32_append [OF 1(2)] by blast
  obtain r3 where 3: "reader_u32 r2 = Inr (tot, r3)"
    "at_suffix r3 (to_be_bytes offset @ to_be_bytes index @ to_be_bytes count @ name @ pl)"
    using reader_u32_append [OF 2(2)] by blast
  obtain r4 where 4: "reader_u32 r3 = Inr (offset, r4)"
    "at_suffix r4 (to_be_bytes index @ to_be_bytes count @ name @ pl)"
    using reader_u32_append [OF 3(2)] by blast
  obtain r5 where 5: "reader_u16 r4 = Inr (index, r5)" "at_suffix r5 (to_be_bytes count @ name @ pl)"
    using reader_u16_append [OF 4(2)] by blast
  obtain r6 where 6: "reader_u16 r5 = Inr (count, r6)" "at_suffix r6 (name @ pl)"
    using reader_u16_append [OF 5(2)] by blast
  note reads = 1(1) 2(1) 3(1) 4(1) 5(1) 6
  show ?thesis
  proof (cases "index = 0")
    case True
    with assms(2) obtain ch where ch: "och = Some ch" "is_str ch"
      "check_channel ch MAX_CHANNEL_LEN = Inr ()" "name = as_bytes ch @ [0]" by auto
    from 6(2) ch(4) have "at_suffix r6 (as_bytes ch @ 0 # pl)" by simp
    from reader_channel_append [OF this ch(2,3)] obtain r7 where
      "reader_channel r6 = Inr (ch, r7)" "at_suffix r7 pl" by blast
    with reads magic assms(1) ch(1) True show ?thesis by (simp add: udpm_decode_def)
  next
    case False
    with reads magic assms show ?thesis by (simp add: udpm_decode_def)
  qed
qed

lemma udpm_decode_datagram:
  assumes f: "fragments sequence frame short_max = Inr f" and str: "is_str (channel frame)"
    and i: "i < fs_count f"
  shows "udpm_decode (datagram f i) =
    Inr (if fs_count f = 1 then Whole sequence frame else DFragment (nth_fragment f i))"
proof -
  note F = fragments_Inr [OF f]
  show ?thesis
  proof (cases "fs_count f = 1")
    case True
    with i have "frag_body f i = payload frame" by (simp add: frag_body_def frag_end_def F(6))
    then have "datagram f i = to_be_bytes MAGIC_SHORT @ to_be_bytes sequence
        @ as_bytes (channel frame) @ 0 # payload frame"
      using True by (simp add: datagram_def frag_head_def F(4,5))
    with udpm_decode_whole [OF str F(7)] True show ?thesis by simp
  next
    case False
    have c: "fs_count f \<le> 65535" and n: "length (payload frame) \<le> MAX_MESSAGE_LEN"
      using F(1,6) by (auto simp: fragments_wf_def)
    let ?name = "if i = 0 then as_bytes (channel frame) @ [0] else []"
    have "datagram f i = to_be_bytes MAGIC_LONG @ to_be_bytes sequence
        @ to_be_bytes (of_nat (length (fs_payload f)) :: u32)
        @ to_be_bytes (of_nat (fragments_start f i) :: u32)
        @ to_be_bytes (of_nat i :: u16) @ to_be_bytes (of_nat (fs_count f) :: u16)
        @ ?name @ frag_body f i"
      using False by (simp add: datagram_def frag_head_def F(4,5))
    moreover have "udpm_decode \<dots> = Inr (DFragment (nth_fragment f i))"
      unfolding nth_fragment_def F(4) using c n i str F(5,6,7)
      by (intro udpm_decode_fragment) auto
    ultimately show ?thesis using False by simp
  qed
qed

section \<open>The refusals of the encoder\<close>

text \<open>\<open>DatagramTooSmall\<close> names the least \<open>short_max\<close> that would do for this channel.\<close>

lemma fragments_too_small:
  assumes cc: "check_channel (channel frame) MAX_CHANNEL_LEN = Inr ()"
    and n: "length (payload frame) \<le> MAX_MESSAGE_LEN"
    and big: "short_max < length (channel frame) + 1 + length (payload frame)"
  shows "fragments sequence frame short_max
      = Inl (DatagramTooSmall short_max (length (channel frame) + 2 + HEADER_GAP))
    \<longleftrightarrow> short_max < length (channel frame) + 2 + HEADER_GAP"
proof -
  let ?h = "length (channel frame) + 1" and ?l = "fragment_max short_max"
  have "0 < length (channel frame)" using cc by (simp add: check_channel_Inr_iff)
  then have small: "?l \<le> ?h \<longleftrightarrow> short_max < length (channel frame) + 2 + HEADER_GAP"
    by (auto simp: fragment_max_def)
  show ?thesis
  proof (cases "?l \<le> ?h")
    case True
    then have "Option.bind (checked_sub_usize ?l ?h) (\<lambda>first. if 0 < first then Some first else None) = None"
      by (simp add: checked_sub_usize_def)
    with True small cc n big show ?thesis by (simp add: fragments_def Let_def)
  next
    case False
    then have "Option.bind (checked_sub_usize ?l ?h) (\<lambda>first. if 0 < first then Some first else None)
        = Some (?l - ?h)"
      by (simp add: checked_sub_usize_def)
    with False small cc n big show ?thesis by (simp add: fragments_def Let_def)
  qed
qed

section \<open>What a datagram that was read is\<close>

text \<open>The bytes of a datagram, from what the decoder made of it.\<close>

fun datagram_bytes :: "Datagram \<Rightarrow> bytes" where
  "datagram_bytes (Whole sequence f) =
     to_be_bytes MAGIC_SHORT @ to_be_bytes sequence @ as_bytes (channel f) @ 0 # payload f"
| "datagram_bytes (DFragment fr) =
     to_be_bytes MAGIC_LONG @ to_be_bytes (fr_sequence fr) @ to_be_bytes (fr_total fr) @
     to_be_bytes (fr_offset fr) @ to_be_bytes (fr_index fr) @ to_be_bytes (fr_count fr) @
     (case fr_channel fr of None \<Rightarrow> [] | Some ch \<Rightarrow> as_bytes ch @ [0]) @ fr_payload fr"

definition name_ok :: "string \<Rightarrow> bool" where
  "name_ok ch \<longleftrightarrow> is_str ch \<and> check_channel ch MAX_CHANNEL_LEN = Inr ()"

fun datagram_ok :: "Datagram \<Rightarrow> bool" where
  "datagram_ok (Whole sequence f) \<longleftrightarrow> name_ok (channel f)"
| "datagram_ok (DFragment fr) \<longleftrightarrow> unat (fr_total fr) \<le> MAX_MESSAGE_LEN \<and>
     (case fr_channel fr of None \<Rightarrow> fr_index fr \<noteq> 0 | Some ch \<Rightarrow> fr_index fr = 0 \<and> name_ok ch)"

lemma udpm_decode_short:
  assumes "udpm_decode d = Inr x"
  shows "8 \<le> length d" and "field32 d 0 = MAGIC_SHORT \<or> field32 d 0 = MAGIC_LONG \<and> 20 \<le> length d"
  using assms
  by (auto simp: udpm_decode_def reader_eqs field32_def split: if_splits)

lemma udpm_decode_sound:
  assumes dec: "udpm_decode d = Inr x"
  shows "datagram_ok x \<and> datagram_bytes x = d"
proof (cases "field32 d 0 = MAGIC_SHORT")
  case True
  from udpm_decode_short(1) [OF dec] have len: "8 \<le> length d" .
  with True dec obtain ch r where rc: "reader_channel \<lparr>data = d, pos = 8\<rparr> = Inr (ch, r)"
    and x: "x = Whole (field32 d 4) \<lparr>channel = ch, payload = fst (reader_rest r)\<rparr>"
    by (auto simp: udpm_decode_def reader_new_def read_field32 and_then_eq_Inr)
  note R = reader_channel_sound [OF rc]
  have "d = take 4 d @ take 4 (drop 4 d) @ drop 8 d"
    by (metis append_take_drop_id drop_drop numeral_Bit0)
  moreover have "take 4 d = to_be_bytes MAGIC_SHORT" using field32_bytes [of 0 d] len True by simp
  moreover have "take 4 (drop 4 d) = to_be_bytes (field32 d 4)" using field32_bytes [of 4 d] len by simp
  moreover have "drop 8 d = as_bytes ch @ 0 # fst (reader_rest r)"
    using R(3,4) by (simp add: reader_rest_def)
  ultimately show ?thesis using R(1,2) by (simp add: x name_ok_def)
next
  case False
  with udpm_decode_short(2) [OF dec] have magic: "field32 d 0 = MAGIC_LONG" and len: "20 \<le> length d"
    by simp_all
  define fr0 where "fr0 = \<lparr>fr_sequence = field32 d 4, fr_total = field32 d 8, fr_offset = field32 d 12,
    fr_index = field16 d 16, fr_count = field16 d 18, fr_channel = None, fr_payload = drop 20 d\<rparr>"
  have "d = take 4 d @ take 4 (drop 4 d) @ take 4 (drop 8 d) @ take 4 (drop 12 d) @ take 2 (drop 16 d) @
      take 2 (drop 18 d) @ drop 20 d"
    using take_add [of 4 4 d] take_add [of 8 4 d] take_add [of 12 4 d] take_add [of 16 2 d]
      take_add [of 18 2 d] append_take_drop_id [of 20 d] by simp
  then have bytes: "d = to_be_bytes MAGIC_LONG @ to_be_bytes (field32 d 4) @ to_be_bytes (field32 d 8) @
      to_be_bytes (field32 d 12) @ to_be_bytes (field16 d 16) @ to_be_bytes (field16 d 18) @ drop 20 d"
    using len magic field32_bytes [of 0 d] field32_bytes [of 4 d] field32_bytes [of 8 d]
      field32_bytes [of 12 d] field16_bytes [of 16 d] field16_bytes [of 18 d] by simp
  have dec': "(if unat (field32 d 8) > MAX_MESSAGE_LEN then Inl (MessageTooLarge (unat (field32 d 8)))
      else and_then (if field16 d 16 = 0
          then and_then (reader_channel \<lparr>data = d, pos = 20\<rparr>) (\<lambda>(ch, r). Inr (Some ch, r))
          else Inr (None, \<lparr>data = d, pos = 20\<rparr>)) (\<lambda>(ch, r).
        Inr (DFragment (fr0\<lparr>fr_channel := ch, fr_payload := fst (reader_rest r)\<rparr>)))) = Inr x"
    using dec False magic len
    by (simp add: udpm_decode_def reader_new_def read_field32 read_field16 fr0_def split: if_splits)
  then have tot: "unat (field32 d 8) \<le> MAX_MESSAGE_LEN" by (simp split: if_splits)
  show ?thesis
  proof (cases "field16 d 16 = 0")
    case True
    with dec' tot obtain ch r where rc: "reader_channel \<lparr>data = d, pos = 20\<rparr> = Inr (ch, r)"
      and x: "x = DFragment (fr0\<lparr>fr_channel := Some ch, fr_payload := fst (reader_rest r)\<rparr>)"
      by (auto simp: and_then_eq_Inr split: if_splits)
    note R = reader_channel_sound [OF rc]
    have "drop 20 d = as_bytes ch @ 0 # fst (reader_rest r)"
      using R(3,4) by (simp add: reader_rest_def)
    with bytes R(1,2) tot True show ?thesis by (simp add: x fr0_def name_ok_def)
  next
    case False
    with dec' tot have x: "x = DFragment fr0" by (simp add: reader_rest_def fr0_def)
    with bytes tot False show ?thesis by (simp add: fr0_def)
  qed
qed

end
