(* ===== verification/OrdMap.thy ===== *)
theory OrdMap
  imports Main
begin

text \<open>
  Ordered maps: the interface of \<open>alloc::collections::BTreeMap\<close> that the crate uses (\<open>get\<close>,
  \<open>insert\<close>, \<open>remove\<close>, iteration in the order of the keys, \<open>len\<close>), as the locale
  \<open>ordered_map\<close>, and a model of it as an association list in strict key order. The facts on
  counting and summing over a map are proved in the locale and used through its interpretation
  \<open>bt\<close>.
\<close>

section \<open>The interface\<close>

locale ordered_map =
  fixes empty :: "'m"
    and get :: "'m \<Rightarrow> 'k::linorder \<Rightarrow> 'v option"
    and insert :: "'k \<Rightarrow> 'v \<Rightarrow> 'm \<Rightarrow> 'm"
    and remove :: "'k \<Rightarrow> 'm \<Rightarrow> 'm"
    and entries :: "'m \<Rightarrow> ('k \<times> 'v) list"
    and ok :: "'m \<Rightarrow> bool"
  assumes ok_empty: "ok empty"
    and ok_insert: "ok m \<Longrightarrow> ok (insert k v m)"
    and ok_remove: "ok m \<Longrightarrow> ok (remove k m)"
    and get_empty: "get empty k = None"
    and get_insert: "ok m \<Longrightarrow> get (insert k v m) x = (if x = k then Some v else get m x)"
    and get_remove: "ok m \<Longrightarrow> get (remove k m) x = (if x = k then None else get m x)"
    and entries_get: "ok m \<Longrightarrow> (k, v) \<in> set (entries m) \<longleftrightarrow> get m k = Some v"
    and entries_sorted: "ok m \<Longrightarrow> sorted_wrt (<) (map fst (entries m))"
begin

lemma entries_distinct: "ok m \<Longrightarrow> distinct (map fst (entries m))"
  using entries_sorted strict_sorted_iff by blast

lemma entries_distinct_pairs: "ok m \<Longrightarrow> distinct (entries m)"
  using entries_distinct by (simp add: distinct_map)

definition size_of :: "'m \<Rightarrow> nat" where
  "size_of m = length (entries m)"

definition weigh :: "('v \<Rightarrow> nat) \<Rightarrow> 'm \<Rightarrow> nat" where
  "weigh w m = (\<Sum>(k, v)\<leftarrow>entries m. w v)"

lemma weigh_sum: "ok m \<Longrightarrow> weigh w m = (\<Sum>(k, v)\<in>set (entries m). w v)"
  unfolding weigh_def by (rule sum_list_distinct_conv_sum_set [OF entries_distinct_pairs])

lemma size_of_weigh: "size_of m = weigh (\<lambda>_. 1) m"
proof -
  have "length xs = (\<Sum>(k, v)\<leftarrow>xs. 1)" for xs :: "('k \<times> 'v) list" by (induction xs) auto
  then show ?thesis by (simp only: size_of_def weigh_def)
qed

lemma entries_insert_new:
  "ok m \<Longrightarrow> get m k = None \<Longrightarrow> set (entries (insert k v m)) = Set.insert (k, v) (set (entries m))"
  by (auto simp: entries_get ok_insert get_insert split: if_splits)

lemma entries_remove:
  "ok m \<Longrightarrow> set (entries (remove k m)) = {(x, v) \<in> set (entries m). x \<noteq> k}"
  by (auto simp: entries_get ok_remove get_remove split: if_splits)

lemma weigh_insert_new:
  assumes m: "ok m" and new: "get m k = None"
  shows "weigh w (insert k v m) = weigh w m + w v"
proof -
  have "(k, v) \<notin> set (entries m)" using m new by (simp add: entries_get)
  then show ?thesis
    using m new by (simp add: weigh_sum ok_insert entries_insert_new add.commute)
qed

lemma weigh_remove:
  assumes m: "ok m" and old: "get m k = Some v"
  shows "weigh w (remove k m) + w v = weigh w m"
proof -
  have kv: "(k, v) \<in> set (entries m)" using m old by (simp add: entries_get)
  have "set (entries (remove k m)) = set (entries m) - {(k, v)}"
    using m old by (auto simp: entries_remove entries_get)
  then have "weigh w (remove k m) = (\<Sum>(k, v)\<in>set (entries m) - {(k, v)}. w v)"
    using m by (simp add: weigh_sum ok_remove)
  with kv m show ?thesis by (simp add: weigh_sum sum.remove [OF _ kv])
qed

lemma weigh_insert_old:
  assumes m: "ok m" and old: "get m k = Some v"
  shows "weigh w (insert k v' m) + w v = weigh w m + w v'"
proof -
  let ?r = "remove k m"
  have r: "ok ?r" "get ?r k = None" using m by (simp_all add: ok_remove get_remove)
  have "set (entries (insert k v' m)) = set (entries (insert k v' ?r))"
    using m r by (auto simp: entries_get ok_insert get_insert get_remove split: if_splits)
  then have "weigh w (insert k v' m) = weigh w (insert k v' ?r)"
    using m r by (simp add: weigh_sum ok_insert)
  also have "\<dots> = weigh w ?r + w v'" by (rule weigh_insert_new [OF r])
  finally show ?thesis using weigh_remove [OF m old, of w] by simp
qed

lemmas size_insert_new = weigh_insert_new [where w = "\<lambda>_. 1", folded size_of_weigh]
lemmas size_insert_old = weigh_insert_old [where w = "\<lambda>_. 1", folded size_of_weigh]
lemmas size_remove = weigh_remove [where w = "\<lambda>_. 1", folded size_of_weigh]

lemma weigh_ge: "ok m \<Longrightarrow> get m k = Some v \<Longrightarrow> w v \<le> weigh w m"
  using weigh_remove [of m k v w] by simp

lemma size_of_0: "ok m \<Longrightarrow> size_of m = 0 \<longleftrightarrow> (\<forall>k. get m k = None)"
proof -
  assume m: "ok m"
  have "size_of m = 0 \<longleftrightarrow> set (entries m) = {}" by (simp add: size_of_def)
  also have "\<dots> \<longleftrightarrow> (\<forall>k. get m k = None)"
    using m entries_get by (metis all_not_in_conv not_None_eq surj_pair)
  finally show ?thesis .
qed

lemma size_of_card: "ok m \<Longrightarrow> size_of m = card {k. get m k \<noteq> None}"
proof -
  assume m: "ok m"
  have "set (map fst (entries m)) = {k. get m k \<noteq> None}"
    using entries_get [OF m] by force
  moreover have "card (set (map fst (entries m))) = size_of m"
    using distinct_card [OF entries_distinct [OF m]] by (simp add: size_of_def)
  ultimately show ?thesis by simp
qed

lemma size_of_le_1:
  assumes m: "ok m" and only: "\<forall>x. get m x \<noteq> None \<longrightarrow> x = k"
  shows "size_of m \<le> 1"
proof -
  from only have "{x. get m x \<noteq> None} \<subseteq> {k}" by auto
  then have "card {x. get m x \<noteq> None} \<le> card {k}" by (rule card_mono [rotated]) simp
  with m show ?thesis by (simp add: size_of_card)
qed

text \<open>The keys in their order are known from the domain.\<close>

lemma keys_unique:
  assumes "ok m" and "sorted_wrt (<) ks" and "\<And>k. k \<in> set ks \<longleftrightarrow> get m k \<noteq> None"
  shows "map fst (entries m) = ks"
proof -
  have "set (map fst (entries m)) = set ks"
  proof (rule set_eqI)
    fix k
    have "k \<in> set (map fst (entries m)) \<longleftrightarrow> (\<exists>v. get m k = Some v)"
      using entries_get [OF assms(1)] by force
    then show "k \<in> set (map fst (entries m)) \<longleftrightarrow> k \<in> set ks" using assms(3) by auto
  qed
  then show ?thesis using assms(2) entries_sorted [OF assms(1)] strict_sorted_equal by blast
qed

lemma entries_map:
  assumes "ok m"
  shows "entries m = map (\<lambda>k. (k, the (get m k))) (map fst (entries m))"
proof -
  have "map ((\<lambda>k. (k, the (get m k))) \<circ> fst) (entries m) = entries m"
    using entries_get [OF assms] by (intro map_idI) auto
  then show ?thesis by simp
qed

end

section \<open>Association lists in key order\<close>

type_synonym ('k, 'v) btree = "('k \<times> 'v) list"

definition bt_get :: "('k, 'v) btree \<Rightarrow> 'k \<Rightarrow> 'v option" where
  "bt_get = map_of"

fun bt_insert :: "'k::linorder \<Rightarrow> 'v \<Rightarrow> ('k, 'v) btree \<Rightarrow> ('k, 'v) btree" where
  "bt_insert k v [] = [(k, v)]"
| "bt_insert k v ((x, y) # m) =
     (if k < x then (k, v) # (x, y) # m
      else if k = x then (k, v) # m
      else (x, y) # bt_insert k v m)"

fun bt_remove :: "'k::linorder \<Rightarrow> ('k, 'v) btree \<Rightarrow> ('k, 'v) btree" where
  "bt_remove k [] = []"
| "bt_remove k ((x, y) # m) = (if k = x then m else (x, y) # bt_remove k m)"

definition bt_entries :: "('k, 'v) btree \<Rightarrow> ('k \<times> 'v) list" where
  "bt_entries m = m"

definition bt_values :: "('k, 'v) btree \<Rightarrow> 'v list" where
  "bt_values m = map snd m"

definition bt_len :: "('k, 'v) btree \<Rightarrow> nat" where
  "bt_len m = length m"

definition bt_ok :: "('k::linorder, 'v) btree \<Rightarrow> bool" where
  "bt_ok m \<longleftrightarrow> sorted_wrt (<) (map fst m)"

lemma set_fst_bt_insert: "fst ` set (bt_insert k v m) = insert k (fst ` set m)"
  by (induction k v m rule: bt_insert.induct) auto

lemma set_bt_remove_subset: "set (bt_remove k m) \<subseteq> set m"
  by (induction k m rule: bt_remove.induct) auto

lemma bt_ok_Cons: "bt_ok ((x, y) # m) \<longleftrightarrow> (\<forall>k \<in> fst ` set m. x < k) \<and> bt_ok m"
  by (simp add: bt_ok_def)

lemma bt_ok_insert: "bt_ok m \<Longrightarrow> bt_ok (bt_insert k v m)"
  by (induction k v m rule: bt_insert.induct)
    (auto simp: bt_ok_Cons set_fst_bt_insert bt_ok_def [of "[]"] dest: order.strict_trans)

lemma bt_ok_remove: "bt_ok m \<Longrightarrow> bt_ok (bt_remove k m)"
  using set_bt_remove_subset
  by (induction k m rule: bt_remove.induct) (fastforce simp: bt_ok_Cons)+

lemma bt_get_insert: "bt_get (bt_insert k v m) x = (if x = k then Some v else bt_get m x)"
  by (induction k v m rule: bt_insert.induct) (auto simp: bt_get_def)

lemma bt_get_absent: "k \<notin> fst ` set m \<Longrightarrow> bt_get m k = None"
  by (simp add: bt_get_def map_of_eq_None_iff)

lemma bt_get_remove: "bt_ok m \<Longrightarrow> bt_get (bt_remove k m) x = (if x = k then None else bt_get m x)"
proof (induction k m rule: bt_remove.induct)
  case (1 k)
  then show ?case by (simp add: bt_get_def)
next
  case (2 k a b m)
  then have "a \<notin> fst ` set m" by (auto simp: bt_ok_Cons)
  then have "bt_get m a = None" by (rule bt_get_absent)
  with 2 show ?case by (auto simp: bt_get_def bt_ok_Cons)
qed

interpretation bt: ordered_map "[]" bt_get bt_insert bt_remove bt_entries bt_ok
proof unfold_locales
  show "bt_ok ([] :: ('a \<times> 'b) list)" by (simp add: bt_ok_def)
next
  fix m :: "('a \<times> 'b) list" and k v
  assume "bt_ok m"
  then have "distinct (map fst m)" by (simp add: bt_ok_def strict_sorted_iff)
  then show "(k, v) \<in> set (bt_entries m) \<longleftrightarrow> bt_get m k = Some v"
    by (simp add: bt_entries_def bt_get_def)
qed (simp_all add: bt_ok_insert bt_ok_remove bt_get_insert bt_get_remove bt_get_absent bt_entries_def
    bt_ok_def [symmetric])

lemma bt_len_size: "bt_len m = bt.size_of m"
  by (simp add: bt_len_def bt.size_of_def bt_entries_def)

lemma bt_values_set: "bt_ok m \<Longrightarrow> v \<in> set (bt_values m) \<longleftrightarrow> (\<exists>k. bt_get m k = Some v)"
  using bt.entries_get [of m] by (force simp: bt_values_def bt_entries_def image_iff)

text \<open>\<open>values().find(p)\<close>: the value of the least key that satisfies \<open>p\<close>.\<close>

lemma bt_find_least:
  assumes ok: "bt_ok m" and f: "find P (bt_values m) = Some v"
  obtains k where "bt_get m k = Some v" and "P v"
    and "\<And>k' v'. bt_get m k' = Some v' \<Longrightarrow> P v' \<Longrightarrow> k \<le> k'"
proof -
  from f obtain i where i: "i < length m" "P v" "v = snd (m ! i)" "\<forall>j < i. \<not> P (snd (m ! j))"
    by (auto simp: find_Some_iff bt_values_def)
  let ?k = "fst (m ! i)"
  have get: "bt_get m k = Some v \<longleftrightarrow> (k, v) \<in> set m" for k v
    using bt.entries_get [OF ok] by (simp add: bt_entries_def)
  have "(?k, v) \<in> set m" using i(1,3) by (metis nth_mem prod.collapse)
  moreover have "?k \<le> k'" if "bt_get m k' = Some v'" "P v'" for k' v'
  proof -
    from that(1) get obtain j where j: "j < length m" "m ! j = (k', v')" by (metis in_set_conv_nth)
    with i(4) that(2) have "\<not> j < i" by auto
    then show ?thesis
    proof (cases "j = i")
      case True
      with j show ?thesis by simp
    next
      case False
      with \<open>\<not> j < i\<close> have "i < j" by simp
      with ok j i(1) have "map fst m ! i < map fst m ! j"
        unfolding bt_ok_def by (intro sorted_wrt_nth_less) simp_all
      with j i(1) show ?thesis by simp
    qed
  qed
  ultimately show ?thesis using get i(2) that by blast
qed

lemma bt_find_None: "bt_ok m \<Longrightarrow> find P (bt_values m) = None \<longleftrightarrow> (\<forall>k v. bt_get m k = Some v \<longrightarrow> \<not> P v)"
  using bt_values_set [of m] by (auto simp: find_None_iff)

end
