(* ===== verification/Reassembler.thy ===== *)
theory Reassembler
  imports Udpm OrdMap "HOL-Library.Product_Lexorder" "HOL-Library.Multiset"
begin

text \<open>
  \<open>wire::udpm::Reassembler\<close>: the messages that are part-way put together, in two ordered maps (by
  key, and by age), with a budget of messages and of bytes.

  The clock and the count of evicted messages are \<open>u64\<close>s that go up by one for a fragment or a
  message; they are \<open>nat\<close> here, since \<open>2 ^ 64\<close> fragments do not come. \<open>held\<close> is a \<open>usize\<close>. The
  order \<open>sort_unstable_by_key\<close> gives to pieces with one start is not fixed by its documentation, so
  the sort is an argument \<open>srt\<close> of the model and \<open>sorts_pieces\<close> is what is documented of it.
  \<open>None\<close> of \<open>feed\<close> is a panic (a \<open>debug_assert\<close>, an \<open>expect\<close>, a slice out of range) or an
  eviction loop that does not end.
\<close>

section \<open>State\<close>

definition MAX_FRAGMENT_BUFFERS :: nat where "MAX_FRAGMENT_BUFFERS = 1000"

text \<open>\<open>1 << 24\<close>.\<close>

definition MAX_FRAGMENT_BYTES :: nat where "MAX_FRAGMENT_BYTES = 16777216"

record Piece =
  pc_start :: u32
  pc_at :: u32
  pc_len :: u32

text \<open>\<open>size_of::<(u16, Piece)>()\<close> is 16 bytes, and two \<open>usize\<close>s are 16 more.\<close>

definition PIECE_COST :: nat where "PIECE_COST = 16 + 2 * 8"

record Partial =
  pt_channel :: "string option"
  pt_total :: u32
  pt_count :: u16
  pt_arrived :: bytes
  pt_pieces :: "(u16, Piece) btree"
  pt_touched :: nat

record 'k Reassembler =
  ra_partial :: "('k \<times> u32, Partial) btree"
  ra_by_age :: "(nat, 'k \<times> u32) btree"
  ra_held :: nat
  ra_clock :: nat
  ra_evicted :: nat

definition reassembler_new :: "'k Reassembler" where
  "reassembler_new = \<lparr>ra_partial = [], ra_by_age = [], ra_held = 0, ra_clock = 0, ra_evicted = 0\<rparr>"

definition reassembler_evicted :: "'k Reassembler \<Rightarrow> nat" where
  "reassembler_evicted s = ra_evicted s"

definition reassembler_in_flight :: "'k Reassembler \<Rightarrow> nat" where
  "reassembler_in_flight s = bt_len (ra_partial s)"

section \<open>Operations\<close>

definition partial_cost :: "Partial \<Rightarrow> nat" where
  "partial_cost p = length (pt_arrived p) + bt_len (pt_pieces p) * PIECE_COST"

definition reassembler_remove ::
    "'k::linorder Reassembler \<Rightarrow> 'k \<times> u32 \<Rightarrow> Partial option \<times> 'k Reassembler" where
  "reassembler_remove s key =
     (case bt_get (ra_partial s) key of
        None \<Rightarrow> (None, s)
      | Some p \<Rightarrow>
          (Some p, s\<lparr>ra_partial := bt_remove key (ra_partial s),
                     ra_by_age := bt_remove (pt_touched p) (ra_by_age s),
                     ra_held := ra_held s - partial_cost p\<rparr>))"

text \<open>The \<open>while\<close> loop of \<open>make_space\<close>; \<open>None\<close> is a loop that does not end.\<close>

definition over_budget :: "'k Reassembler \<Rightarrow> nat \<Rightarrow> bool" where
  "over_budget s incoming \<longleftrightarrow>
     bt_len (ra_partial s) \<ge> MAX_FRAGMENT_BUFFERS \<or>
     ra_held s + incoming > MAX_FRAGMENT_BYTES \<and> ra_partial s \<noteq> []"

partial_function (option) make_space ::
    "'k::linorder Reassembler \<Rightarrow> 'k \<times> u32 \<Rightarrow> nat \<Rightarrow> 'k Reassembler option" where
  "make_space s keep incoming =
     (if over_budget s incoming then
        (case find (\<lambda>key. key \<noteq> keep) (bt_values (ra_by_age s)) of
           None \<Rightarrow> Some s
         | Some oldest \<Rightarrow>
             make_space
               (let s' = snd (reassembler_remove s oldest) in s'\<lparr>ra_evicted := ra_evicted s' + 1\<rparr>)
               keep incoming)
      else Some s)"

text \<open>The tests of a fragment on its own, in the order of the code.\<close>

definition fragment_refused :: "Fragment \<Rightarrow> WireError option" where
  "fragment_refused fr =
     (let inconsistent = InconsistentFragment (fr_sequence fr) in
      if unat (fr_total fr) > MAX_MESSAGE_LEN then Some (MessageTooLarge (unat (fr_total fr)))
      else if fr_count fr = 0 \<or> fr_index fr \<ge> fr_count fr then Some inconsistent
      else if unat (fr_count fr) > max (unat (fr_total fr)) 1 then Some inconsistent
      else if (case checked_add_usize (unat (fr_offset fr)) (length (fr_payload fr)) of
                 None \<Rightarrow> True | Some fin \<Rightarrow> fin > unat (fr_total fr)) then Some inconsistent
      else None)"

definition disagrees :: "'k::linorder Reassembler \<Rightarrow> 'k \<times> u32 \<Rightarrow> Fragment \<Rightarrow> bool" where
  "disagrees s key fr =
     (case bt_get (ra_partial s) key of
        None \<Rightarrow> False
      | Some p \<Rightarrow> pt_total p \<noteq> fr_total fr \<or> pt_count p \<noteq> fr_count fr)"

text \<open>The clock goes up, and the key takes its new place by age.\<close>

definition touch :: "'k::linorder Reassembler \<Rightarrow> 'k \<times> u32 \<Rightarrow> 'k Reassembler" where
  "touch s key =
     (let now = ra_clock s + 1;
          aged = (case bt_get (ra_partial s) key of
                    None \<Rightarrow> ra_by_age s | Some p \<Rightarrow> bt_remove (pt_touched p) (ra_by_age s))
      in s\<lparr>ra_clock := now, ra_by_age := bt_insert now key aged\<rparr>)"

definition entry_or_insert :: "'k::linorder Reassembler \<Rightarrow> 'k \<times> u32 \<Rightarrow> Fragment \<Rightarrow> nat \<Rightarrow> Partial" where
  "entry_or_insert s key fr now =
     (case bt_get (ra_partial s) key of
        Some p \<Rightarrow> p
      | None \<Rightarrow> \<lparr>pt_channel = None, pt_total = fr_total fr, pt_count = fr_count fr,
                 pt_arrived = [], pt_pieces = [], pt_touched = now\<rparr>)"

text \<open>\<open>entry.touched = now\<close> and \<open>get_or_insert_with\<close> of the channel.\<close>

definition entry_named :: "Partial \<Rightarrow> Fragment \<Rightarrow> nat \<Rightarrow> Partial" where
  "entry_named p fr now =
     p\<lparr>pt_touched := now,
       pt_channel := (case fr_channel fr of
                        None \<Rightarrow> pt_channel p
                      | Some ch \<Rightarrow> (case pt_channel p of None \<Rightarrow> Some ch | Some old \<Rightarrow> Some old))\<rparr>"

definition entry_add_piece :: "Partial \<Rightarrow> Fragment \<Rightarrow> Partial" where
  "entry_add_piece p fr =
     p\<lparr>pt_pieces := bt_insert (fr_index fr)
         \<lparr>pc_start = fr_offset fr, pc_at = of_nat (length (pt_arrived p)),
          pc_len = of_nat (length (fr_payload fr))\<rparr> (pt_pieces p),
       pt_arrived := pt_arrived p @ fr_payload fr\<rparr>"

text \<open>The loop over the sorted pieces: \<open>Some None\<close> is a piece that does not start where the
  payload so far ends.\<close>

fun gather :: "bytes \<Rightarrow> Piece list \<Rightarrow> bytes \<Rightarrow> bytes option option" where
  "gather arrived [] acc = Some (Some acc)"
| "gather arrived (p # ps) acc =
     (if unat (pc_start p) \<noteq> length acc then Some None
      else case slice_range arrived (unat (pc_at p)) (unat (pc_at p) + unat (pc_len p)) of
        None \<Rightarrow> None
      | Some bs \<Rightarrow> gather arrived ps (acc @ bs))"

definition assemble :: "(Piece list \<Rightarrow> Piece list) \<Rightarrow> Partial \<Rightarrow> Frame option option" where
  "assemble srt p =
     (if length (pt_arrived p) \<noteq> unat (pt_total p) then Some None
      else case gather (pt_arrived p) (srt (bt_values (pt_pieces p))) [] of
        None \<Rightarrow> None
      | Some None \<Rightarrow> Some None
      | Some (Some pl) \<Rightarrow>
          if length pl \<noteq> unat (pt_total p) then Some None
          else case pt_channel p of
            None \<Rightarrow> Some None
          | Some ch \<Rightarrow> Some (Some \<lparr>channel = ch, payload = pl\<rparr>))"

text \<open>The part of \<open>feed\<close> behind \<open>make_space\<close>: store the piece, and put the message together when
  it is the last one.\<close>

definition feed_store ::
    "(Piece list \<Rightarrow> Piece list) \<Rightarrow> 'k::linorder Reassembler \<Rightarrow> 'k \<times> u32 \<Rightarrow> Fragment \<Rightarrow>
     ('k Reassembler \<times> (WireError + Frame option)) option" where
  "feed_store srt s key fr =
     (let now = ra_clock s;
          inconsistent = InconsistentFragment (fr_sequence fr);
          entry = entry_named (entry_or_insert s key fr now) fr now;
          vacant = (bt_get (pt_pieces entry) (fr_index fr) = None)
      in if vacant \<and> length (pt_arrived entry) + length (fr_payload fr) > unat (pt_total entry) then
           Some (s\<lparr>ra_partial := bt_insert key entry (ra_partial s)\<rparr>, Inl inconsistent)
         else
           let entry = (if vacant then entry_add_piece entry fr else entry);
               s = s\<lparr>ra_partial := bt_insert key entry (ra_partial s),
                     ra_held := (if vacant then ra_held s + (length (fr_payload fr) + PIECE_COST)
                                 else ra_held s)\<rparr>
           in if bt_len (pt_pieces entry) < unat (pt_count entry) then Some (s, Inr None)
              else case reassembler_remove s key of
                (None, _) \<Rightarrow> None
              | (Some p, s) \<Rightarrow>
                  (case assemble srt p of
                     None \<Rightarrow> None
                   | Some None \<Rightarrow> Some (s, Inl inconsistent)
                   | Some (Some frame) \<Rightarrow> Some (s, Inr (Some frame))))"

definition feed ::
    "(Piece list \<Rightarrow> Piece list) \<Rightarrow> 'k::linorder Reassembler \<Rightarrow> 'k \<Rightarrow> Fragment \<Rightarrow>
     ('k Reassembler \<times> (WireError + Frame option)) option" where
  "feed srt s source fr =
     (if bt_len (ra_by_age s) \<noteq> bt_len (ra_partial s) then None
      else
        let key = (source, fr_sequence fr) in
        case fragment_refused fr of
          Some e \<Rightarrow> Some (s, Inl e)
        | None \<Rightarrow>
            if disagrees s key fr then
              Some (snd (reassembler_remove s key), Inl (InconsistentFragment (fr_sequence fr)))
            else
              Option.bind (make_space (touch s key) key (length (fr_payload fr)))
                (\<lambda>s. feed_store srt s key fr))"

text \<open>What the documentation of \<open>sort_unstable_by_key\<close> promises.\<close>

definition sorts_pieces :: "(Piece list \<Rightarrow> Piece list) \<Rightarrow> bool" where
  "sorts_pieces srt \<longleftrightarrow>
     (\<forall>ps. mset (srt ps) = mset ps \<and> sorted (map pc_start (srt ps)))"

section \<open>Invariant\<close>

declare split_paired_All [simp del] split_paired_Ex [simp del]

text \<open>
  \<open>partial_ok\<close>: the pieces of one message are slices of what arrived, add up to it, and are fewer
  than the message has. \<open>ages_ok s now key\<close> ties the two maps together: every message but \<open>key\<close> has
  exactly one place by age, at its own \<open>touched\<close>, and \<open>key\<close> has the place \<open>now\<close>. In a state between two calls
  \<open>reassembler_ok\<close> says it of every message.
\<close>

definition pieces_len :: "Partial \<Rightarrow> nat" where
  "pieces_len p = bt.weigh (\<lambda>pc. unat (pc_len pc)) (pt_pieces p)"

definition piece_in :: "bytes \<Rightarrow> Piece \<Rightarrow> bool" where
  "piece_in arrived pc \<longleftrightarrow> unat (pc_at pc) + unat (pc_len pc) \<le> length arrived"

definition partial_wf :: "Partial \<Rightarrow> bool" where
  "partial_wf p \<longleftrightarrow>
     bt_ok (pt_pieces p) \<and> unat (pt_total p) \<le> MAX_MESSAGE_LEN \<and>
     length (pt_arrived p) \<le> unat (pt_total p) \<and> pieces_len p = length (pt_arrived p) \<and>
     (\<forall>i pc. bt_get (pt_pieces p) i = Some pc \<longrightarrow> i < pt_count p \<and> piece_in (pt_arrived p) pc)"

definition partial_ok :: "Partial \<Rightarrow> bool" where
  "partial_ok p \<longleftrightarrow> partial_wf p \<and> bt_len (pt_pieces p) < unat (pt_count p)"

definition maps_ok :: "'k::linorder Reassembler \<Rightarrow> bool" where
  "maps_ok s \<longleftrightarrow> bt_ok (ra_partial s) \<and> bt_ok (ra_by_age s) \<and>
     ra_held s = bt.weigh partial_cost (ra_partial s) \<and>
     (\<forall>k p. bt_get (ra_partial s) k = Some p \<longrightarrow> partial_ok p)"

definition reassembler_ok :: "'k::linorder Reassembler \<Rightarrow> bool" where
  "reassembler_ok s \<longleftrightarrow> maps_ok s \<and>
     (\<forall>t k. bt_get (ra_by_age s) t = Some k \<longleftrightarrow>
        (\<exists>p. bt_get (ra_partial s) k = Some p \<and> pt_touched p = t)) \<and>
     (\<forall>k p. bt_get (ra_partial s) k = Some p \<longrightarrow> pt_touched p \<le> ra_clock s) \<and>
     bt_len (ra_partial s) \<le> MAX_FRAGMENT_BUFFERS"

text \<open>The state between \<open>touch\<close> and the store: the place of \<open>key\<close> is the newest one, and its entry
  may not be there yet.\<close>

definition touched_ok :: "'k::linorder Reassembler \<Rightarrow> 'k \<times> u32 \<Rightarrow> bool" where
  "touched_ok s key \<longleftrightarrow> maps_ok s \<and>
     (\<forall>t k. bt_get (ra_by_age s) t = Some k \<longleftrightarrow>
        (t = ra_clock s \<and> k = key) \<or>
        (k \<noteq> key \<and> (\<exists>p. bt_get (ra_partial s) k = Some p \<and> pt_touched p = t))) \<and>
     (\<forall>k p. bt_get (ra_partial s) k = Some p \<longrightarrow> pt_touched p < ra_clock s) \<and>
     bt_len (ra_partial s) \<le> MAX_FRAGMENT_BUFFERS"

lemma reassembler_new_ok: "reassembler_ok reassembler_new"
  by (simp add: reassembler_ok_def maps_ok_def reassembler_new_def bt.ok_empty bt.get_empty
      bt.weigh_def bt_entries_def bt_len_def)

lemma by_age_size:
  assumes "reassembler_ok s"
  shows "bt_len (ra_by_age s) = bt_len (ra_partial s)"
proof -
  have ok: "bt_ok (ra_partial s)" "bt_ok (ra_by_age s)"
    and ages: "\<And>t k. bt_get (ra_by_age s) t = Some k \<longleftrightarrow>
        (\<exists>p. bt_get (ra_partial s) k = Some p \<and> pt_touched p = t)"
    using assms by (auto simp: reassembler_ok_def maps_ok_def)
  let ?K = "{k. bt_get (ra_partial s) k \<noteq> None}" and ?T = "{t. bt_get (ra_by_age s) t \<noteq> None}"
  have "bij_betw (\<lambda>k. pt_touched (the (bt_get (ra_partial s) k))) ?K ?T"
  proof (rule bij_betwI')
    fix k k' assume kk: "k \<in> ?K" "k' \<in> ?K"
    then obtain p p' where p: "bt_get (ra_partial s) k = Some p" "bt_get (ra_partial s) k' = Some p'"
      by auto
    then have "bt_get (ra_by_age s) (pt_touched p) = Some k"
      and "bt_get (ra_by_age s) (pt_touched p') = Some k'" using ages by blast+
    then show "(pt_touched (the (bt_get (ra_partial s) k)) = pt_touched (the (bt_get (ra_partial s) k')))
      = (k = k')" using p by auto
  next
    fix k assume "k \<in> ?K"
    then obtain p where p: "bt_get (ra_partial s) k = Some p" by auto
    then have "bt_get (ra_by_age s) (pt_touched p) = Some k" using ages by blast
    with p show "pt_touched (the (bt_get (ra_partial s) k)) \<in> ?T" by simp
  next
    fix t assume "t \<in> ?T"
    then obtain k where "bt_get (ra_by_age s) t = Some k" by auto
    with ages obtain p where "bt_get (ra_partial s) k = Some p" "pt_touched p = t" by blast
    then show "\<exists>k \<in> ?K. t = pt_touched (the (bt_get (ra_partial s) k))"
      by (intro bexI [of _ k]) simp_all
  qed
  then have "card ?K = card ?T" by (rule bij_betw_same_card)
  with ok show ?thesis by (simp add: bt_len_size bt.size_of_card)
qed

section \<open>Each step keeps the invariant\<close>

lemma remove_fields:
  "ra_clock (snd (reassembler_remove s key)) = ra_clock s"
  "ra_evicted (snd (reassembler_remove s key)) = ra_evicted s"
  "fst (reassembler_remove s key) = bt_get (ra_partial s) key"
  by (simp_all add: reassembler_remove_def split: option.splits)

lemma remove_get:
  assumes "bt_ok (ra_partial s)"
  shows "bt_get (ra_partial (snd (reassembler_remove s key))) k =
    (if k = key then None else bt_get (ra_partial s) k)"
  using assms by (auto simp: reassembler_remove_def bt.get_remove split: option.splits)

lemma remove_maps_ok:
  assumes "maps_ok s"
  shows "maps_ok (snd (reassembler_remove s key))"
proof (cases "bt_get (ra_partial s) key")
  case None
  with assms show ?thesis by (simp add: reassembler_remove_def)
next
  case (Some p)
  from assms have ok: "bt_ok (ra_partial s)" by (simp add: maps_ok_def)
  from bt.weigh_remove [OF ok Some, of partial_cost] assms Some show ?thesis
    by (auto simp: reassembler_remove_def maps_ok_def bt.ok_remove bt.get_remove split: if_splits)
qed

lemma remove_size:
  assumes "bt_ok (ra_partial s)"
  shows "bt_len (ra_partial (snd (reassembler_remove s key)))
    = bt_len (ra_partial s) - (if bt_get (ra_partial s) key = None then 0 else 1)"
proof (cases "bt_get (ra_partial s) key")
  case None
  then show ?thesis by (simp add: reassembler_remove_def)
next
  case (Some p)
  with bt.size_remove [OF assms Some] show ?thesis by (simp add: reassembler_remove_def bt_len_size)
qed

lemma remove_present_size:
  assumes "bt_ok (ra_partial s)" and "bt_get (ra_partial s) key = Some p"
  shows "bt_len (ra_partial (snd (reassembler_remove s key))) + 1 = bt_len (ra_partial s)"
  using bt.size_remove [OF assms] assms(2) by (simp add: reassembler_remove_def bt_len_size)

lemma reassembler_remove_ok:
  assumes "reassembler_ok s"
  shows "reassembler_ok (snd (reassembler_remove s key))"
proof (cases "bt_get (ra_partial s) key")
  case None
  with assms show ?thesis by (simp add: reassembler_remove_def)
next
  case (Some p)
  from assms have m: "maps_ok s" and ok: "bt_ok (ra_partial s)" "bt_ok (ra_by_age s)"
    and ages: "\<And>t k. bt_get (ra_by_age s) t = Some k \<longleftrightarrow>
        (\<exists>p. bt_get (ra_partial s) k = Some p \<and> pt_touched p = t)"
    by (auto simp: reassembler_ok_def maps_ok_def)
  have own: "bt_get (ra_by_age s) (pt_touched p) = Some key" using ages Some by blast
  have "bt_get (ra_by_age (snd (reassembler_remove s key))) t = Some k \<longleftrightarrow>
      (\<exists>q. bt_get (ra_partial (snd (reassembler_remove s key))) k = Some q \<and> pt_touched q = t)" for t k
    using Some ok ages [of t k] own by (auto simp: reassembler_remove_def bt.get_remove)
  then show ?thesis
    using assms remove_maps_ok [OF m, of key] remove_size [OF ok(1), of key] remove_get [OF ok(1), of key]
    by (auto simp: reassembler_ok_def remove_fields split: if_splits)
qed

lemma touched_remove_ok:
  assumes "touched_ok s key" and "old \<noteq> key"
  shows "touched_ok (snd (reassembler_remove s old)) key"
proof (cases "bt_get (ra_partial s) old")
  case None
  with assms show ?thesis by (simp add: reassembler_remove_def)
next
  case (Some p)
  from assms have m: "maps_ok s" and ok: "bt_ok (ra_partial s)" "bt_ok (ra_by_age s)"
    and ages: "\<And>t k. bt_get (ra_by_age s) t = Some k \<longleftrightarrow> (t = ra_clock s \<and> k = key) \<or>
        (k \<noteq> key \<and> (\<exists>p. bt_get (ra_partial s) k = Some p \<and> pt_touched p = t))"
    and lt: "pt_touched p < ra_clock s"
    using Some by (auto simp: touched_ok_def maps_ok_def)
  have own: "bt_get (ra_by_age s) (pt_touched p) = Some old" using ages Some assms(2) by blast
  have "bt_get (ra_by_age (snd (reassembler_remove s old))) t = Some k \<longleftrightarrow>
      (t = ra_clock s \<and> k = key) \<or> (k \<noteq> key \<and>
      (\<exists>q. bt_get (ra_partial (snd (reassembler_remove s old))) k = Some q \<and> pt_touched q = t))" for t k
    using Some ok ages [of t k] own lt assms(2) by (auto simp: reassembler_remove_def bt.get_remove)
  then show ?thesis
    using assms remove_maps_ok [OF m, of old] remove_size [OF ok(1), of old] remove_get [OF ok(1), of old]
    by (auto simp: touched_ok_def remove_fields split: if_splits)
qed

lemma touched_evicted [simp]: "touched_ok (s\<lparr>ra_evicted := n\<rparr>) key = touched_ok s key"
  by (simp add: touched_ok_def maps_ok_def)

lemma touch_fields:
  "ra_partial (touch s key) = ra_partial s" "ra_held (touch s key) = ra_held s"
  "ra_clock (touch s key) = ra_clock s + 1" "ra_evicted (touch s key) = ra_evicted s"
  by (simp_all add: touch_def Let_def)

lemma touch_ok:
  assumes "reassembler_ok s"
  shows "touched_ok (touch s key) key"
proof -
  from assms have m: "maps_ok s" and ok: "bt_ok (ra_partial s)" "bt_ok (ra_by_age s)"
    and ages: "\<And>t k. bt_get (ra_by_age s) t = Some k \<longleftrightarrow>
        (\<exists>p. bt_get (ra_partial s) k = Some p \<and> pt_touched p = t)"
    and le: "\<And>k p. bt_get (ra_partial s) k = Some p \<Longrightarrow> pt_touched p \<le> ra_clock s"
    by (auto simp: reassembler_ok_def maps_ok_def)
  have aged_ok: "bt_ok (ra_by_age (touch s key))"
    using ok by (simp add: touch_def Let_def bt.ok_insert bt.ok_remove split: option.splits)
  have "bt_get (ra_by_age (touch s key)) t = Some k \<longleftrightarrow>
      (t = ra_clock s + 1 \<and> k = key) \<or>
      (k \<noteq> key \<and> (\<exists>p. bt_get (ra_partial s) k = Some p \<and> pt_touched p = t))" for t k
  proof (cases "bt_get (ra_partial s) key")
    case None
    with ok ages [of t k] le [of k] show ?thesis
      by (auto simp: touch_def Let_def bt.get_insert)
  next
    case (Some p)
    then have "bt_get (ra_by_age s) (pt_touched p) = Some key" using ages by blast
    with Some ok ages [of t k] le [of k] show ?thesis
      by (auto simp: touch_def Let_def bt.get_insert bt.get_remove bt.ok_remove)
  qed
  with assms m aged_ok show ?thesis
    by (auto simp: touched_ok_def touch_fields maps_ok_def reassembler_ok_def le_imp_less_Suc)
qed

section \<open>Eviction\<close>

text \<open>
  \<open>evicts s keep n s'\<close>: what \<open>make_space\<close> does. It keeps the invariant and the entry of \<open>keep\<close>; what is
  left was there before; whatever it dropped waited longer than all it kept; and it stops only
  within the budget or with nothing else to drop.
\<close>

definition evicts :: "'k::linorder Reassembler \<Rightarrow> 'k \<times> u32 \<Rightarrow> nat \<Rightarrow> 'k Reassembler \<Rightarrow> bool" where
  "evicts s keep n s' \<longleftrightarrow>
     touched_ok s' keep \<and> ra_clock s' = ra_clock s \<and>
     bt_get (ra_partial s') keep = bt_get (ra_partial s) keep \<and>
     (\<forall>k p. bt_get (ra_partial s') k = Some p \<longrightarrow> bt_get (ra_partial s) k = Some p) \<and>
     (\<forall>k p k' p'. bt_get (ra_partial s) k = Some p \<longrightarrow> bt_get (ra_partial s') k = None \<longrightarrow>
        bt_get (ra_partial s') k' = Some p' \<longrightarrow> k' \<noteq> keep \<longrightarrow> pt_touched p < pt_touched p') \<and>
     ra_evicted s' + bt_len (ra_partial s') = ra_evicted s + bt_len (ra_partial s) \<and>
     (over_budget s n \<or> s' = s) \<and>
     (\<not> over_budget s' n \<or> (\<forall>k. bt_get (ra_partial s') k \<noteq> None \<longrightarrow> k = keep))"

lemma evictsD:
  assumes "evicts s keep n s'"
  shows "touched_ok s' keep" and "ra_clock s' = ra_clock s"
    and "bt_get (ra_partial s') keep = bt_get (ra_partial s) keep"
  by (insert assms, unfold evicts_def) (elim conjE, assumption)+

lemma evicts_refl:
  assumes "touched_ok s keep"
    and "\<not> over_budget s n \<or> (\<forall>k. bt_get (ra_partial s) k \<noteq> None \<longrightarrow> k = keep)"
  shows "evicts s keep n s"
  using assms by (simp add: evicts_def)

lemma oldest_is_oldest:
  assumes t: "touched_ok s keep"
    and f: "find (\<lambda>key. key \<noteq> keep) (bt_values (ra_by_age s)) = Some old"
  obtains p where "old \<noteq> keep" and "bt_get (ra_partial s) old = Some p"
    and "\<And>k q. bt_get (ra_partial s) k = Some q \<Longrightarrow> k \<noteq> keep \<Longrightarrow> k \<noteq> old \<Longrightarrow> pt_touched p < pt_touched q"
proof -
  from t have ok: "bt_ok (ra_by_age s)"
    and ages: "\<And>t k. bt_get (ra_by_age s) t = Some k \<longleftrightarrow> (t = ra_clock s \<and> k = keep) \<or>
        (k \<noteq> keep \<and> (\<exists>p. bt_get (ra_partial s) k = Some p \<and> pt_touched p = t))"
    by (auto simp: touched_ok_def maps_ok_def)
  from bt_find_least [OF ok f] obtain t where t: "bt_get (ra_by_age s) t = Some old" "old \<noteq> keep"
    and least: "\<And>t' k. bt_get (ra_by_age s) t' = Some k \<Longrightarrow> k \<noteq> keep \<Longrightarrow> t \<le> t'" by blast
  from t ages obtain p where p: "bt_get (ra_partial s) old = Some p" "pt_touched p = t" by blast
  have "pt_touched p < pt_touched q"
    if q: "bt_get (ra_partial s) k = Some q" "k \<noteq> keep" "k \<noteq> old" for k q
  proof -
    from q ages have own: "bt_get (ra_by_age s) (pt_touched q) = Some k" by blast
    with least q(2) p(2) have "pt_touched p \<le> pt_touched q" by blast
    moreover have "pt_touched p \<noteq> pt_touched q" using own t(1) p(2) q(3) by auto
    ultimately show ?thesis by simp
  qed
  with p(1) t(2) that show ?thesis by blast
qed

lemma evicts_step:
  assumes t: "touched_ok s keep" and over: "over_budget s n"
    and old: "old \<noteq> keep" "bt_get (ra_partial s) old = Some p"
    and oldest: "\<And>k q. bt_get (ra_partial s) k = Some q \<Longrightarrow> k \<noteq> keep \<Longrightarrow> k \<noteq> old \<Longrightarrow>
        pt_touched p < pt_touched q"
    and e: "evicts ((snd (reassembler_remove s old))\<lparr>ra_evicted := ra_evicted s + 1\<rparr>) keep n s'"
  shows "evicts s keep n s'"
proof -
  let ?r = "snd (reassembler_remove s old)"
  from t have ok: "bt_ok (ra_partial s)" by (simp add: touched_ok_def maps_ok_def)
  note get = remove_get [OF ok, of old]
  have sub: "k \<noteq> old \<and> bt_get (ra_partial s) k = Some q"
    if "bt_get (ra_partial s') k = Some q" for k q
  proof -
    from e that have "bt_get (ra_partial ?r) k = Some q" by (simp add: evicts_def)
    then show ?thesis by (simp add: get split: if_splits)
  qed
  have lru: "pt_touched q < pt_touched q'"
    if "bt_get (ra_partial s) k = Some q" "bt_get (ra_partial s') k = None"
      "bt_get (ra_partial s') k' = Some q'" "k' \<noteq> keep" for k q k' q'
  proof (cases "k = old")
    case True
    with that old(2) sub [OF that(3)] oldest [of k' q'] show ?thesis by simp
  next
    case False
    with that(1) have "bt_get (ra_partial ?r) k = Some q" by (simp add: get)
    with e that(2-4) show ?thesis by (simp add: evicts_def)
  qed
  have kept: "bt_get (ra_partial s') keep = bt_get (ra_partial s) keep"
    and rest: "touched_ok s' keep" "ra_clock s' = ra_clock s"
      "\<not> over_budget s' n \<or> (\<forall>k. bt_get (ra_partial s') k \<noteq> None \<longrightarrow> k = keep)"
    using e old(1) by (simp_all add: evicts_def get remove_fields)
  have "ra_evicted s' + bt_len (ra_partial s') = ra_evicted s + 1 + bt_len (ra_partial ?r)"
    using e by (simp add: evicts_def)
  then have "ra_evicted s' + bt_len (ra_partial s') = ra_evicted s + bt_len (ra_partial s)"
    using remove_present_size [OF ok old(2)] by simp
  with kept rest sub lru over show ?thesis unfolding evicts_def by blast
qed

lemma make_space_evicts:
  assumes "touched_ok s keep"
  shows "\<exists>s'. make_space s keep n = Some s' \<and> evicts s keep n s'"
  using assms
proof (induction "bt_len (ra_partial s)" arbitrary: s rule: less_induct)
  case less
  show ?case
  proof (cases "over_budget s n")
    case False
    with less.prems show ?thesis by (simp add: make_space.simps evicts_refl)
  next
    case over: True
    show ?thesis
    proof (cases "find (\<lambda>key. key \<noteq> keep) (bt_values (ra_by_age s))")
      case None
      from less.prems have ok: "bt_ok (ra_by_age s)" by (simp add: touched_ok_def maps_ok_def)
      have "\<forall>k. bt_get (ra_partial s) k \<noteq> None \<longrightarrow> k = keep"
      proof (intro allI impI, rule ccontr)
        fix k assume "bt_get (ra_partial s) k \<noteq> None" and k: "k \<noteq> keep"
        then obtain p where "bt_get (ra_partial s) k = Some p" by auto
        with k less.prems have "bt_get (ra_by_age s) (pt_touched p) = Some k"
          unfolding touched_ok_def by blast
        with None k bt_find_None [OF ok, of "\<lambda>key. key \<noteq> keep"] show False by blast
      qed
      with less.prems over None show ?thesis by (simp add: make_space.simps evicts_refl)
    next
      case (Some old)
      from oldest_is_oldest [OF less.prems Some] obtain p where p: "old \<noteq> keep"
        "bt_get (ra_partial s) old = Some p"
        "\<And>k q. bt_get (ra_partial s) k = Some q \<Longrightarrow> k \<noteq> keep \<Longrightarrow> k \<noteq> old \<Longrightarrow> pt_touched p < pt_touched q"
        by blast
      let ?s = "(snd (reassembler_remove s old))\<lparr>ra_evicted := ra_evicted s + 1\<rparr>"
      from less.prems have ok: "bt_ok (ra_partial s)" by (simp add: touched_ok_def maps_ok_def)
      have "bt_len (ra_partial ?s) < bt_len (ra_partial s)"
        using remove_present_size [OF ok p(2)] by simp
      moreover have "touched_ok ?s keep" using touched_remove_ok [OF less.prems p(1)] by simp
      ultimately obtain s' where s': "make_space ?s keep n = Some s'" "evicts ?s keep n s'"
        using less.hyps by blast
      then have "make_space s keep n = Some s'"
        using over Some by (simp add: make_space.simps [of s] Let_def remove_fields)
      moreover have "evicts s keep n s'"
        using evicts_step [OF less.prems over p(1,2) _ s'(2)] p(3) by blast
      ultimately show ?thesis by blast
    qed
  qed
qed

lemma evicts_room:
  assumes e: "evicts s keep n s'"
  shows "bt_len (bt_insert keep p (ra_partial s')) \<le> MAX_FRAGMENT_BUFFERS"
proof -
  from e have t: "touched_ok s' keep"
    and stop: "\<not> over_budget s' n \<or> (\<forall>k. bt_get (ra_partial s') k \<noteq> None \<longrightarrow> k = keep)"
    by (simp_all add: evicts_def)
  from t have ok: "bt_ok (ra_partial s')" and le: "bt_len (ra_partial s') \<le> MAX_FRAGMENT_BUFFERS"
    by (simp_all add: touched_ok_def maps_ok_def)
  show ?thesis
  proof (cases "bt_get (ra_partial s') keep")
    case None
    from stop have "bt_len (ra_partial s') < MAX_FRAGMENT_BUFFERS"
    proof
      assume "\<not> over_budget s' n"
      then show ?thesis by (simp add: over_budget_def)
    next
      assume "\<forall>k. bt_get (ra_partial s') k \<noteq> None \<longrightarrow> k = keep"
      with None have "\<forall>k. bt_get (ra_partial s') k = None" by metis
      with ok have "bt_len (ra_partial s') = 0" by (simp add: bt_len_size bt.size_of_0)
      then show ?thesis by (simp add: MAX_FRAGMENT_BUFFERS_def)
    qed
    with bt.size_insert_new [OF ok None, of p] show ?thesis by (simp add: bt_len_size)
  next
    case (Some q)
    with bt.size_insert_old [OF ok Some, of p] le show ?thesis by (simp add: bt_len_size)
  qed
qed

section \<open>Storing a fragment\<close>

lemma fragment_accepted:
  assumes "fragment_refused fr = None"
  shows "unat (fr_total fr) \<le> MAX_MESSAGE_LEN" and "fr_index fr < fr_count fr"
    and "unat (fr_count fr) \<le> max (unat (fr_total fr)) 1"
    and "unat (fr_offset fr) + length (fr_payload fr) \<le> unat (fr_total fr)"
  using assms
  by (auto simp: fragment_refused_def Let_def checked_add_usize_def not_less split: if_splits option.splits)

definition old_cost :: "'k::linorder Reassembler \<Rightarrow> 'k \<times> u32 \<Rightarrow> nat" where
  "old_cost s key = (case bt_get (ra_partial s) key of None \<Rightarrow> 0 | Some q \<Rightarrow> partial_cost q)"

lemma weigh_insert_old_cost:
  assumes "maps_ok s"
  shows "bt.weigh partial_cost (bt_insert key p (ra_partial s)) + old_cost s key
    = ra_held s + partial_cost p"
proof -
  from assms have ok: "bt_ok (ra_partial s)" and held: "ra_held s = bt.weigh partial_cost (ra_partial s)"
    by (simp_all add: maps_ok_def)
  show ?thesis
    using bt.weigh_insert_new [OF ok, of key partial_cost p] bt.weigh_insert_old [OF ok, of key _ partial_cost p]
    by (auto simp: old_cost_def held split: option.splits)
qed

text \<open>An entry that is still short of its message goes into the table.\<close>

lemma store_ok:
  assumes t: "touched_ok s key" and p: "partial_ok p" "pt_touched p = ra_clock s"
    and held: "h + old_cost s key = ra_held s + partial_cost p"
    and room: "bt_len (bt_insert key p (ra_partial s)) \<le> MAX_FRAGMENT_BUFFERS"
  shows "reassembler_ok (s\<lparr>ra_partial := bt_insert key p (ra_partial s), ra_held := h\<rparr>)"
proof -
  from t have m: "maps_ok s" and ok: "bt_ok (ra_partial s)" "bt_ok (ra_by_age s)"
    and ages: "\<And>t k. bt_get (ra_by_age s) t = Some k \<longleftrightarrow> (t = ra_clock s \<and> k = key) \<or>
        (k \<noteq> key \<and> (\<exists>p. bt_get (ra_partial s) k = Some p \<and> pt_touched p = t))"
    and lt: "\<And>k p. bt_get (ra_partial s) k = Some p \<Longrightarrow> pt_touched p < ra_clock s"
    by (auto simp: touched_ok_def maps_ok_def)
  from weigh_insert_old_cost [OF m, of key p] held
  have "h = bt.weigh partial_cost (bt_insert key p (ra_partial s))" by simp
  with m p(1) have "maps_ok (s\<lparr>ra_partial := bt_insert key p (ra_partial s), ra_held := h\<rparr>)"
    by (simp add: maps_ok_def bt.ok_insert bt.get_insert)
  moreover have "bt_get (ra_by_age s) t = Some k \<longleftrightarrow>
      (\<exists>q. bt_get (bt_insert key p (ra_partial s)) k = Some q \<and> pt_touched q = t)" for t k
    using ages [of t k] p(2) ok by (auto simp: bt.get_insert)
  moreover have "pt_touched q \<le> ra_clock s"
    if "bt_get (bt_insert key p (ra_partial s)) k = Some q" for k q
    using that lt [of k q] p(2) ok by (auto simp: bt.get_insert split: if_splits)
  ultimately show ?thesis using room by (simp add: reassembler_ok_def)
qed

text \<open>A whole message goes in and out again, and leaves nothing behind.\<close>

lemma store_remove_ok:
  assumes t: "touched_ok s key" and p: "pt_touched p = ra_clock s"
    and held: "h + old_cost s key = ra_held s + partial_cost p"
  defines "s1 \<equiv> s\<lparr>ra_partial := bt_insert key p (ra_partial s), ra_held := h\<rparr>"
  shows "fst (reassembler_remove s1 key) = Some p"
    and "reassembler_ok (snd (reassembler_remove s1 key))"
    and "bt_get (ra_partial (snd (reassembler_remove s1 key))) k =
      (if k = key then None else bt_get (ra_partial s) k)"
proof -
  from t have m: "maps_ok s" and ok: "bt_ok (ra_partial s)" "bt_ok (ra_by_age s)"
    and ages: "\<And>t k. bt_get (ra_by_age s) t = Some k \<longleftrightarrow> (t = ra_clock s \<and> k = key) \<or>
        (k \<noteq> key \<and> (\<exists>p. bt_get (ra_partial s) k = Some p \<and> pt_touched p = t))"
    and lt: "\<And>k p. bt_get (ra_partial s) k = Some p \<Longrightarrow> pt_touched p < ra_clock s"
    by (auto simp: touched_ok_def maps_ok_def)
  let ?m = "bt_insert key p (ra_partial s)"
  have mok: "bt_ok ?m" and mget: "bt_get ?m key = Some p"
    using ok by (simp_all add: bt.ok_insert bt.get_insert)
  have out: "reassembler_remove s1 key = (Some p, s\<lparr>ra_partial := bt_remove key ?m,
      ra_by_age := bt_remove (ra_clock s) (ra_by_age s), ra_held := h - partial_cost p\<rparr>)"
    using mget p by (simp add: s1_def reassembler_remove_def)
  show "fst (reassembler_remove s1 key) = Some p" by (simp add: out)
  have get: "bt_get (bt_remove key ?m) k = (if k = key then None else bt_get (ra_partial s) k)" for k
    using ok mok by (simp add: bt.get_remove bt.get_insert)
  then show "bt_get (ra_partial (snd (reassembler_remove s1 key))) k =
      (if k = key then None else bt_get (ra_partial s) k)" by (simp add: out)
  have hw: "h - partial_cost p = bt.weigh partial_cost (bt_remove key ?m)"
    using bt.weigh_remove [OF mok mget, of partial_cost] weigh_insert_old_cost [OF m, of key p] held by simp
  have len: "bt_len (bt_remove key ?m) \<le> MAX_FRAGMENT_BUFFERS"
  proof -
    have "bt_len (bt_remove key ?m) \<le> bt_len (ra_partial s)"
      using bt.size_remove [OF mok mget] bt.size_insert_new [OF ok(1), of key p]
        bt.size_insert_old [OF ok(1), of key _ p]
      by (cases "bt_get (ra_partial s) key") (simp_all add: bt_len_size)
    with t show ?thesis by (simp add: touched_ok_def)
  qed
  have "bt_get (bt_remove (ra_clock s) (ra_by_age s)) t = Some k \<longleftrightarrow>
      (\<exists>q. bt_get (bt_remove key ?m) k = Some q \<and> pt_touched q = t)" for t k
    using ages [of t k] ok lt [of k] by (auto simp: bt.get_remove get)
  moreover have "pt_touched q \<le> ra_clock s" if "bt_get (bt_remove key ?m) k = Some q" for k q
    using that lt [of k q] by (simp add: get less_imp_le split: if_splits)
  ultimately show "reassembler_ok (snd (reassembler_remove s1 key))"
    using m ok mok hw len by (simp add: out reassembler_ok_def maps_ok_def bt.ok_remove get)
qed

lemma entry_named_fields [simp]:
  "pt_total (entry_named p fr now) = pt_total p" "pt_count (entry_named p fr now) = pt_count p"
  "pt_arrived (entry_named p fr now) = pt_arrived p" "pt_pieces (entry_named p fr now) = pt_pieces p"
  "pt_touched (entry_named p fr now) = now" "partial_cost (entry_named p fr now) = partial_cost p"
  by (simp_all add: entry_named_def partial_cost_def)

lemma partial_ok_named: "partial_ok (entry_named p fr now) = partial_ok p"
  by (simp add: partial_ok_def partial_wf_def pieces_len_def)

lemma partial_ok_new:
  assumes "fragment_refused fr = None"
  shows "partial_ok \<lparr>pt_channel = None, pt_total = fr_total fr, pt_count = fr_count fr,
    pt_arrived = [], pt_pieces = [], pt_touched = now\<rparr>"
proof -
  from fragment_accepted(2) [OF assms] have "0 < unat (fr_count fr)"
    by (simp add: unat_gt_0) (metis word_not_simps(1))
  with fragment_accepted(1) [OF assms] show ?thesis
    by (simp add: partial_ok_def partial_wf_def pieces_len_def bt.ok_empty bt.get_empty bt.weigh_def
        bt_entries_def bt_len_def)
qed

lemma entry_ok:
  fixes now :: nat
  assumes "touched_ok s key" and "fragment_refused fr = None" and "\<not> disagrees s key fr"
  defines "p \<equiv> entry_named (entry_or_insert s key fr now) fr now"
  shows "partial_ok p" and "pt_total p = fr_total fr" and "pt_count p = fr_count fr"
    and "partial_cost p = old_cost s key"
proof -
  have "partial_ok (entry_or_insert s key fr now)"
    using assms(1) partial_ok_new [OF assms(2)]
    by (auto simp: entry_or_insert_def touched_ok_def maps_ok_def split: option.splits)
  then show "partial_ok p" by (simp add: p_def partial_ok_named)
  show "pt_total p = fr_total fr" and "pt_count p = fr_count fr" and "partial_cost p = old_cost s key"
    using assms(3)
    by (auto simp: p_def entry_or_insert_def disagrees_def old_cost_def partial_cost_def bt_len_def
        split: option.splits)
qed

lemma entry_add_piece_fields [simp]:
  "pt_total (entry_add_piece p fr) = pt_total p" "pt_count (entry_add_piece p fr) = pt_count p"
  "pt_touched (entry_add_piece p fr) = pt_touched p" "pt_channel (entry_add_piece p fr) = pt_channel p"
  "pt_arrived (entry_add_piece p fr) = pt_arrived p @ fr_payload fr"
  by (simp_all add: entry_add_piece_def)

lemma add_piece_wf:
  assumes wf: "partial_wf p" and vacant: "bt_get (pt_pieces p) (fr_index fr) = None"
    and index: "fr_index fr < pt_count p"
    and fits: "length (pt_arrived p) + length (fr_payload fr) \<le> unat (pt_total p)"
  shows "partial_wf (entry_add_piece p fr)"
    and "bt_len (pt_pieces (entry_add_piece p fr)) = bt_len (pt_pieces p) + 1"
    and "partial_cost (entry_add_piece p fr) = partial_cost p + (length (fr_payload fr) + PIECE_COST)"
proof -
  from wf have ok: "bt_ok (pt_pieces p)" and tot: "unat (pt_total p) \<le> MAX_MESSAGE_LEN"
    and len: "pieces_len p = length (pt_arrived p)"
    and in_: "\<And>i pc. bt_get (pt_pieces p) i = Some pc \<Longrightarrow> i < pt_count p \<and> piece_in (pt_arrived p) pc"
    by (auto simp: partial_wf_def)
  from fits tot have small: "length (pt_arrived p) \<le> MAX_MESSAGE_LEN" "length (fr_payload fr) \<le> MAX_MESSAGE_LEN"
    by linarith+
  have grow: "piece_in (pt_arrived p @ fr_payload fr) pc" if "piece_in (pt_arrived p) pc" for pc
    using that by (simp add: piece_in_def)
  have new: "piece_in (pt_arrived p @ fr_payload fr) \<lparr>pc_start = fr_offset fr,
      pc_at = of_nat (length (pt_arrived p)), pc_len = of_nat (length (fr_payload fr))\<rparr>"
    using small by (simp add: piece_in_def)
  show "partial_wf (entry_add_piece p fr)"
    unfolding partial_wf_def
    using ok tot fits small len index in_ grow new bt.weigh_insert_new [OF ok vacant]
    by (auto simp: entry_add_piece_def bt.ok_insert bt.get_insert pieces_len_def split: if_splits)
  show sz: "bt_len (pt_pieces (entry_add_piece p fr)) = bt_len (pt_pieces p) + 1"
    using bt.size_insert_new [OF ok vacant] by (simp add: entry_add_piece_def bt_len_size)
  then show "partial_cost (entry_add_piece p fr) = partial_cost p + (length (fr_payload fr) + PIECE_COST)"
    by (simp add: partial_cost_def)
qed

section \<open>Putting the message together\<close>

lemma gather_total:
  "\<forall>pc \<in> set ps. piece_in arrived pc \<Longrightarrow> gather arrived ps acc \<noteq> None"
  by (induction ps arbitrary: acc) (auto simp: piece_in_def slice_range_def)

lemma sorts_pieces_set: "sorts_pieces srt \<Longrightarrow> set (srt ps) = set ps"
  unfolding sorts_pieces_def by (metis set_mset_mset)

lemma assemble_total:
  assumes "partial_wf p" and "sorts_pieces srt"
  shows "assemble srt p \<noteq> None"
proof -
  have "\<forall>pc \<in> set (srt (bt_values (pt_pieces p))). piece_in (pt_arrived p) pc"
    using assms bt_values_set [of "pt_pieces p"] by (auto simp: sorts_pieces_set partial_wf_def)
  then have "gather (pt_arrived p) (srt (bt_values (pt_pieces p))) [] \<noteq> None"
    by (rule gather_total)
  then show ?thesis by (auto simp: assemble_def split: option.splits)
qed

section \<open>The whole operation\<close>

text \<open>
  The entry as the fragment leaves it, and the state it is stored in. \<open>stored\<close> is \<open>None\<close> where the
  bytes of the fragment do not fit the message.
\<close>

definition entry_after :: "'k::linorder Reassembler \<Rightarrow> 'k \<times> u32 \<Rightarrow> Fragment \<Rightarrow> Partial" where
  "entry_after s key fr =
     (let p = entry_named (entry_or_insert s key fr (ra_clock s)) fr (ra_clock s)
      in if bt_get (pt_pieces p) (fr_index fr) = None then entry_add_piece p fr else p)"

definition overflows :: "'k::linorder Reassembler \<Rightarrow> 'k \<times> u32 \<Rightarrow> Fragment \<Rightarrow> bool" where
  "overflows s key fr =
     (let p = entry_or_insert s key fr (ra_clock s)
      in bt_get (pt_pieces p) (fr_index fr) = None \<and>
         length (pt_arrived p) + length (fr_payload fr) > unat (pt_total p))"

definition held_after :: "'k::linorder Reassembler \<Rightarrow> 'k \<times> u32 \<Rightarrow> Fragment \<Rightarrow> nat" where
  "held_after s key fr =
     (if bt_get (pt_pieces (entry_or_insert s key fr (ra_clock s))) (fr_index fr) = None
      then ra_held s + (length (fr_payload fr) + PIECE_COST) else ra_held s)"

lemma feed_store_overflow:
  assumes "overflows s key fr"
  shows "feed_store srt s key fr =
    Some (s\<lparr>ra_partial := bt_insert key (entry_named (entry_or_insert s key fr (ra_clock s)) fr (ra_clock s))
      (ra_partial s)\<rparr>, Inl (InconsistentFragment (fr_sequence fr)))"
  using assms by (simp add: feed_store_def overflows_def Let_def)

lemma feed_store_fits:
  assumes "\<not> overflows s key fr"
  shows "feed_store srt s key fr =
    (let q = entry_after s key fr;
         s1 = s\<lparr>ra_partial := bt_insert key q (ra_partial s), ra_held := held_after s key fr\<rparr>
     in if bt_len (pt_pieces q) < unat (pt_count q) then Some (s1, Inr None)
        else case reassembler_remove s1 key of
          (None, _) \<Rightarrow> None
        | (Some p, s2) \<Rightarrow> (case assemble srt p of None \<Rightarrow> None
            | Some None \<Rightarrow> Some (s2, Inl (InconsistentFragment (fr_sequence fr)))
            | Some (Some frame) \<Rightarrow> Some (s2, Inr (Some frame))))"
  using assms
  by (cases "bt_get (pt_pieces (entry_or_insert s key fr (ra_clock s))) (fr_index fr)")
    (simp_all add: feed_store_def overflows_def entry_after_def held_after_def Let_def)

lemma entry_after_ok:
  assumes t: "touched_ok s key" and acc: "fragment_refused fr = None" and agree: "\<not> disagrees s key fr"
    and fits: "\<not> overflows s key fr"
  shows "partial_wf (entry_after s key fr)"
    and "held_after s key fr + old_cost s key = ra_held s + partial_cost (entry_after s key fr)"
    and "pt_touched (entry_after s key fr) = ra_clock s"
    and "pt_total (entry_after s key fr) = fr_total fr" and "pt_count (entry_after s key fr) = fr_count fr"
proof -
  let ?p = "entry_named (entry_or_insert s key fr (ra_clock s)) fr (ra_clock s)"
  note p = entry_ok [OF t acc agree, of "ra_clock s"]
  have wf: "partial_wf ?p" using p(1) by (simp add: partial_ok_def)
  have index: "fr_index fr < pt_count ?p" using fragment_accepted(2) [OF acc] p(3) by simp
  have "partial_wf (entry_after s key fr) \<and>
    held_after s key fr + old_cost s key = ra_held s + partial_cost (entry_after s key fr) \<and>
    pt_touched (entry_after s key fr) = ra_clock s \<and>
    pt_total (entry_after s key fr) = fr_total fr \<and> pt_count (entry_after s key fr) = fr_count fr"
  proof (cases "bt_get (pt_pieces ?p) (fr_index fr) = None")
    case True
    with fits have "length (pt_arrived ?p) + length (fr_payload fr) \<le> unat (pt_total ?p)"
      by (simp add: overflows_def Let_def)
    from add_piece_wf [OF wf True index this] True p show ?thesis
      by (simp add: entry_after_def held_after_def)
  next
    case False
    with wf p show ?thesis by (auto simp: entry_after_def held_after_def)
  qed
  then show "partial_wf (entry_after s key fr)"
    and "held_after s key fr + old_cost s key = ra_held s + partial_cost (entry_after s key fr)"
    and "pt_touched (entry_after s key fr) = ra_clock s"
    and "pt_total (entry_after s key fr) = fr_total fr" and "pt_count (entry_after s key fr) = fr_count fr"
    by blast+
qed

text \<open>
  \<open>feed_store\<close> by its three ways out: bytes that do not fit the message, a message still short of a
  fragment, and a message that is put together (or turns out not to be one).
\<close>

definition store_outcome ::
    "(Piece list \<Rightarrow> Piece list) \<Rightarrow> 'k::linorder Reassembler \<Rightarrow> 'k \<times> u32 \<Rightarrow> Fragment \<Rightarrow>
     'k Reassembler \<Rightarrow> WireError + Frame option \<Rightarrow> bool" where
  "store_outcome srt s key fr s' r \<longleftrightarrow>
     reassembler_ok s' \<and> ra_clock s' = ra_clock s \<and> ra_evicted s' = ra_evicted s \<and>
     (\<forall>k. k \<noteq> key \<longrightarrow> bt_get (ra_partial s') k = bt_get (ra_partial s) k) \<and>
     (if overflows s key fr then
        r = Inl (InconsistentFragment (fr_sequence fr)) \<and> ra_held s' = ra_held s
      else if bt_len (pt_pieces (entry_after s key fr)) < unat (fr_count fr) then
        r = Inr None \<and> bt_get (ra_partial s') key = Some (entry_after s key fr) \<and>
        ra_held s' = held_after s key fr
      else
        bt_get (ra_partial s') key = None \<and> ra_held s' \<le> ra_held s \<and>
        r = (case assemble srt (entry_after s key fr) of
               Some (Some frame) \<Rightarrow> Inr (Some frame)
             | _ \<Rightarrow> Inl (InconsistentFragment (fr_sequence fr))))"

lemma feed_store_outcome:
  assumes t: "touched_ok s key" and acc: "fragment_refused fr = None" and agree: "\<not> disagrees s key fr"
    and room: "\<And>p. bt_len (bt_insert key p (ra_partial s)) \<le> MAX_FRAGMENT_BUFFERS"
    and srt: "sorts_pieces srt"
  shows "\<exists>s' r. feed_store srt s key fr = Some (s', r) \<and> store_outcome srt s key fr s' r"
proof (cases "overflows s key fr")
  case True
  let ?p = "entry_named (entry_or_insert s key fr (ra_clock s)) fr (ra_clock s)"
  note p = entry_ok [OF t acc agree, of "ra_clock s"]
  from t have ok: "bt_ok (ra_partial s)" by (simp add: touched_ok_def maps_ok_def)
  have "reassembler_ok (s\<lparr>ra_partial := bt_insert key ?p (ra_partial s), ra_held := ra_held s\<rparr>)"
    using p(4) by (intro store_ok [OF t p(1) _ _ room]) simp_all
  then show ?thesis
    by (simp add: feed_store_overflow [OF True] store_outcome_def True ok bt.get_insert)
next
  case False
  let ?q = "entry_after s key fr"
  let ?s = "s\<lparr>ra_partial := bt_insert key ?q (ra_partial s), ra_held := held_after s key fr\<rparr>"
  from t have ok: "bt_ok (ra_partial s)" by (simp add: touched_ok_def maps_ok_def)
  note q = entry_after_ok [OF t acc agree False]
  show ?thesis
  proof (cases "bt_len (pt_pieces ?q) < unat (pt_count ?q)")
    case True
    with q(1) have "partial_ok ?q" by (simp add: partial_ok_def)
    from store_ok [OF t this q(3) q(2) room] show ?thesis
      using False True ok q(5) by (simp add: feed_store_fits store_outcome_def bt.get_insert)
  next
    case whole: False
    note out = store_remove_ok [OF t q(3) q(2)]
    obtain s2 where rem: "reassembler_remove ?s key = (Some ?q, s2)"
      using out(1) by (cases "reassembler_remove ?s key") simp
    with out(2,3) have ok2: "reassembler_ok s2"
      and get2: "\<And>k. bt_get (ra_partial s2) k = (if k = key then None else bt_get (ra_partial s) k)"
      by simp_all
    have rest: "ra_clock s2 = ra_clock s" "ra_evicted s2 = ra_evicted s"
      using remove_fields(1,2) [of ?s key] rem by simp_all
    have "ra_held s2 = held_after s key fr - partial_cost ?q"
      using ok rem by (auto simp: reassembler_remove_def bt.get_insert)
    then have held: "ra_held s2 \<le> ra_held s" using q(2) by linarith
    from assemble_total [OF q(1) srt] obtain a where a: "assemble srt ?q = Some a" by blast
    let ?r = "case a of None \<Rightarrow> Inl (InconsistentFragment (fr_sequence fr)) | Some frame \<Rightarrow> Inr (Some frame)"
    have "feed_store srt s key fr = Some (s2, ?r)"
      using False whole rem a by (simp add: feed_store_fits split: option.splits)
    moreover have "store_outcome srt s key fr s2 ?r"
      using False whole q(5) ok2 get2 rest held a by (simp add: store_outcome_def split: option.splits)
    ultimately show ?thesis by blast
  qed
qed

text \<open>\<open>feed\<close> by its ways out, with what the steps before the store leave.\<close>

lemma feed_cases [consumes 1, case_names refused disagrees accepted]:
  assumes ok: "reassembler_ok s"
  obtains (refused) e where "fragment_refused fr = Some e" and "feed srt s src fr = Some (s, Inl e)"
  | (disagrees) "fragment_refused fr = None" and "disagrees s (src, fr_sequence fr) fr"
      and "feed srt s src fr = Some (snd (reassembler_remove s (src, fr_sequence fr)),
        Inl (InconsistentFragment (fr_sequence fr)))"
  | (accepted) sm where "fragment_refused fr = None" and "\<not> disagrees s (src, fr_sequence fr) fr"
      and "evicts (touch s (src, fr_sequence fr)) (src, fr_sequence fr) (length (fr_payload fr)) sm"
      and "touched_ok sm (src, fr_sequence fr)" and "\<not> disagrees sm (src, fr_sequence fr) fr"
      and "\<And>p. bt_len (bt_insert (src, fr_sequence fr) p (ra_partial sm)) \<le> MAX_FRAGMENT_BUFFERS"
      and "feed srt s src fr = feed_store srt sm (src, fr_sequence fr) fr"
proof (cases "fragment_refused fr")
  case (Some e)
  have "feed srt s src fr = Some (s, Inl e)"
    by (simp only: feed_def by_age_size [OF ok] Some Let_def option.case simp_thms if_False)
  with Some show thesis by (rule refused)
next
  case acc: None
  let ?key = "(src, fr_sequence fr)"
  show thesis
  proof (cases "disagrees s ?key fr")
    case True
    have "feed srt s src fr = Some (snd (reassembler_remove s ?key),
        Inl (InconsistentFragment (fr_sequence fr)))"
      by (simp only: feed_def by_age_size [OF ok] acc True Let_def option.case simp_thms if_False if_True)
    with acc True show thesis by (rule disagrees)
  next
    case agree: False
    from make_space_evicts [OF touch_ok [OF ok]] obtain sm where
      sm: "make_space (touch s ?key) ?key (length (fr_payload fr)) = Some sm"
      and e: "evicts (touch s ?key) ?key (length (fr_payload fr)) sm" by blast
    note t = evictsD(1) [OF e]
    have same: "bt_get (ra_partial sm) ?key = bt_get (ra_partial s) ?key"
      using evictsD(3) [OF e] by (simp only: touch_fields)
    have notdis: "\<not> disagrees sm ?key fr" using agree by (simp only: disagrees_def same simp_thms)
    have "feed srt s src fr = feed_store srt sm ?key fr"
      by (simp only: feed_def by_age_size [OF ok] acc agree sm Let_def option.case simp_thms if_False
          Option.bind.simps)
    then show thesis by (rule accepted [OF acc agree e t notdis evicts_room [OF e]])
  qed
qed

lemma feed_keeps_ok:
  assumes ok: "reassembler_ok s" and srt: "sorts_pieces srt"
  obtains s' r where "feed srt s src fr = Some (s', r)" and "reassembler_ok s'"
  using ok
proof (cases rule: feed_cases [where fr = fr and srt = srt and src = src])
  case (refused e)
  with ok that show thesis by blast
next
  case disagrees
  with reassembler_remove_ok [OF ok] that show thesis by blast
next
  case (accepted sm)
  from feed_store_outcome [OF accepted(4,1,5,6) srt] obtain s' r where
    "feed_store srt sm (src, fr_sequence fr) fr = Some (s', r)" "reassembler_ok s'"
    by (auto simp: store_outcome_def)
  with accepted(7) that show thesis by simp
qed

text \<open>A run of fragments, from many sources, one after the other.\<close>

fun feed_run ::
    "(Piece list \<Rightarrow> Piece list) \<Rightarrow> 'k::linorder Reassembler \<Rightarrow> ('k \<times> Fragment) list \<Rightarrow>
     ('k Reassembler \<times> (WireError + Frame option) list) option" where
  "feed_run srt s [] = Some (s, [])"
| "feed_run srt s ((src, fr) # rst) =
     Option.bind (feed srt s src fr) (\<lambda>(s, r).
     map_option (\<lambda>(s, rs). (s, r # rs)) (feed_run srt s rst))"

lemma feed_run_ok:
  assumes "reassembler_ok s" and "sorts_pieces srt"
  shows "\<exists>s' rs. feed_run srt s frs = Some (s', rs) \<and> reassembler_ok s' \<and> length rs = length frs"
  using assms(1)
proof (induction frs arbitrary: s)
  case Nil
  then show ?case by simp
next
  case (Cons x frs)
  obtain src fr where x: "x = (src, fr)" by (cases x)
  from feed_keeps_ok [OF Cons.prems assms(2)] obtain s1 r where
    1: "feed srt s src fr = Some (s1, r)" "reassembler_ok s1" .
  from Cons.IH [OF 1(2)] obtain s2 rs where "feed_run srt s1 frs = Some (s2, rs)"
    "reassembler_ok s2" "length rs = length frs" by blast
  with 1(1) x show ?case by simp
qed

section \<open>The budget\<close>

definition budget_ok :: "'k Reassembler \<Rightarrow> bool" where
  "budget_ok s \<longleftrightarrow> ra_held s \<le> MAX_FRAGMENT_BYTES + PIECE_COST \<or> reassembler_in_flight s \<le> 1"

lemma evicts_budget:
  assumes "evicts s keep n sm" 
  shows "ra_held sm + n \<le> MAX_FRAGMENT_BYTES \<or> (\<forall>k. bt_get (ra_partial sm) k \<noteq> None \<longrightarrow> k = keep)"
  using assms by (auto simp: evicts_def over_budget_def bt_get_def)

lemma held_after_le: "held_after s key fr \<le> ra_held s + length (fr_payload fr) + PIECE_COST"
  by (simp add: held_after_def)

lemma feed_budget:
  assumes ok: "reassembler_ok s" and srt: "sorts_pieces srt" and b: "budget_ok s"
    and f: "feed srt s src fr = Some (s', r)"
  shows "budget_ok s'"
  using ok
proof (cases rule: feed_cases [where fr = fr and srt = srt and src = src])
  case (refused e)
  with f b show ?thesis by simp
next
  case disagrees
  from ok have "bt_ok (ra_partial s)" by (simp add: reassembler_ok_def maps_ok_def)
  from remove_size [OF this] have "bt_len (ra_partial (snd (reassembler_remove s (src, fr_sequence fr))))
      \<le> bt_len (ra_partial s)" by simp
  moreover have "ra_held (snd (reassembler_remove s (src, fr_sequence fr))) \<le> ra_held s"
    by (simp add: reassembler_remove_def split: option.splits)
  ultimately show ?thesis using disagrees(3) f b
    by (auto simp: budget_ok_def reassembler_in_flight_def)
next
  case (accepted sm)
  let ?key = "(src, fr_sequence fr)"
  from feed_store_outcome [OF accepted(4,1,5,6) srt] f accepted(7)
  have out: "store_outcome srt sm ?key fr s' r" by auto
  then have ok': "reassembler_ok s'"
    and others: "\<And>k. k \<noteq> ?key \<Longrightarrow> bt_get (ra_partial s') k = bt_get (ra_partial sm) k"
    by (simp_all add: store_outcome_def)
  have held: "ra_held s' \<le> ra_held sm + length (fr_payload fr) + PIECE_COST"
    using out held_after_le [of sm ?key fr] by (auto simp: store_outcome_def split: if_splits)
  from evicts_budget [OF accepted(3)] show ?thesis
  proof
    assume "ra_held sm + length (fr_payload fr) \<le> MAX_FRAGMENT_BYTES"
    with held show ?thesis by (simp add: budget_ok_def)
  next
    assume "\<forall>k. bt_get (ra_partial sm) k \<noteq> None \<longrightarrow> k = ?key"
    with others have "\<forall>k. bt_get (ra_partial s') k \<noteq> None \<longrightarrow> k = ?key" by metis
    moreover from ok' have "bt_ok (ra_partial s')" by (simp add: reassembler_ok_def maps_ok_def)
    ultimately have "bt_len (ra_partial s') \<le> 1"
      unfolding bt_len_size by (intro bt.size_of_le_1 [where k = ?key]) auto
    then show ?thesis by (simp add: budget_ok_def reassembler_in_flight_def)
  qed
qed

lemma feed_run_budget:
  assumes "reassembler_ok s" and srt: "sorts_pieces srt" and "budget_ok s"
    and "feed_run srt s xs = Some (s', rs)"
  shows "budget_ok s' \<and> reassembler_ok s'"
  using assms(1,3,4)
proof (induction xs arbitrary: s rs)
  case Nil
  then show ?case by simp
next
  case (Cons x xs)
  obtain src fr where x: "x = (src, fr)" by (cases x)
  from Cons.prems x obtain s1 r rs' where fd: "feed srt s src fr = Some (s1, r)"
    and run: "feed_run srt s1 xs = Some (s', rs')"
    by (auto simp: bind_eq_Some_conv)
  from feed_keeps_ok [OF Cons.prems(1) srt, of src fr] fd have "reassembler_ok s1" by auto
  from Cons.IH [OF this feed_budget [OF Cons.prems(1) srt Cons.prems(2) fd] run] show ?case .
qed

section \<open>Which messages are dropped\<close>

text \<open>There is an age, and of the messages other than the fed one exactly the older ones are gone.\<close>

definition keeps_since :: "'k::linorder Reassembler \<Rightarrow> 'k \<times> u32 \<Rightarrow> nat \<Rightarrow> 'k Reassembler \<Rightarrow> bool" where
  "keeps_since s key t s' \<longleftrightarrow>
     (\<forall>k. k = key \<or> bt_get (ra_partial s') k =
        Option.bind (bt_get (ra_partial s) k) (\<lambda>p. if t \<le> pt_touched p then Some p else None))"

lemma keeps_since_0: "(\<And>k. k \<noteq> key \<Longrightarrow> bt_get (ra_partial s') k = bt_get (ra_partial s) k) \<Longrightarrow>
    keeps_since s key 0 s'"
  by (auto simp: keeps_since_def)

lemma evicts_keeps_since:
  assumes ok: "reassembler_ok s" and e: "evicts (touch s key) key n sm"
    and others: "\<And>k. k \<noteq> key \<Longrightarrow> bt_get (ra_partial s') k = bt_get (ra_partial sm) k"
  shows "\<exists>t. keeps_since s key t s'"
proof -
  have sub: "bt_get (ra_partial s) k = Some p" if "bt_get (ra_partial sm) k = Some p" for k p
    using e that unfolding evicts_def touch_fields by blast
  have lru: "pt_touched p < pt_touched p'"
    if "bt_get (ra_partial s) k = Some p" "bt_get (ra_partial sm) k = None"
      "bt_get (ra_partial sm) k' = Some p'" "k' \<noteq> key" for k p k' p'
    using e that unfolding evicts_def touch_fields by blast
  define aged where "aged t \<longleftrightarrow> (\<exists>k p. k \<noteq> key \<and> bt_get (ra_partial sm) k = Some p \<and> pt_touched p = t)" for t
  show ?thesis
  proof (cases "\<exists>t. aged t")
    case True
    define t where "t = (LEAST t. aged t)"
    from True have "aged t" unfolding t_def by (metis LeastI)
    then obtain k0 p0 where k0: "k0 \<noteq> key" "bt_get (ra_partial sm) k0 = Some p0" "pt_touched p0 = t"
      by (auto simp: aged_def)
    have "bt_get (ra_partial s') k = Option.bind (bt_get (ra_partial s) k)
        (\<lambda>p. if t \<le> pt_touched p then Some p else None)" if k: "k \<noteq> key" for k
    proof (cases "bt_get (ra_partial sm) k")
      case None
      with others [OF k] lru [OF _ None k0(2,1)] k0(3) show ?thesis
        by (cases "bt_get (ra_partial s) k") auto
    next
      case (Some p)
      with k have "aged (pt_touched p)" by (auto simp: aged_def)
      then have "t \<le> pt_touched p" unfolding t_def by (rule Least_le)
      with others [OF k] sub [OF Some] Some show ?thesis by simp
    qed
    then have "keeps_since s key t s'" unfolding keeps_since_def by blast
    then show ?thesis by blast
  next
    case False
    have none: "bt_get (ra_partial sm) k = None" if "k \<noteq> key" for k
      using False that by (cases "bt_get (ra_partial sm) k") (auto simp: aged_def)
    have "bt_get (ra_partial s') k = Option.bind (bt_get (ra_partial s) k)
        (\<lambda>p. if Suc (ra_clock s) \<le> pt_touched p then Some p else None)" if k: "k \<noteq> key" for k
    proof (cases "bt_get (ra_partial s) k")
      case (Some p)
      with ok have "pt_touched p \<le> ra_clock s" unfolding reassembler_ok_def by blast
      with Some none [OF k] others [OF k] show ?thesis by simp
    qed (simp add: none [OF k] others [OF k])
    then have "keeps_since s key (Suc (ra_clock s)) s'" unfolding keeps_since_def by blast
    then show ?thesis by blast
  qed
qed

text \<open>Nothing is dropped while the fragment fits the budget.\<close>

lemma over_budget_touch: "over_budget (touch s key) n = over_budget s n"
  by (simp add: over_budget_def touch_fields)

lemma feed_keeps_since:
  assumes ok: "reassembler_ok s" and srt: "sorts_pieces srt"
    and f: "feed srt s src fr = Some (s', r)"
  shows "\<exists>t. keeps_since s (src, fr_sequence fr) t s' \<and>
    (over_budget s (length (fr_payload fr)) \<or> t = 0)"
  using ok
proof (cases rule: feed_cases [where fr = fr and srt = srt and src = src])
  case (refused e)
  with f keeps_since_0 show ?thesis by fastforce
next
  case disagrees
  from ok have "bt_ok (ra_partial s)" by (simp add: reassembler_ok_def maps_ok_def)
  note get = remove_get [OF this, of "(src, fr_sequence fr)"]
  from disagrees(3) f have "s' = snd (reassembler_remove s (src, fr_sequence fr))" by simp
  with get have "keeps_since s (src, fr_sequence fr) 0 s'" by (intro keeps_since_0) simp
  then show ?thesis by blast
next
  case (accepted sm)
  let ?key = "(src, fr_sequence fr)"
  from feed_store_outcome [OF accepted(4,1,5,6) srt] f accepted(7)
  have "store_outcome srt sm ?key fr s' r" by auto
  then have others: "\<And>k. k \<noteq> ?key \<Longrightarrow> bt_get (ra_partial s') k = bt_get (ra_partial sm) k"
    by (simp add: store_outcome_def)
  show ?thesis
  proof (cases "over_budget s (length (fr_payload fr))")
    case True
    with evicts_keeps_since [OF ok accepted(3) others] show ?thesis by blast
  next
    case False
    with accepted(3) have "sm = touch s ?key" unfolding evicts_def over_budget_touch by blast
    with others have "keeps_since s ?key 0 s'" by (intro keeps_since_0) (simp add: touch_fields)
    then show ?thesis by blast
  qed
qed

end
