(* ===== verification/Reassembly.thy ===== *)
theory Reassembly
  imports Reassembler
begin

text \<open>
  The writer of fragments and the reassembler together. \<open>absorbed f S p\<close> is the abstraction of an
  entry \<open>p\<close> of the table: it holds the pieces of message \<open>f\<close> whose indices are in \<open>S\<close>, in whatever
  order they came. \<open>feed\<close> adds an index to \<open>S\<close>, and once every index is there it gives back the
  message. Traffic of other messages in between does not matter while nothing is evicted.
\<close>

section \<open>What an entry has absorbed\<close>

definition body_at :: "Fragments \<Rightarrow> bytes \<Rightarrow> Piece \<Rightarrow> nat \<Rightarrow> bool" where
  "body_at f arrived pc i \<longleftrightarrow>
     unat (pc_start pc) = fragments_start f i \<and> piece_in arrived pc \<and>
     take (unat (pc_len pc)) (drop (unat (pc_at pc)) arrived) = frag_body f i"

definition absorbed :: "Fragments \<Rightarrow> nat set \<Rightarrow> Partial \<Rightarrow> bool" where
  "absorbed f S p \<longleftrightarrow>
     S \<subseteq> {..<fs_count f} \<and>
     pt_total p = of_nat (length (fs_payload f)) \<and> pt_count p = of_nat (fs_count f) \<and>
     pt_channel p = (if 0 \<in> S then Some (of_bytes (fs_channel f)) else None) \<and>
     length (pt_arrived p) = (\<Sum>i\<in>S. length (frag_body f i)) \<and>
     (\<forall>i < fs_count f. (bt_get (pt_pieces p) (of_nat i) = None \<longleftrightarrow> i \<notin> S) \<and>
        (\<forall>pc. bt_get (pt_pieces p) (of_nat i) = Some pc \<longrightarrow> body_at f (pt_arrived p) pc i))"

definition collected :: "'k::linorder Reassembler \<Rightarrow> 'k \<times> u32 \<Rightarrow> Fragments \<Rightarrow> nat set \<Rightarrow> bool" where
  "collected s key f S \<longleftrightarrow>
     (case bt_get (ra_partial s) key of None \<Rightarrow> S = {} | Some p \<Rightarrow> S \<noteq> {} \<and> absorbed f S p)"

text \<open>A message of several fragments, as the writer makes them.\<close>

definition several :: "Fragments \<Rightarrow> bool" where
  "several f \<longleftrightarrow> fragments_wf f \<and> 1 < fs_count f"

lemma severalD:
  assumes "several f"
  shows "fragments_wf f" and "1 < fs_count f" and "fs_count f \<le> 65535"
    and "length (fs_payload f) \<le> MAX_MESSAGE_LEN"
  using assms by (auto simp: several_def fragments_wf_def)

lemma body_at_append: "body_at f arrived pc i \<Longrightarrow> body_at f (arrived @ rst) pc i"
  by (auto simp: body_at_def piece_in_def)

lemma sum_bodies:
  assumes "several f"
  shows "(\<Sum>i<fs_count f. length (frag_body f i)) = length (fs_payload f)"
proof -
  have "length (concat (map (frag_body f) [0..<fs_count f])) = (\<Sum>i\<leftarrow>[0..<fs_count f]. length (frag_body f i))"
    by (simp add: length_concat o_def)
  also have "\<dots> = (\<Sum>i<fs_count f. length (frag_body f i))"
    by (simp add: sum_list_distinct_conv_sum_set atLeast0LessThan)
  finally show ?thesis
    using concat_frag_bodies [of f] severalD [OF assms] by simp
qed

lemma of_nat_u16_inj: "i \<le> 65535 \<Longrightarrow> j \<le> 65535 \<Longrightarrow> (of_nat i :: u16) = of_nat j \<longleftrightarrow> i = j"
  using unat_u16 by metis

lemma of_nat_u16_less: "i \<le> 65535 \<Longrightarrow> j \<le> 65535 \<Longrightarrow> (of_nat i :: u16) < of_nat j \<longleftrightarrow> i < j"
  by (simp add: word_less_nat_alt)

lemma nth_fragment_fields [simp]:
  "fr_sequence (nth_fragment f i) = fs_sequence f"
  "fr_total (nth_fragment f i) = of_nat (length (fs_payload f))"
  "fr_offset (nth_fragment f i) = of_nat (fragments_start f i)"
  "fr_index (nth_fragment f i) = of_nat i"
  "fr_count (nth_fragment f i) = of_nat (fs_count f)"
  "fr_channel (nth_fragment f i) = (if i = 0 then Some (of_bytes (fs_channel f)) else None)"
  "fr_payload (nth_fragment f i) = frag_body f i"
  by (simp_all add: nth_fragment_def)

text \<open>The reassembler refuses no fragment of the writer. In particular there are never more
  fragments than bytes.\<close>

lemma fragments_count_le:
  assumes "several f"
  shows "fs_count f \<le> length (fs_payload f)"
proof -
  note F = severalD [OF assms]
  have "k \<le> fragments_start f k" for k
  proof (induction k)
    case (Suc k)
    with fragments_start_step [OF F(1,2), of k] show ?case by simp
  qed simp
  from this [of "fs_count f - 1"] fragments_start_less [OF F(1,2), of "fs_count f - 1"] F(2)
  show ?thesis by simp
qed

lemma nth_fragment_accepted:
  assumes f: "several f" and i: "i < fs_count f"
  shows "fragment_refused (nth_fragment f i) = None"
proof -
  note F = severalD [OF f]
  have "fragments_start f i \<le> MAX_MESSAGE_LEN" by (rule fragments_start_max [OF F(1) i])
  moreover have "fragments_start f i + length (frag_body f i) \<le> length (fs_payload f)"
    using length_frag_body [OF F(1) i] fragments_start_le_end [OF F(1) i] by simp
  moreover have "length (fs_payload f) \<le> usize_max"
    using F(4) by (simp add: MAX_MESSAGE_LEN_def usize_max_def)
  moreover have "\<not> (of_nat (fs_count f) :: u16) \<le> of_nat i"
    using i F(3) of_nat_u16_less [of i "fs_count f"] by (simp add: not_le)
  ultimately show ?thesis
    using F fragments_count_le [OF f] i
    by (simp add: fragment_refused_def Let_def checked_add_usize_def)
qed

section \<open>One more fragment\<close>

lemma collected_entry:
  fixes now :: nat
  assumes c: "collected s key f S" and f: "several f" and i: "i < fs_count f"
    and key: "key = (src, fs_sequence f)"
  defines "p \<equiv> entry_named (entry_or_insert s key (nth_fragment f i) now) (nth_fragment f i) now"
  shows "\<not> disagrees s key (nth_fragment f i)"
    and "absorbed f S (p\<lparr>pt_channel := if 0 \<in> S then Some (of_bytes (fs_channel f)) else None\<rparr>)"
    and "pt_channel p = (if 0 \<in> S \<or> i = 0 then Some (of_bytes (fs_channel f)) else None)"
proof -
  note F = severalD [OF f]
  show "\<not> disagrees s key (nth_fragment f i)"
    using c by (auto simp: collected_def disagrees_def absorbed_def split: option.splits)
  show "absorbed f S (p\<lparr>pt_channel := if 0 \<in> S then Some (of_bytes (fs_channel f)) else None\<rparr>)"
    using c by (auto simp: p_def collected_def absorbed_def entry_or_insert_def bt.get_empty
        split: option.splits)
  show "pt_channel p = (if 0 \<in> S \<or> i = 0 then Some (of_bytes (fs_channel f)) else None)"
    using c by (auto simp: p_def collected_def absorbed_def entry_or_insert_def entry_named_def
        split: option.splits)
qed

lemma sum_bodies_le:
  assumes f: "several f" and S: "S \<subseteq> {..<fs_count f}" and i: "i < fs_count f" "i \<notin> S"
  shows "(\<Sum>j\<in>S. length (frag_body f j)) + length (frag_body f i) \<le> length (fs_payload f)"
proof -
  have fin: "finite S" using S finite_subset by blast
  have "(\<Sum>j\<in>S. length (frag_body f j)) + length (frag_body f i)
      = (\<Sum>j\<in>insert i S. length (frag_body f j))"
    using fin i(2) by simp
  also have "\<dots> \<le> (\<Sum>j<fs_count f. length (frag_body f j))"
    using S i(1) by (intro sum_mono2) auto
  finally show ?thesis by (simp add: sum_bodies [OF f])
qed

lemma absorbed_vacant:
  assumes "absorbed f S p" and "i < fs_count f"
  shows "bt_get (pt_pieces p) (of_nat i) = None \<longleftrightarrow> i \<notin> S"
  using assms by (auto simp: absorbed_def split: option.splits)

lemma absorbed_add:
  assumes a: "absorbed f S (p\<lparr>pt_channel := c\<rparr>)" and f: "several f" and i: "i < fs_count f" "i \<notin> S"
    and wf: "bt_ok (pt_pieces p)"
    and ch: "pt_channel p = (if 0 \<in> S \<or> i = 0 then Some (of_bytes (fs_channel f)) else None)"
  shows "absorbed f (insert i S) (entry_add_piece p (nth_fragment f i))"
proof -
  note F = severalD [OF f]
  let ?q = "entry_add_piece p (nth_fragment f i)"
  from a have S: "S \<subseteq> {..<fs_count f}" and len: "length (pt_arrived p) = (\<Sum>i\<in>S. length (frag_body f i))"
    and vac: "\<And>j. j < fs_count f \<Longrightarrow> bt_get (pt_pieces p) (of_nat j) = None \<longleftrightarrow> j \<notin> S"
    and get: "\<And>j pc. j < fs_count f \<Longrightarrow> bt_get (pt_pieces p) (of_nat j) = Some pc \<Longrightarrow>
        body_at f (pt_arrived p) pc j"
    and tot: "pt_total p = of_nat (length (fs_payload f))" "pt_count p = of_nat (fs_count f)"
    by (simp_all add: absorbed_def)
  have fin: "finite S" using S finite_subset by blast
  note room = sum_bodies_le [OF f S i]
  have small: "length (pt_arrived p) \<le> MAX_MESSAGE_LEN" "length (frag_body f i) \<le> MAX_MESSAGE_LEN"
    using room len F(4) by linarith+
  have new: "body_at f (pt_arrived ?q) \<lparr>pc_start = of_nat (fragments_start f i),
      pc_at = of_nat (length (pt_arrived p)), pc_len = of_nat (length (frag_body f i))\<rparr> i"
    using small fragments_start_max [OF F(1) i(1)] by (simp add: body_at_def piece_in_def)
  have "(bt_get (pt_pieces ?q) (of_nat j) = None \<longleftrightarrow> j \<notin> insert i S) \<and>
      (\<forall>pc. bt_get (pt_pieces ?q) (of_nat j) = Some pc \<longrightarrow> body_at f (pt_arrived ?q) pc j)"
    if j: "j < fs_count f" for j
  proof (cases "j = i")
    case True
    then show ?thesis using new wf by (simp add: entry_add_piece_def bt.get_insert)
  next
    case False
    then have "(of_nat j :: u16) \<noteq> of_nat i" using of_nat_u16_inj [of j i] j i(1) F(3) by simp
    then have "bt_get (pt_pieces ?q) (of_nat j) = bt_get (pt_pieces p) (of_nat j)"
      using wf by (simp add: entry_add_piece_def bt.get_insert)
    with vac [OF j] get [OF j] False show ?thesis by (simp add: body_at_append)
  qed
  moreover have "length (pt_arrived ?q) = (\<Sum>i\<in>insert i S. length (frag_body f i))"
    using len fin i(2) by simp
  ultimately show ?thesis using S i(1) tot ch by (auto simp: absorbed_def)
qed

lemma absorbed_again:
  assumes a: "absorbed f S (p\<lparr>pt_channel := c\<rparr>)" and i: "i \<in> S"
    and ch: "pt_channel p = (if 0 \<in> S \<or> i = 0 then Some (of_bytes (fs_channel f)) else None)"
  shows "absorbed f S p"
  using assms by (auto simp: absorbed_def)

text \<open>The entry after the fragment, in the words of the reassembler.\<close>

lemma collected_entry_after:
  assumes t: "touched_ok s key" and c: "collected s key f S" and f: "several f"
    and i: "i < fs_count f" and key: "key = (src, fs_sequence f)"
  shows "\<not> overflows s key (nth_fragment f i)"
    and "absorbed f (insert i S) (entry_after s key (nth_fragment f i))"
proof -
  let ?p = "entry_named (entry_or_insert s key (nth_fragment f i) (ra_clock s)) (nth_fragment f i) (ra_clock s)"
  let ?c = "if 0 \<in> S then Some (of_bytes (fs_channel f)) else None"
  note C = collected_entry(1) [OF c f i key] collected_entry(2,3) [OF c f i key, where now = "ra_clock s"]
  note F = severalD [OF f]
  from C(2) have vac: "bt_get (pt_pieces ?p) (of_nat i) = None \<longleftrightarrow> i \<notin> S"
    and len: "length (pt_arrived ?p) = (\<Sum>i\<in>S. length (frag_body f i))"
    and S: "S \<subseteq> {..<fs_count f}" and tot: "pt_total ?p = of_nat (length (fs_payload f))"
    using absorbed_vacant [OF C(2) i] by (simp_all add: absorbed_def)
  have ok: "bt_ok (pt_pieces ?p)"
    using entry_ok(1) [OF t nth_fragment_accepted [OF f i] C(1), where now = "ra_clock s"]
    by (simp add: partial_ok_def partial_wf_def)
  show "\<not> overflows s key (nth_fragment f i)"
  proof (cases "i \<in> S")
    case True
    with vac show ?thesis by (simp add: overflows_def Let_def)
  next
    case False
    from sum_bodies_le [OF f S i False] len tot F(4) show ?thesis
      by (simp add: overflows_def Let_def)
  qed
  show "absorbed f (insert i S) (entry_after s key (nth_fragment f i))"
  proof (cases "i \<in> S")
    case True
    then have "insert i S = S" by blast
    with absorbed_again [OF C(2) True C(3)] vac True show ?thesis
      by (simp add: entry_after_def Let_def del: not_None_eq)
  next
    case False
    with absorbed_add [OF C(2) f i False ok C(3)] vac show ?thesis by (simp add: entry_after_def Let_def)
  qed
qed

section \<open>The last fragment\<close>

lemma gather_bodies:
  assumes f: "several f" and at: "\<And>i. i < fs_count f \<Longrightarrow> body_at f arrived (pc i) i"
  shows "k \<le> fs_count f \<Longrightarrow> k < fs_count f \<Longrightarrow>
    gather arrived (map pc [k..<fs_count f]) (take (fragments_start f k) (fs_payload f))
      = Some (Some (fs_payload f))"
proof (induction "fs_count f - k" arbitrary: k)
  case 0
  then show ?case by simp
next
  case (Suc n)
  note F = severalD [OF f]
  let ?s = "fragments_start f k" and ?p = "fs_payload f"
  have "?s \<le> length ?p" using fragments_start_le_end [OF F(1) Suc.prems(2)] by linarith
  then have len: "length (take ?s ?p) = ?s" by simp
  from at [OF Suc.prems(2)] have here: "unat (pc_start (pc k)) = ?s"
    "slice_range arrived (unat (pc_at (pc k))) (unat (pc_at (pc k)) + unat (pc_len (pc k)))
      = Some (frag_body f k)"
    by (simp_all add: body_at_def piece_in_def slice_range_def)
  have grow: "take ?s ?p @ frag_body f k = take (frag_end f k) ?p"
    using fragments_start_le_end(1) [OF F(1) Suc.prems(2)]
    by (metis frag_body_def le_add_diff_inverse take_add)
  have "gather arrived (map pc [k..<fs_count f]) (take ?s ?p)
      = gather arrived (map pc [Suc k..<fs_count f]) (take (frag_end f k) ?p)"
    using Suc.prems(2) here len by (simp add: upt_conv_Cons grow)
  also have "\<dots> = Some (Some ?p)"
  proof (cases "Suc k < fs_count f")
    case True
    with Suc.hyps(1) [of "Suc k"] Suc.hyps(2) frag_end_next [OF F(1) True] show ?thesis by simp
  next
    case False
    with Suc.prems(2) frag_end_last [OF F(1), of k] show ?thesis by simp
  qed
  finally show ?case .
qed

lemma sort_is_order:
  assumes srt: "sorts_pieces srt" and lt: "sorted_wrt (<) (map pc_start ps)"
  shows "srt ps = ps"
proof -
  from lt have sorted: "sorted (map pc_start ps)" and dist: "distinct (map pc_start ps)"
    by (simp_all add: strict_sorted_iff)
  from srt have m: "mset (srt ps) = mset ps" and s: "sorted (map pc_start (srt ps))"
    by (simp_all add: sorts_pieces_def)
  from m have "mset (map pc_start (srt ps)) = mset (map pc_start ps)" by simp
  with dist have "distinct (map pc_start (srt ps))" by (metis mset_eq_imp_distinct_iff)
  moreover from m have "set (srt ps) = set ps" by (rule mset_eq_setD)
  moreover have "inj_on pc_start (set (srt ps) \<union> set ps)"
    using dist m by (simp add: distinct_map mset_eq_setD [OF m])
  ultimately show ?thesis
    using map_sorted_distinct_set_unique [of pc_start "srt ps" ps] s sorted dist by blast
qed

lemma absorbed_keys:
  assumes a: "absorbed f {..<fs_count f} p" and f: "several f" and wf: "partial_wf p"
  shows "map fst (bt_entries (pt_pieces p)) = map of_nat [0..<fs_count f]"
proof -
  note F = severalD [OF f]
  from wf have ok: "bt_ok (pt_pieces p)"
    and below: "\<And>k pc. bt_get (pt_pieces p) k = Some pc \<Longrightarrow> k < pt_count p"
    by (auto simp: partial_wf_def)
  from a have count: "pt_count p = of_nat (fs_count f)"
    and have_all: "\<And>i. i < fs_count f \<Longrightarrow> bt_get (pt_pieces p) (of_nat i) \<noteq> None"
    by (simp_all add: absorbed_def del: not_None_eq)
  show ?thesis
  proof (rule bt.keys_unique [OF ok])
    show "sorted_wrt (<) (map of_nat [0..<fs_count f] :: u16 list)"
      using F(3) by (auto simp: sorted_wrt_map of_nat_u16_less
          intro!: sorted_wrt_mono_rel [OF _ sorted_wrt_upt])
  next
    fix k :: u16
    show "k \<in> set (map of_nat [0..<fs_count f]) \<longleftrightarrow> bt_get (pt_pieces p) k \<noteq> None"
    proof
      assume "k \<in> set (map of_nat [0..<fs_count f])"
      with have_all show "bt_get (pt_pieces p) k \<noteq> None" by auto
    next
      assume "bt_get (pt_pieces p) k \<noteq> None"
      then have "k < of_nat (fs_count f)" using below count by auto
      then have "unat k < fs_count f" using F(3) by (simp add: word_less_nat_alt)
      then show "k \<in> set (map of_nat [0..<fs_count f])" by (auto intro!: image_eqI [of _ _ "unat k"])
    qed
  qed
qed

lemma absorbed_assemble:
  assumes a: "absorbed f {..<fs_count f} p" and f: "several f" and wf: "partial_wf p"
    and srt: "sorts_pieces srt"
  shows "assemble srt p = Some (Some \<lparr>channel = of_bytes (fs_channel f), payload = fs_payload f\<rparr>)"
proof -
  note F = severalD [OF f]
  define pc where "pc = (\<lambda>i :: nat. the (bt_get (pt_pieces p) (of_nat i)))"
  from a have at: "body_at f (pt_arrived p) (pc i) i" if "i < fs_count f" for i
    using that by (auto simp: absorbed_def pc_def)
  from wf have "bt_entries (pt_pieces p)
      = map (\<lambda>k. (k, the (bt_get (pt_pieces p) k))) (map of_nat [0..<fs_count f])"
    using bt.entries_map [of "pt_pieces p"] absorbed_keys [OF a f wf] by (simp add: partial_wf_def)
  then have "map snd (bt_entries (pt_pieces p)) = map pc [0..<fs_count f]"
    by (simp add: pc_def o_def)
  then have vals: "bt_values (pt_pieces p) = map pc [0..<fs_count f]"
    by (simp only: bt_values_def bt_entries_def)
  have "pc_start (pc i) < pc_start (pc j)" if "i < j" "j < fs_count f" for i j
    using at [of i] at [of j] that fragments_start_mono [OF F(1,2) that(1)]
    by (simp add: body_at_def word_less_nat_alt)
  then have "sorted_wrt (<) (map pc_start (map pc [0..<fs_count f]))"
    by (auto simp: sorted_wrt_iff_nth_less)
  from sort_is_order [OF srt this] vals
  have sorted: "srt (bt_values (pt_pieces p)) = map pc [0..<fs_count f]" by simp
  have g: "gather (pt_arrived p) (map pc [0..<fs_count f]) [] = Some (Some (fs_payload f))"
    using gather_bodies [OF f at, of 0] F(2) by simp
  from a have "length (pt_arrived p) = length (fs_payload f)"
    and "pt_total p = of_nat (length (fs_payload f))"
    and "pt_channel p = Some (of_bytes (fs_channel f))"
    using sum_bodies [OF f] F(2) by (simp_all add: absorbed_def)
  with sorted g F(4) show ?thesis by (simp add: assemble_def)
qed

lemma absorbed_len:
  assumes a: "absorbed f S p" and f: "several f" and wf: "partial_wf p"
  shows "bt_len (pt_pieces p) = card S"
proof -
  note F = severalD [OF f]
  from wf have ok: "bt_ok (pt_pieces p)"
    and below: "\<And>k pc. bt_get (pt_pieces p) k = Some pc \<Longrightarrow> k < pt_count p"
    by (auto simp: partial_wf_def)
  from a have S: "S \<subseteq> {..<fs_count f}" and count: "pt_count p = of_nat (fs_count f)"
    by (simp_all add: absorbed_def)
  note vac = absorbed_vacant [OF a]
  have "{k. bt_get (pt_pieces p) k \<noteq> None} = of_nat ` S"
  proof (intro set_eqI iffI)
    fix k assume k: "k \<in> {k. bt_get (pt_pieces p) k \<noteq> None}"
    then have "k < of_nat (fs_count f)" using below count by auto
    then have "unat k < fs_count f" using F(3) by (simp add: word_less_nat_alt)
    with vac [of "unat k"] k show "k \<in> of_nat ` S" by (intro image_eqI [of _ _ "unat k"]) auto
  next
    fix k :: u16 assume "k \<in> of_nat ` S"
    then obtain i where i: "i \<in> S" "k = of_nat i" by blast
    with S vac [of i] show "k \<in> {k. bt_get (pt_pieces p) k \<noteq> None}" by blast
  qed
  moreover have "inj_on (of_nat :: nat \<Rightarrow> u16) S"
    using S F(3) of_nat_u16_inj by (intro inj_onI) (meson lessThan_iff less_imp_le order_trans subsetD)
  ultimately show ?thesis using bt.size_of_card [OF ok] card_image by (simp add: bt_len_size)
qed

section \<open>One call of feed\<close>

lemma feed_collects:
  assumes ok: "reassembler_ok s" and srt: "sorts_pieces srt" and f: "several f" and i: "i < fs_count f"
    and c: "collected s (src, fs_sequence f) f S"
  shows "\<exists>s' r. feed srt s src (nth_fragment f i) = Some (s', r) \<and> reassembler_ok s' \<and>
    (if insert i S = {..<fs_count f} then
       r = Inr (Some \<lparr>channel = of_bytes (fs_channel f), payload = fs_payload f\<rparr>) \<and>
       collected s' (src, fs_sequence f) f {}
     else r = Inr None \<and> collected s' (src, fs_sequence f) f (insert i S))"
  using ok
proof (cases rule: feed_cases [where fr = "nth_fragment f i" and srt = srt and src = src])
  case (refused e)
  with nth_fragment_accepted [OF f i] show ?thesis by simp
next
  case disagrees
  with collected_entry(1) [OF c f i refl] show ?thesis by simp
next
  case (accepted sm)
  let ?fr = "nth_fragment f i" and ?key = "(src, fs_sequence f)"
  from accepted(3) have same: "bt_get (ra_partial sm) ?key = bt_get (ra_partial s) ?key"
    using evictsD(3) by (fastforce simp: touch_fields)
  with c have csm: "collected sm ?key f S" by (simp add: collected_def)
  from accepted(4) have t: "touched_ok sm ?key" by simp
  have notdis: "\<not> disagrees sm ?key ?fr" by (rule collected_entry(1) [OF csm f i refl])
  note after = collected_entry_after [OF t csm f i refl]
  have wf: "partial_wf (entry_after sm ?key ?fr)"
    using entry_after_ok(1) [OF t accepted(1) notdis after(1)] .
  have len: "bt_len (pt_pieces (entry_after sm ?key ?fr)) = card (insert i S)"
    by (rule absorbed_len [OF after(2) f wf])
  from after(2) have sub: "insert i S \<subseteq> {..<fs_count f}" by (simp add: absorbed_def)
  have room: "\<And>p. bt_len (bt_insert ?key p (ra_partial sm)) \<le> MAX_FRAGMENT_BUFFERS"
    using accepted(6) by simp
  from feed_store_outcome [OF t accepted(1) notdis room srt] obtain s' r where
    st: "feed_store srt sm ?key ?fr = Some (s', r)" and out: "store_outcome srt sm ?key ?fr s' r" by blast
  from accepted(7) st have fd: "feed srt s src ?fr = Some (s', r)" by simp
  have count: "unat (fr_count ?fr) = fs_count f" using severalD(3) [OF f] by simp
  show ?thesis
  proof (cases "insert i S = {..<fs_count f}")
    case True
    with after(2) have "assemble srt (entry_after sm ?key ?fr)
        = Some (Some \<lparr>channel = of_bytes (fs_channel f), payload = fs_payload f\<rparr>)"
      using absorbed_assemble [OF _ f wf srt] by simp
    with out after(1) len True count fd show ?thesis
      by (auto simp: store_outcome_def collected_def)
  next
    case False
    with sub have "card (insert i S) < fs_count f"
      using psubset_card_mono [of "{..<fs_count f}" "insert i S"] by auto
    with out after len count fd False show ?thesis
      by (auto simp: store_outcome_def collected_def)
  qed
qed

text \<open>The count of evictions only goes up, and while it does not, no message is lost.\<close>

lemma submap_len:
  assumes "bt_ok m" and "bt_ok m'" and sub: "\<forall>k p. bt_get m' k = Some p \<longrightarrow> bt_get m k = Some p"
  shows "bt_len m' \<le> bt_len m" and "bt_len m' = bt_len m \<Longrightarrow> bt_get m' k = bt_get m k"
proof -
  let ?D = "\<lambda>m. {k. bt_get m k \<noteq> None}"
  have fin: "finite (?D m)"
    using finite_dom_map_of [of m] by (simp add: dom_def bt_get_def)
  have le: "?D m' \<subseteq> ?D m" using sub by fastforce
  have card: "bt_len m = card (?D m)" "bt_len m' = card (?D m')"
    using assms(1,2) by (simp_all add: bt_len_size bt.size_of_card)
  show "bt_len m' \<le> bt_len m" unfolding card by (rule card_mono [OF fin le])
  assume "bt_len m' = bt_len m"
  then have "?D m' = ?D m" unfolding card using card_subset_eq [OF fin le] by blast
  then have "bt_get m' k = None \<longleftrightarrow> bt_get m k = None" by blast
  then show "bt_get m' k = bt_get m k"
    using sub by (cases "bt_get m' k") auto
qed

lemma feed_others:
  assumes ok: "reassembler_ok s" and srt: "sorts_pieces srt" and fd: "feed srt s src fr = Some (s', r)"
  shows "ra_evicted s \<le> ra_evicted s'"
    and "key \<noteq> (src, fr_sequence fr) \<Longrightarrow> ra_evicted s' = ra_evicted s \<Longrightarrow>
      bt_get (ra_partial s') key = bt_get (ra_partial s) key"
proof -
  from ok have bt: "bt_ok (ra_partial s)" by (simp add: reassembler_ok_def maps_ok_def)
  have "ra_evicted s \<le> ra_evicted s' \<and> (key \<noteq> (src, fr_sequence fr) \<longrightarrow> ra_evicted s' = ra_evicted s \<longrightarrow>
      bt_get (ra_partial s') key = bt_get (ra_partial s) key)"
    using ok
  proof (cases rule: feed_cases [where fr = fr and srt = srt and src = src])
    case (refused e)
    with fd show ?thesis by simp
  next
    case disagrees
    with fd show ?thesis by (auto simp: remove_fields remove_get [OF bt])
  next
    case (accepted sm)
    let ?key = "(src, fr_sequence fr)"
    from feed_store_outcome [OF accepted(4,1,5,6) srt] fd accepted(7)
    have out: "store_outcome srt sm ?key fr s' r" by auto
    then have ev: "ra_evicted s' = ra_evicted sm"
      and others: "\<And>k. k \<noteq> ?key \<Longrightarrow> bt_get (ra_partial s') k = bt_get (ra_partial sm) k"
      by (simp_all add: store_outcome_def)
    from accepted(3) have cnt: "ra_evicted sm + bt_len (ra_partial sm) = ra_evicted s + bt_len (ra_partial s)"
      and sub: "\<forall>k p. bt_get (ra_partial sm) k = Some p \<longrightarrow> bt_get (ra_partial s) k = Some p"
      unfolding evicts_def touch_fields by blast+
    from accepted(4) have "bt_ok (ra_partial sm)" by (simp add: touched_ok_def maps_ok_def)
    note L = submap_len [OF bt this sub]
    from L(1) cnt ev have le: "ra_evicted s \<le> ra_evicted s'" by linarith
    have "bt_get (ra_partial s') key = bt_get (ra_partial s) key"
      if "key \<noteq> ?key" "ra_evicted s' = ra_evicted s"
    proof -
      from that(2) ev cnt have "bt_len (ra_partial sm) = bt_len (ra_partial s)" by linarith
      from L(2) [OF this] others [OF that(1)] show ?thesis by simp
    qed
    with le show ?thesis by blast
  qed
  then show "ra_evicted s \<le> ra_evicted s'"
    and "key \<noteq> (src, fr_sequence fr) \<Longrightarrow> ra_evicted s' = ra_evicted s \<Longrightarrow>
      bt_get (ra_partial s') key = bt_get (ra_partial s) key"
    by blast+
qed

section \<open>A run\<close>

text \<open>The answers to the fragments of one message, in a run over the traffic of many.\<close>

definition is_of :: "'k \<times> u32 \<Rightarrow> 'k \<times> Fragment \<Rightarrow> bool" where
  "is_of key x \<longleftrightarrow> (fst x, fr_sequence (snd x)) = key"

fun answers_of :: "'k \<times> u32 \<Rightarrow> ('k \<times> Fragment) list \<Rightarrow> (WireError + Frame option) list \<Rightarrow>
    (WireError + Frame option) list" where
  "answers_of key (x # xs) (r # rs) =
     (if is_of key x then r # answers_of key xs rs else answers_of key xs rs)"
| "answers_of key _ _ = []"

lemma feed_run_evicted:
  assumes "reassembler_ok s" and srt: "sorts_pieces srt" and "feed_run srt s xs = Some (s', rs)"
  shows "ra_evicted s \<le> ra_evicted s'"
  using assms(1,3)
proof (induction xs arbitrary: s rs)
  case Nil
  then show ?case by simp
next
  case (Cons x xs)
  obtain src fr where x: "x = (src, fr)" by (cases x)
  from Cons.prems x obtain s1 r rs' where fd: "feed srt s src fr = Some (s1, r)"
    and run: "feed_run srt s1 xs = Some (s', rs')"
    by (auto simp: bind_eq_Some_conv)
  from feed_keeps_ok [OF Cons.prems(1) srt, of src fr] fd have "reassembler_ok s1" by auto
  from Cons.IH [OF this run] feed_others(1) [OF Cons.prems(1) srt fd] show ?case by simp
qed

lemma feed_run_others:
  assumes "reassembler_ok s" and srt: "sorts_pieces srt" and "feed_run srt s xs = Some (s', rs)"
    and "\<forall>x \<in> set xs. \<not> is_of key x" and "xs = [] \<or> ra_evicted s' = ra_evicted s"
  shows "answers_of key xs rs = []" and "bt_get (ra_partial s') key = bt_get (ra_partial s) key"
proof -
  have "answers_of key xs rs = [] \<and> bt_get (ra_partial s') key = bt_get (ra_partial s) key"
    using assms(1,3-5)
  proof (induction xs arbitrary: s rs)
    case Nil
    then show ?case by simp
  next
    case (Cons x xs)
    obtain src fr where x: "x = (src, fr)" by (cases x)
    from Cons.prems x obtain s1 r rs' where fd: "feed srt s src fr = Some (s1, r)"
      and run: "feed_run srt s1 xs = Some (s', rs')" and rs: "rs = r # rs'"
      by (auto simp: bind_eq_Some_conv)
    from feed_keeps_ok [OF Cons.prems(1) srt, of src fr] fd have ok1: "reassembler_ok s1" by auto
    have ev: "ra_evicted s1 = ra_evicted s" "ra_evicted s' = ra_evicted s1"
      using feed_others(1) [OF Cons.prems(1) srt fd] feed_run_evicted [OF ok1 srt run] Cons.prems(4)
      by auto
    have "key \<noteq> (src, fr_sequence fr)" using Cons.prems(3) x by (auto simp: is_of_def)
    from feed_others(2) [OF Cons.prems(1) srt fd this ev(1)] Cons.IH [OF ok1 run] Cons.prems(3) ev(2) rs
    show ?case by simp
  qed
  then show "answers_of key xs rs = []" and "bt_get (ra_partial s') key = bt_get (ra_partial s) key"
    by blast+
qed

text \<open>
  The fragments of \<open>f\<close> in the run are those of the indices \<open>js @ [k]\<close>, in that order; either there
  is no other traffic or nothing is evicted.
\<close>

lemma feed_run_collects:
  assumes srt: "sorts_pieces srt" and f: "several f"
    and "reassembler_ok s" and "collected s (src, fs_sequence f) f S"
    and "filter (is_of (src, fs_sequence f)) xs = map (\<lambda>i. (src, nth_fragment f i)) (js @ [k])"
    and "S \<union> set (js @ [k]) = {..<fs_count f}" and "k \<notin> S \<union> set js"
    and "feed_run srt s xs = Some (s', rs)"
    and "(\<forall>x \<in> set xs. is_of (src, fs_sequence f) x) \<or> ra_evicted s' = ra_evicted s"
  shows "answers_of (src, fs_sequence f) xs rs = replicate (length js) (Inr None) @
    [Inr (Some \<lparr>channel = of_bytes (fs_channel f), payload = fs_payload f\<rparr>)]
    \<and> bt_get (ra_partial s') (src, fs_sequence f) = None"
  using assms(3-9)
proof (induction xs arbitrary: s S js rs)
  case Nil
  then show ?case by simp
next
  case (Cons x xs)
  let ?key = "(src, fs_sequence f)"
  let ?done = "Inr (Some \<lparr>channel = of_bytes (fs_channel f), payload = fs_payload f\<rparr>)"
  obtain src' fr where x: "x = (src', fr)" by (cases x)
  from Cons.prems(6) x obtain s1 r rs' where fd: "feed srt s src' fr = Some (s1, r)"
    and run: "feed_run srt s1 xs = Some (s', rs')" and rs: "rs = r # rs'"
    by (auto simp: bind_eq_Some_conv)
  from feed_keeps_ok [OF Cons.prems(1) srt, of src' fr] fd have ok1: "reassembler_ok s1" by auto
  have ev: "ra_evicted s \<le> ra_evicted s1" "ra_evicted s1 \<le> ra_evicted s'"
    using feed_others(1) [OF Cons.prems(1) srt fd] feed_run_evicted [OF ok1 srt run] by simp_all
  have alone: "(\<forall>x \<in> set xs. is_of ?key x) \<or> ra_evicted s' = ra_evicted s1"
    using Cons.prems(7) ev by auto
  show ?case
  proof (cases "is_of ?key x")
    case False
    then have "ra_evicted s1 = ra_evicted s" using Cons.prems(7) ev by auto
    with feed_others(2) [OF Cons.prems(1) srt fd, of ?key] False x
    have "collected s1 ?key f S" using Cons.prems(2) by (auto simp: collected_def is_of_def)
    from Cons.IH [OF ok1 this _ Cons.prems(4,5) run alone] Cons.prems(3) False rs
    show ?thesis by simp
  next
    case True
    then have src: "src' = src" using x by (simp add: is_of_def)
    obtain i ks where ji: "js @ [k] = i # ks" by (cases "js @ [k]") auto
    with Cons.prems(3) True x have fr: "fr = nth_fragment f i"
      and rest: "filter (is_of ?key) xs = map (\<lambda>i. (src, nth_fragment f i)) ks" by auto
    from ji have i_in: "i \<in> set (js @ [k])" by simp
    with Cons.prems(4) have i: "i < fs_count f" by blast
    from feed_collects [OF Cons.prems(1) srt f i Cons.prems(2)] fd fr src
    have step: "if insert i S = {..<fs_count f} then r = ?done \<and> collected s1 ?key f {}
        else r = Inr None \<and> collected s1 ?key f (insert i S)" by auto
    show ?thesis
    proof (cases js)
      case Nil
      with ji Cons.prems(4) have all: "insert i S = {..<fs_count f}" and "ks = []" by auto
      then have none: "\<forall>x \<in> set xs. \<not> is_of ?key x" using rest by (simp add: filter_empty_conv)
      with alone have "xs = [] \<or> ra_evicted s' = ra_evicted s1" by (cases xs) auto
      note others = feed_run_others [OF ok1 srt run none this]
      from step all have "r = ?done" "collected s1 ?key f {}" by simp_all
      then have "bt_get (ra_partial s1) ?key = None" by (simp add: collected_def split: option.splits)
      with others \<open>r = ?done\<close> True rs Nil show ?thesis by simp
    next
      case (Cons j js')
      with ji have ks: "ks = js' @ [k]" "i = j" by auto
      from Cons Cons.prems(5) ks(2) have k: "k \<notin> insert i S \<union> set js'" by auto
      have "k < fs_count f" using Cons.prems(4) by auto
      with k have not_all: "insert i S \<noteq> {..<fs_count f}" by blast
      with step have r: "r = Inr None" and c1: "collected s1 ?key f (insert i S)" by simp_all
      have "insert i S \<union> set (js' @ [k]) = {..<fs_count f}"
        using Cons.prems(4) Cons ks(2) by auto
      from Cons.IH [OF ok1 c1 rest [unfolded ks(1)] this k run alone]
      show ?thesis using True rs r Cons by simp
    qed
  qed
qed

lemma answers_of_all:
  "\<forall>x \<in> set xs. is_of key x \<Longrightarrow> length rs = length xs \<Longrightarrow> answers_of key xs rs = rs"
  by (induction key xs rs rule: answers_of.induct) auto

lemma decoded_run:
  assumes "map (\<lambda>i. dec i) ks = map (\<lambda>x. Inr (DFragment (snd x))) xs"
    and "\<forall>x \<in> set xs. fst x = src"
    and "\<And>i. i \<in> set ks \<Longrightarrow> dec i = Inr (DFragment (fr i))"
  shows "xs = map (\<lambda>i. (src, fr i)) ks"
  using assms
proof (induction ks arbitrary: xs)
  case Nil
  then show ?case by simp
next
  case (Cons i ks)
  then obtain x xs' where xs: "xs = x # xs'" by (cases xs) auto
  with Cons.prems have "x = (src, fr i)" by (cases x) auto
  with Cons xs show ?case by simp
qed

section \<open>Small traffic\<close>

text \<open>What a call adds at most, and a run that stays within the budget evicts nothing.\<close>

lemma bt_dom_finite: "finite {k. bt_get m k \<noteq> None}"
  using finite_dom_map_of [of m] by (simp add: dom_def bt_get_def)

lemma feed_within:
  assumes ok: "reassembler_ok s" and srt: "sorts_pieces srt" and fd: "feed srt s src fr = Some (s', r)"
    and room: "\<not> over_budget s (length (fr_payload fr))"
  shows "ra_evicted s' = ra_evicted s" and "bt_len (ra_partial s') \<le> bt_len (ra_partial s) + 1"
    and "ra_held s' \<le> ra_held s + (length (fr_payload fr) + PIECE_COST)"
proof -
  from ok have bt: "bt_ok (ra_partial s)" by (simp add: reassembler_ok_def maps_ok_def)
  have "ra_evicted s' = ra_evicted s \<and> bt_len (ra_partial s') \<le> bt_len (ra_partial s) + 1 \<and>
      ra_held s' \<le> ra_held s + (length (fr_payload fr) + PIECE_COST)"
    using ok
  proof (cases rule: feed_cases [where fr = fr and srt = srt and src = src])
    case (refused e)
    with fd show ?thesis by simp
  next
    case disagrees
    with fd remove_size [OF bt, of "(src, fr_sequence fr)"] show ?thesis
      by (auto simp: remove_fields reassembler_remove_def split: option.splits)
  next
    case (accepted sm)
    let ?key = "(src, fr_sequence fr)"
    from accepted(3) room have sm: "sm = touch s ?key" unfolding evicts_def over_budget_touch by blast
    from feed_store_outcome [OF accepted(4,1,5,6) srt] fd accepted(7)
    have out: "store_outcome srt sm ?key fr s' r" by auto
    then have ok': "bt_ok (ra_partial s')" and ev: "ra_evicted s' = ra_evicted sm"
      and others: "\<And>k. k \<noteq> ?key \<Longrightarrow> bt_get (ra_partial s') k = bt_get (ra_partial sm) k"
      by (simp_all add: store_outcome_def reassembler_ok_def maps_ok_def)
    have held: "ra_held s' \<le> ra_held s + (length (fr_payload fr) + PIECE_COST)"
      using out held_after_le [of sm ?key fr]
      by (auto simp: store_outcome_def sm touch_fields split: if_splits)
    have "{k. bt_get (ra_partial s') k \<noteq> None} \<subseteq> insert ?key {k. bt_get (ra_partial s) k \<noteq> None}"
      using others by (auto simp: sm touch_fields)
    then have "card {k. bt_get (ra_partial s') k \<noteq> None} \<le> card (insert ?key {k. bt_get (ra_partial s) k \<noteq> None})"
      by (intro card_mono) (simp_all add: bt_dom_finite del: not_None_eq)
    also have "\<dots> \<le> card {k. bt_get (ra_partial s) k \<noteq> None} + 1" by (rule card_insert_le_m1) simp_all
    finally have "bt_len (ra_partial s') \<le> bt_len (ra_partial s) + 1"
      using bt ok' by (simp add: bt_len_size bt.size_of_card)
    with ev held show ?thesis by (simp add: sm touch_fields)
  qed
  then show "ra_evicted s' = ra_evicted s" and "bt_len (ra_partial s') \<le> bt_len (ra_partial s) + 1"
    and "ra_held s' \<le> ra_held s + (length (fr_payload fr) + PIECE_COST)" by blast+
qed

lemma feed_run_within:
  assumes "reassembler_ok s" and srt: "sorts_pieces srt" and "feed_run srt s xs = Some (s', rs)"
    and "bt_len (ra_partial s) + length xs \<le> MAX_FRAGMENT_BUFFERS"
    and "ra_held s + (\<Sum>x\<leftarrow>xs. length (fr_payload (snd x)) + PIECE_COST) \<le> MAX_FRAGMENT_BYTES"
  shows "ra_evicted s' = ra_evicted s"
  using assms(1,3-5)
proof (induction xs arbitrary: s rs)
  case Nil
  then show ?case by simp
next
  case (Cons x xs)
  obtain src fr where x: "x = (src, fr)" by (cases x)
  from Cons.prems x obtain s1 r rs' where fd: "feed srt s src fr = Some (s1, r)"
    and run: "feed_run srt s1 xs = Some (s', rs')"
    by (auto simp: bind_eq_Some_conv)
  from feed_keeps_ok [OF Cons.prems(1) srt, of src fr] fd have ok1: "reassembler_ok s1" by auto
  have "\<not> over_budget s (length (fr_payload fr))"
    using Cons.prems(3,4) x by (simp add: over_budget_def)
  note W = feed_within [OF Cons.prems(1) srt fd this]
  from Cons.IH [OF ok1 run] W Cons.prems(3,4) x show ?case by simp
qed

end
