(* ===== verification/Multicast.thy ===== *)
theory Multicast
  imports Reassembly
begin

text \<open>
  \<open>bus::MulticastReceiver\<close>: from the datagrams of a udpm bus to the messages a filter wants; and
  \<open>bus::Pace\<close>, the time a replay holds between two events. The filter is an argument, as it is a type
  parameter of the code. Floating point is not modelled: the test \<open>rate > 0.0\<close> and the division and
  conversion \<open>(gap as f64 / rate) as u64\<close> are arguments of \<open>hold\<close>.
\<close>

section \<open>Receiving\<close>

record Received =
  rc_frame :: Frame
  rc_sequence :: u32
  rc_reassembled :: bool

text \<open>\<open>bool::then_some\<close>.\<close>

definition then_some :: "bool \<Rightarrow> 'a \<Rightarrow> 'a option" where
  "then_some c x = (if c then Some x else None)"

definition on_datagram ::
    "(Piece list \<Rightarrow> Piece list) \<Rightarrow> (string \<Rightarrow> bool) \<Rightarrow> 'k::linorder Reassembler \<Rightarrow> 'k \<Rightarrow> bytes \<Rightarrow>
     ('k Reassembler \<times> (WireError + Received option)) option" where
  "on_datagram srt wanted s src d =
     (case udpm_decode d of
        Inl e \<Rightarrow> Some (s, Inl e)
      | Inr (Whole sequence frame) \<Rightarrow>
          Some (s, Inr (then_some (wanted (channel frame))
            \<lparr>rc_frame = to_frame frame, rc_sequence = sequence, rc_reassembled = False\<rparr>))
      | Inr (DFragment fr) \<Rightarrow>
          (case feed srt s src fr of
             None \<Rightarrow> None
           | Some (s, Inl e) \<Rightarrow> Some (s, Inl e)
           | Some (s, Inr None) \<Rightarrow> Some (s, Inr None)
           | Some (s, Inr (Some frame)) \<Rightarrow>
               Some (s, Inr (then_some (wanted (channel frame))
                 \<lparr>rc_frame = frame, rc_sequence = fr_sequence fr, rc_reassembled = True\<rparr>))))"

definition receiver_in_flight :: "'k Reassembler \<Rightarrow> nat" where
  "receiver_in_flight s = reassembler_in_flight s"

definition receiver_evicted :: "'k Reassembler \<Rightarrow> nat" where
  "receiver_evicted s = reassembler_evicted s"

text \<open>A run of datagrams.\<close>

fun on_datagrams ::
    "(Piece list \<Rightarrow> Piece list) \<Rightarrow> (string \<Rightarrow> bool) \<Rightarrow> 'k::linorder Reassembler \<Rightarrow> ('k \<times> bytes) list \<Rightarrow>
     ('k Reassembler \<times> (WireError + Received option) list) option" where
  "on_datagrams srt wanted s [] = Some (s, [])"
| "on_datagrams srt wanted s ((src, d) # rst) =
     Option.bind (on_datagram srt wanted s src d) (\<lambda>(s, r).
     map_option (\<lambda>(s, rs). (s, r # rs)) (on_datagrams srt wanted s rst))"

lemma on_datagram_ok:
  assumes ok: "reassembler_ok s" and srt: "sorts_pieces srt"
  shows "\<exists>s' r. on_datagram srt wanted s src d = Some (s', r) \<and> reassembler_ok s'"
proof (cases "udpm_decode d")
  case (Inl e)
  with ok show ?thesis by (simp add: on_datagram_def)
next
  case (Inr x)
  show ?thesis
  proof (cases x)
    case (Whole sequence frame)
    with Inr ok show ?thesis by (simp add: on_datagram_def)
  next
    case (DFragment fr)
    obtain s' r where "feed srt s src fr = Some (s', r)" "reassembler_ok s'"
      using feed_keeps_ok [OF ok srt] by blast
    with Inr DFragment show ?thesis
      by (cases r) (auto simp: on_datagram_def split: option.splits)
  qed
qed

lemma on_datagrams_ok:
  assumes "reassembler_ok s" and srt: "sorts_pieces srt"
  shows "\<exists>s' rs. on_datagrams srt wanted s xs = Some (s', rs) \<and> reassembler_ok s' \<and> length rs = length xs"
  using assms(1)
proof (induction xs arbitrary: s)
  case Nil
  then show ?case by simp
next
  case (Cons x xs)
  obtain src d where x: "x = (src, d)" by (cases x)
  from on_datagram_ok [OF Cons.prems srt, of wanted src d] obtain s1 r where
    1: "on_datagram srt wanted s src d = Some (s1, r)" "reassembler_ok s1" by blast
  from Cons.IH [OF 1(2)] 1(1) x show ?case by auto
qed

text \<open>The answer to a fragment, from the answer of the reassembler.\<close>

fun receive :: "(string \<Rightarrow> bool) \<Rightarrow> Fragment \<Rightarrow> WireError + Frame option \<Rightarrow> WireError + Received option" where
  "receive wanted fr (Inl e) = Inl e"
| "receive wanted fr (Inr None) = Inr None"
| "receive wanted fr (Inr (Some frame)) = Inr (then_some (wanted (channel frame))
     \<lparr>rc_frame = frame, rc_sequence = fr_sequence fr, rc_reassembled = True\<rparr>)"

lemma on_datagram_fragment:
  assumes "udpm_decode d = Inr (DFragment fr)"
  shows "on_datagram srt wanted s src d = map_option (\<lambda>(s, r). (s, receive wanted fr r)) (feed srt s src fr)"
  using assms by (auto simp: on_datagram_def split: option.splits sum.splits)

lemma on_datagrams_fragments:
  assumes "map udpm_decode (map snd ds) = map (\<lambda>fr. Inr (DFragment fr)) frs" and "length ds = length frs"
  shows "on_datagrams srt wanted s ds =
    map_option (\<lambda>(s, rs). (s, map2 (receive wanted) frs rs)) (feed_run srt s (zip (map fst ds) frs))"
  using assms(2,1)
proof (induction ds frs arbitrary: s rule: list_induct2)
  case Nil
  then show ?case by simp
next
  case (Cons x ds fr frs)
  obtain src d where x: "x = (src, d)" by (cases x)
  with Cons.prems have d: "udpm_decode d = Inr (DFragment fr)"
    and rst: "map udpm_decode (map snd ds) = map (\<lambda>fr. Inr (DFragment fr)) frs" by simp_all
  show ?case
    by (simp add: x on_datagram_fragment [OF d] Cons.IH [OF rst] option.map_comp o_def case_prod_beta
        bind_map_option map_option_bind split: Option.bind_split)
qed

section \<open>Replaying at the rate of a log\<close>

datatype 'f Speed = Rate 'f | Unthrottled

record 'f Pace =
  pa_speed :: "'f Speed"
  pa_previous :: "i64 option"

text \<open>A \<open>Duration\<close> is a number of microseconds.\<close>

definition LONGEST_HOLD :: nat where "LONGEST_HOLD = 60 * 60 * 1000000"

definition pace_new :: "'f Speed \<Rightarrow> 'f Pace" where
  "pace_new speed = \<lparr>pa_speed = speed, pa_previous = None\<rparr>"

text \<open>\<open>i64::checked_sub\<close>.\<close>

definition checked_sub_i64 :: "i64 \<Rightarrow> i64 \<Rightarrow> int option" where
  "checked_sub_i64 a b =
     (let d = sint a - sint b in if - (2 ^ 63) \<le> d \<and> d < 2 ^ 63 then Some d else None)"

definition hold ::
    "('f \<Rightarrow> bool) \<Rightarrow> (int \<Rightarrow> 'f \<Rightarrow> nat) \<Rightarrow> 'f Pace \<Rightarrow> i64 \<Rightarrow> nat \<times> 'f Pace" where
  "hold positive micros p timestamp =
     (let was = pa_previous p; p' = p\<lparr>pa_previous := Some timestamp\<rparr> in
      (case (was, pa_speed p) of
         (Some was, Rate rate) \<Rightarrow>
           if positive rate then
             let gap = max (case checked_sub_i64 timestamp was of None \<Rightarrow> 0 | Some d \<Rightarrow> d) 0
             in min (micros gap rate) LONGEST_HOLD
           else 0
       | _ \<Rightarrow> 0,
       p'))"

lemma hold_le: "fst (hold positive micros p t) \<le> LONGEST_HOLD"
  by (simp add: hold_def Let_def split: option.split Speed.split)

lemma hold_Some:
  assumes "pa_previous p = Some was" and "pa_speed p = Rate rate" and "positive rate"
  shows "fst (hold positive micros p t) =
    min (micros (if sint was \<le> sint t \<and> sint t - sint was < 2 ^ 63 then sint t - sint was else 0) rate)
      LONGEST_HOLD"
  using assms by (auto simp: hold_def Let_def checked_sub_i64_def max_def)

lemma hold_zero:
  assumes "pa_previous p = None \<or> pa_speed p = Unthrottled \<or> (\<exists>r. pa_speed p = Rate r \<and> \<not> positive r)"
  shows "fst (hold positive micros p t) = 0"
  using assms by (auto simp: hold_def Let_def split: option.split Speed.split)

end
