(* ===== verification/Subs.thy ===== *)
theory Subs
  imports Wire "HOL-Library.Multiset"
begin

text \<open>
  \<open>bus::Subscriptions\<close>: the names and patterns of a client, and what a relay is told for each. The
  regex engine is not part of the crate, so it is two arguments: \<open>compile\<close>, which gives a compiled
  pattern or the text of an error, and \<open>is_match\<close>, which is \<open>None\<close> where the engine gives up. The count
  of patterns that gave up is a \<open>u64\<close> in the code and a \<open>nat\<close> here.
\<close>

section \<open>Definitions\<close>

datatype BadReason = OfName WireError | OfRegex string

record BadPattern =
  bp_pattern :: string
  bp_reason :: BadReason

datatype 're Rule = Name string | Pattern string 're

record 're Subscriptions =
  su_rules :: "'re Rule list"
  su_failures :: nat

text \<open>The characters that stand for something else in a Java regex. A string is a list of its UTF-8
  bytes here, and each of these is one byte that is part of no longer character.\<close>

definition metachars :: string where
  "metachars = CHR 0x5C # ''.+*?()|[]{}^$''"

definition escaped :: "string \<Rightarrow> string" where
  "escaped name = concat (map (\<lambda>c. if c \<in> set metachars then [CHR 0x5C, c] else [c]) name)"

fun rule_text :: "'re Rule \<Rightarrow> string" where
  "rule_text (Name name) = name"
| "rule_text (Pattern t c) = t"

fun rule_for_a_relay :: "'re Rule \<Rightarrow> string" where
  "rule_for_a_relay (Name name) = escaped name"
| "rule_for_a_relay (Pattern t c) = t"

definition subscriptions_new :: "'re Subscriptions" where
  "subscriptions_new = \<lparr>su_rules = [], su_failures = 0\<rparr>"

text \<open>\<open>crate::wire::log::CHANNEL_MAX\<close>.\<close>

definition NAME_MAX :: nat where "NAME_MAX = 999"

definition check_name :: "string \<Rightarrow> BadPattern + 're Rule" where
  "check_name ch =
     (case check_channel ch NAME_MAX of
        Inl e \<Rightarrow> Inl \<lparr>bp_pattern = ch, bp_reason = OfName e\<rparr>
      | Inr _ \<Rightarrow> Inr (Name ch))"

definition push :: "'re Subscriptions \<Rightarrow> 're Rule \<Rightarrow> 're Subscriptions" where
  "push s checked = s\<lparr>su_rules := su_rules s @ [checked]\<rparr>"

definition add_name :: "'re Subscriptions \<Rightarrow> string \<Rightarrow> BadPattern + 're Subscriptions" where
  "add_name s ch = and_then (check_name ch) (\<lambda>r. Inr (push s r))"

text \<open>\<open>format!("^(?:{pattern})$")\<close>.\<close>

definition anchored :: "string \<Rightarrow> string" where
  "anchored pattern = ''^(?:'' @ pattern @ '')$''"

definition check_pattern :: "(string \<Rightarrow> string + 're) \<Rightarrow> string \<Rightarrow> BadPattern + 're Rule" where
  "check_pattern compile pattern =
     (case compile (anchored pattern) of
        Inl e \<Rightarrow> Inl \<lparr>bp_pattern = pattern, bp_reason = OfRegex e\<rparr>
      | Inr c \<Rightarrow> Inr (Pattern pattern c))"

definition add_pattern ::
    "(string \<Rightarrow> string + 're) \<Rightarrow> 're Subscriptions \<Rightarrow> string \<Rightarrow> BadPattern + 're Subscriptions" where
  "add_pattern compile s pattern = and_then (check_pattern compile pattern) (\<lambda>r. Inr (push s r))"

definition find_rule :: "'re Subscriptions \<Rightarrow> string \<Rightarrow> string option" where
  "find_rule s sub = map_option rule_for_a_relay (find (\<lambda>r. rule_text r = sub) (su_rules s))"

text \<open>\<open>remove\<close>: the place of the first one, what it was told, and \<open>Vec::remove\<close>.\<close>

definition remove_rule :: "'re Subscriptions \<Rightarrow> string \<Rightarrow> string option \<times> 're Subscriptions" where
  "remove_rule s sub =
     (case position (\<lambda>r. rule_text r = sub) (su_rules s) of
        None \<Rightarrow> (None, s)
      | Some i \<Rightarrow>
          (Some (rule_for_a_relay (su_rules s ! i)),
           s\<lparr>su_rules := take i (su_rules s) @ drop (Suc i) (su_rules s)\<rparr>))"

text \<open>The closure of \<open>any\<close>, which stops at the first rule that selects the channel.\<close>

fun any_rule ::
    "('re \<Rightarrow> string \<Rightarrow> bool option) \<Rightarrow> 're Rule list \<Rightarrow> string \<Rightarrow> nat \<Rightarrow> bool \<times> nat" where
  "any_rule is_match [] ch failures = (False, failures)"
| "any_rule is_match (Name name # rst) ch failures =
     (if name = ch then (True, failures) else any_rule is_match rst ch failures)"
| "any_rule is_match (Pattern t compiled # rst) ch failures =
     (case is_match compiled ch of
        Some True \<Rightarrow> (True, failures)
      | Some False \<Rightarrow> any_rule is_match rst ch failures
      | None \<Rightarrow> any_rule is_match rst ch (failures + 1))"

definition matches ::
    "('re \<Rightarrow> string \<Rightarrow> bool option) \<Rightarrow> 're Subscriptions \<Rightarrow> string \<Rightarrow> bool \<times> 're Subscriptions" where
  "matches is_match s ch =
     (let (found, failures) = any_rule is_match (su_rules s) ch (su_failures s)
      in (found, s\<lparr>su_failures := failures\<rparr>))"

definition failures :: "'re Subscriptions \<Rightarrow> nat" where
  "failures s = su_failures s"

definition for_a_relay :: "'re Subscriptions \<Rightarrow> string list" where
  "for_a_relay s = map rule_for_a_relay (su_rules s)"

section \<open>Names are escaped\<close>

text \<open>
  A reader of regular expressions that knows only characters that stand for themselves: a backslash
  and a character is that character, and a character of \<open>metachars\<close> on its own is none.
\<close>

fun regex_literal :: "string \<Rightarrow> string option" where
  "regex_literal [] = Some []"
| "regex_literal (c # cs) =
     (if c = CHR 0x5C then (case cs of [] \<Rightarrow> None | d # ds \<Rightarrow> map_option ((#) d) (regex_literal ds))
      else if c \<in> set metachars then None
      else map_option ((#) c) (regex_literal cs))"

lemma escaped_Cons: "escaped (c # cs) = (if c \<in> set metachars then [CHR 0x5C, c] else [c]) @ escaped cs"
  by (simp add: escaped_def)

lemma regex_literal_escaped: "regex_literal (escaped name) = Some name"
proof (induction name)
  case Nil
  then show ?case by (simp add: escaped_def)
next
  case (Cons c cs)
  have "CHR 0x5C \<in> set metachars" by (simp add: metachars_def)
  with Cons show ?case by (auto simp: escaped_Cons)
qed

lemma escaped_inject: "escaped a = escaped b \<longleftrightarrow> a = b"
  using regex_literal_escaped by (metis option.inject)

section \<open>Matching\<close>

fun selects :: "('re \<Rightarrow> string \<Rightarrow> bool option) \<Rightarrow> string \<Rightarrow> 're Rule \<Rightarrow> bool" where
  "selects is_match ch (Name name) \<longleftrightarrow> name = ch"
| "selects is_match ch (Pattern t compiled) \<longleftrightarrow> is_match compiled ch = Some True"

fun gives_up :: "('re \<Rightarrow> string \<Rightarrow> bool option) \<Rightarrow> string \<Rightarrow> 're Rule \<Rightarrow> bool" where
  "gives_up is_match ch (Name name) \<longleftrightarrow> False"
| "gives_up is_match ch (Pattern t compiled) \<longleftrightarrow> is_match compiled ch = None"

lemma any_rule_eq:
  "any_rule is_match rules ch n =
    (list_ex (selects is_match ch) rules,
     n + length (filter (gives_up is_match ch) (takeWhile (\<lambda>r. \<not> selects is_match ch r) rules)))"
  by (induction is_match rules ch n rule: any_rule.induct) (auto split: option.splits bool.splits)

lemma matches_eq:
  "matches is_match s ch =
    (list_ex (selects is_match ch) (su_rules s),
     s\<lparr>su_failures := su_failures s +
       length (filter (gives_up is_match ch) (takeWhile (\<lambda>r. \<not> selects is_match ch r) (su_rules s)))\<rparr>)"
  by (simp add: matches_def any_rule_eq)

lemma add_name_matches:
  "case add_name s name of
     Inl e \<Rightarrow> name = [] \<or> 999 < length name \<or> 0 \<in> set (as_bytes name)
   | Inr s' \<Rightarrow> name \<noteq> [] \<and> length name \<le> 999 \<and> 0 \<notin> set (as_bytes name) \<and>
       (fst (matches is_match s' ch) \<longleftrightarrow> ch = name \<or> fst (matches is_match s ch))"
proof (cases "check_channel name NAME_MAX")
  case (Inl e)
  then have "\<not> check_channel name NAME_MAX = Inr ()" by simp
  then have "name = [] \<or> 999 < length name \<or> 0 \<in> set (as_bytes name)"
    unfolding check_channel_Inr_iff by (auto simp: NAME_MAX_def)
  with Inl show ?thesis by (simp add: add_name_def check_name_def)
next
  case (Inr u)
  then have ok: "check_channel name NAME_MAX = Inr ()" by simp
  then have "name \<noteq> []" "length name \<le> 999" "0 \<notin> set (as_bytes name)"
    unfolding check_channel_Inr_iff by (auto simp: NAME_MAX_def)
  with ok show ?thesis by (auto simp: add_name_def check_name_def push_def matches_eq)
qed

section \<open>Removing\<close>

lemma find_position: "find P xs = map_option (\<lambda>i. xs ! i) (position P xs)"
  by (induction xs) (auto simp: option.map_comp o_def)

lemma find_is_remove: "find_rule s sub = fst (remove_rule s sub)"
  by (simp add: find_rule_def remove_rule_def find_position split: option.splits)

text \<open>Exactly one rule goes, the first with that text, and the others keep their order.\<close>

lemma remove_rule_Some:
  assumes "remove_rule s sub = (Some told, s')"
  obtains before r after where "su_rules s = before @ r # after" and "rule_text r = sub"
    and "\<forall>q \<in> set before. rule_text q \<noteq> sub" and "told = rule_for_a_relay r"
    and "s' = s\<lparr>su_rules := before @ after\<rparr>"
proof -
  from assms obtain i where i: "position (\<lambda>r. rule_text r = sub) (su_rules s) = Some i"
    and told: "told = rule_for_a_relay (su_rules s ! i)"
    and s': "s' = s\<lparr>su_rules := take i (su_rules s) @ drop (Suc i) (su_rules s)\<rparr>"
    by (auto simp: remove_rule_def split: option.splits)
  from i have lt: "i < length (su_rules s)" and hit: "rule_text (su_rules s ! i) = sub"
    and miss: "\<forall>j < i. rule_text (su_rules s ! j) \<noteq> sub"
    unfolding position_Some_iff by blast+
  show ?thesis
  proof (rule that)
    show "su_rules s = take i (su_rules s) @ su_rules s ! i # drop (Suc i) (su_rules s)"
      using lt by (rule list_eq_take_nth_drop)
    show "\<forall>q \<in> set (take i (su_rules s)). rule_text q \<noteq> sub"
    proof
      fix q assume "q \<in> set (take i (su_rules s))"
      then obtain j where "j < i" "q = su_rules s ! j" by (auto simp: in_set_conv_nth)
      with miss show "rule_text q \<noteq> sub" by blast
    qed
  qed (use hit told s' in simp_all)
qed

lemma remove_rule_None: "fst (remove_rule s sub) = None \<longleftrightarrow> sub \<notin> rule_text ` set (su_rules s)"
proof (cases "position (\<lambda>r. rule_text r = sub) (su_rules s)")
  case None
  then have "sub \<notin> rule_text ` set (su_rules s)" by (auto simp: position_None_iff)
  with None show ?thesis by (simp add: remove_rule_def)
next
  case (Some i)
  then have "i < length (su_rules s)" "rule_text (su_rules s ! i) = sub"
    unfolding position_Some_iff by blast+
  then have "sub \<in> rule_text ` set (su_rules s)" by (metis imageI nth_mem)
  with Some show ?thesis by (simp add: remove_rule_def)
qed

lemma remove_rule_None_same: "fst (remove_rule s sub) = None \<Longrightarrow> snd (remove_rule s sub) = s"
  by (auto simp: remove_rule_def split: option.splits)

section \<open>A client and its relay\<close>

text \<open>
  The relay that serves this client adds the text of a subscription frame as a pattern and removes the
  first pattern with the text of an unsubscribe frame. \<open>agrees\<close>: the relay holds the texts that the
  client told it, each as often.
\<close>

definition agrees :: "'re Subscriptions \<Rightarrow> 'rr Subscriptions \<Rightarrow> bool" where
  "agrees client relay \<longleftrightarrow> mset (for_a_relay client) = mset (map rule_text (su_rules relay))"

lemma agrees_push:
  assumes "agrees client relay" and "rule_text p = rule_for_a_relay r"
  shows "agrees (push client r) (push relay p)"
  using assms by (simp add: agrees_def push_def for_a_relay_def)

lemma agrees_remove:
  assumes a: "agrees client relay" and rem: "remove_rule client sub = (Some told, client')"
  shows "\<exists>told' relay'. remove_rule relay told = (Some told', relay') \<and> agrees client' relay'"
proof -
  from rem obtain before r after where c: "su_rules client = before @ r # after"
    "told = rule_for_a_relay r" "client' = client\<lparr>su_rules := before @ after\<rparr>"
    by (rule remove_rule_Some)
  have "told \<in># mset (for_a_relay client)" by (simp add: for_a_relay_def c)
  then have "told \<in># mset (map rule_text (su_rules relay))" using a by (simp only: agrees_def)
  then have "told \<in> rule_text ` set (su_rules relay)" by simp
  then have "fst (remove_rule relay told) \<noteq> None" by (simp add: remove_rule_None)
  then obtain told' relay' where r': "remove_rule relay told = (Some told', relay')"
    by (cases "remove_rule relay told") auto
  then obtain b2 p a2 where p: "su_rules relay = b2 @ p # a2" "rule_text p = told"
    "relay' = relay\<lparr>su_rules := b2 @ a2\<rparr>" by (rule remove_rule_Some)
  have "agrees client' relay'" using a by (simp add: agrees_def for_a_relay_def c p)
  with r' show ?thesis by blast
qed

end
