(* ===== verification/ClientReaders.thy ===== *)
theory ClientReaders
  imports Readers Multicast Subs
begin

text \<open>
  The reader threads of a client: \<open>tcpq_reader\<close> on the stream of a relay, \<open>udpm_reader\<close> on a multicast
  socket. What a thread does is its counters and the messages it gives the handler, in order. The
  subscription set can change while a reader runs, so \<open>wanted\<close> is asked with the count of the turn.
\<close>

section \<open>Counters and deliveries\<close>

datatype 'k Origin = OMulticast 'k u32 | ORelay | OLog i64

record 'k Delivery =
  de_frame :: Frame
  de_timestamp :: i64
  de_origin :: "'k Origin"

record Counters =
  ct_received :: nat
  ct_delivered :: nat
  ct_discarded :: nat
  ct_in_flight :: nat
  ct_evicted :: nat

definition counters_new :: Counters where
  "counters_new = \<lparr>ct_received = 0, ct_delivered = 0, ct_discarded = 0, ct_in_flight = 0, ct_evicted = 0\<rparr>"

definition received :: "Counters \<Rightarrow> Counters" where
  "received c = c\<lparr>ct_received := ct_received c + 1\<rparr>"

definition delivered :: "Counters \<Rightarrow> Counters" where
  "delivered c = c\<lparr>ct_delivered := ct_delivered c + 1\<rparr>"

definition discarded :: "Counters \<Rightarrow> Counters" where
  "discarded c = c\<lparr>ct_discarded := ct_discarded c + 1\<rparr>"

lemmas counter_defs = received_def delivered_def discarded_def

type_synonym 'k reader = "Counters \<times> 'k Delivery list"

section \<open>The reader of a relay\<close>

definition TCPQ_FRAME_MAX :: nat where
  "TCPQ_FRAME_MAX = 4 + 4 + CHANNEL_READ_MAX + 4 + MAX_MESSAGE_LEN"

definition tcpq_item :: "(nat \<Rightarrow> string \<Rightarrow> bool) \<Rightarrow> (nat \<Rightarrow> i64) \<Rightarrow> nat \<Rightarrow> FrameRef \<Rightarrow> 'k reader \<Rightarrow> 'k reader" where
  "tcpq_item wanted now n frame st =
     (let (c, out) = st; c = received c in
      if \<not> wanted n (channel frame) then (discarded c, out)
      else (delivered c,
            out @ [\<lparr>de_frame = to_frame frame, de_timestamp = now n, de_origin = ORelay\<rparr>]))"

definition tcpq_skip :: "'k reader \<Rightarrow> 'k reader" where
  "tcpq_skip st = (let (c, out) = st in (discarded (received c), out))"

definition tcpq_reader ::
    "IoError option \<Rightarrow> (nat \<Rightarrow> string \<Rightarrow> bool) \<Rightarrow> (nat \<Rightarrow> i64) \<Rightarrow> nat \<Rightarrow> script \<Rightarrow> 'k reader \<Rightarrow>
     Stop option \<times> 'k reader" where
  "tcpq_reader torn wanted now n script st =
     fill_loop tcpq_decode torn (tcpq_item wanted now) tcpq_skip n script
       (with_limits (16 * 1024) TCPQ_FRAME_MAX) st"

text \<open>No frame either decoder asks for is above the ceiling of the buffer, so \<open>reserve\<close> never refuses
  and the buffer is never full.\<close>

lemma publish_at_no_need: "publish_at wrap d n m \<noteq> Need k"
  by (simp add: publish_at_def split: option.splits sum.splits)

lemma publish_frame_need:
  assumes "publish_frame wrap d n = Inr (Need k)" and "\<not> CHANNEL_READ_MAX < n"
  shows "k \<le> TCPQ_FRAME_MAX"
  using assms
  by (auto simp: publish_frame_def TCPQ_FRAME_MAX_def Let_def publish_at_no_need split: if_splits)

lemma pattern_frame_need:
  assumes "pattern_frame d n = Inr (Need k)" and "\<not> CHANNEL_READ_MAX < n"
  shows "k \<le> TCPQ_FRAME_MAX"
  using assms by (auto simp: pattern_frame_def TCPQ_FRAME_MAX_def split: if_splits option.splits)

lemma head_need: "8 \<le> TCPQ_FRAME_MAX"
  by (simp add: TCPQ_FRAME_MAX_def)

interpretation tcpq: bounded_stream tcpq_decode TCPQ_FRAME_MAX
proof unfold_locales
  fix d k assume "tcpq_decode d = Inr (Need k)"
  then show "k \<le> TCPQ_FRAME_MAX"
    by (auto simp: tcpq_decode_eq Let_def head_need intro: publish_frame_need split: if_splits)
qed

interpretation requests: bounded_stream decode_request TCPQ_FRAME_MAX
proof unfold_locales
  fix d k assume "decode_request d = Inr (Need k)"
  then show "k \<le> TCPQ_FRAME_MAX"
    by (auto simp: decode_request_eq Let_def head_need intro: publish_frame_need pattern_frame_need
        split: if_splits)
qed

lemma frame_buffer:
  "read_buffer_ok (with_limits 16384 TCPQ_FRAME_MAX)"
  "rb_ceiling (with_limits 16384 TCPQ_FRAME_MAX) = TCPQ_FRAME_MAX"
  "unread (with_limits 16384 TCPQ_FRAME_MAX) = []"
  by (simp_all add: with_limits_ok unread_new)
    (simp add: with_limits_def TCPQ_FRAME_MAX_def CHANNEL_READ_MAX_def MAX_MESSAGE_LEN_def Let_def)

lemma tcpq_reader_outcome:
  assumes "script_ok script"
  shows "loop_outcome tcpq_decode torn (tcpq_item wanted now) tcpq_skip script (script_bytes script) st
      (tcpq_reader torn wanted now n script st)"
proof -
  have "tcpq_decode [] = Inr (Need 8)" by (simp add: tcpq_decode_eq)
  with tcpq.loops_outcome(1) [OF frame_buffer(1,2) assms] show ?thesis
    by (simp add: tcpq_reader_def frame_buffer(3))
qed

lemma tcpq_reader_ends:
  assumes "script_ok script" and "3 * script_size script < n"
  shows "fst (tcpq_reader torn wanted now n script st) \<noteq> None"
proof -
  have "tcpq_decode [] = Inr (Need 8)" by (simp add: tcpq_decode_eq)
  with tcpq.loops_end(1) [OF frame_buffer(1,2) assms(1)] assms(2) show ?thesis
    by (simp add: tcpq_reader_def frame_buffer(3) tcpq.loop_size_def)
qed

text \<open>What the handlers add up to, with one set of subscriptions.\<close>

definition taken :: "'a option list \<Rightarrow> 'a list" where
  "taken evs = concat (map (\<lambda>ev. case ev of None \<Rightarrow> [] | Some x \<Rightarrow> [x]) evs)"

lemma taken_simps [simp]:
  "taken [] = []" "taken (None # evs) = taken evs" "taken (Some x # evs) = x # taken evs"
  by (simp_all add: taken_def)

lemma tcpq_handled:
  assumes "length ns \<le> length evs"
  shows "handle_all (tcpq_item (\<lambda>_. w) now) tcpq_skip ns evs (c, out) = (c', out') \<Longrightarrow>
    map de_frame out' = map de_frame out @ filter (\<lambda>f. w (channel f)) (taken (take (length ns) evs)) \<and>
    ct_received c' = ct_received c + length ns \<and>
    ct_delivered c' + length out = ct_delivered c + length out' \<and>
    ct_delivered c' + ct_discarded c' = ct_delivered c + ct_discarded c + length ns"
  using assms
proof (induction ns arbitrary: evs c out)
  case Nil
  then show ?case by simp
next
  case (Cons n ns)
  then obtain ev evs' where evs: "evs = ev # evs'" "length ns \<le> length evs'" by (cases evs) auto
  show ?case
  proof (cases ev)
    case None
    with Cons.IH [of evs' "discarded (received c)" out] Cons.prems evs show ?thesis
      by (simp add: tcpq_skip_def counter_defs)
  next
    case (Some f)
    let ?d = "\<lparr>de_frame = to_frame f, de_timestamp = now n, de_origin = ORelay\<rparr>"
    show ?thesis
    proof (cases "w (channel f)")
      case True
      with Cons.IH [of evs' "delivered (received c)" "out @ [?d]"] Cons.prems evs Some show ?thesis
        by (auto simp: tcpq_item_def counter_defs Let_def)
    next
      case False
      with Cons.IH [of evs' "discarded (received c)" out] Cons.prems evs Some show ?thesis
        by (simp add: tcpq_item_def counter_defs Let_def)
    qed
  qed
qed

lemma taken_map_Some [simp]: "taken (map Some xs) = xs"
  by (induction xs) simp_all

text \<open>The reader, from no count and no delivery.\<close>

lemma tcpq_reader_run:
  assumes "script_ok script" and "tcpq_reader torn (\<lambda>_. w) now n script (counters_new, []) = (r, (c', out :: 'k Delivery list))"
  shows "\<exists>xs left err k. drain tcpq_decode (script_bytes script) = Some (xs, left, err) \<and> k \<le> length xs \<and>
    map de_frame out = filter (\<lambda>f. w (channel f)) (taken (take k xs)) \<and>
    ct_received c' = k \<and> ct_delivered c' = length out \<and> ct_delivered c' + ct_discarded c' = k \<and>
    stop_ok torn script (k = length xs) err r"
proof -
  from tcpq_reader_outcome [OF assms(1), of torn "\<lambda>_. w" now "(counters_new, []) :: 'k reader" n] assms(2)
  obtain ns xs left err where o: "drain tcpq_decode (script_bytes script) = Some (xs, left, err)"
    "length ns \<le> length xs"
    and h: "(c', out) = handle_all (tcpq_item (\<lambda>_. w) now) tcpq_skip ns xs (counters_new, [])"
    and stop: "stop_ok torn script (length ns = length xs) err r"
    unfolding loop_outcome_def by auto
  from tcpq_handled [OF o(2) h [symmetric]] o stop show ?thesis by (auto simp: counters_new_def)
qed

text \<open>The bytes of any messages, cut into any reads.\<close>

lemma tcpq_reader_delivers:
  assumes pub: "list_all2 (\<lambda>f bs. publish f = Inr bs \<and> is_str (channel f)) fs bss"
    and script: "script_ok script" and came: "script_bytes script = concat bss"
    and errs: "\<forall>e. SError e \<in> set script \<longrightarrow> is_timeout e" and n: "3 * script_size script < n"
  shows "\<exists>c. \<exists>out :: 'k Delivery list. tcpq_reader torn (\<lambda>_. w) now n script (counters_new, []) =
      (Some (case torn of None \<Rightarrow> Closed | Some e \<Rightarrow> StopIo e), (c, out)) \<and>
    map de_frame out = filter (\<lambda>f. w (channel f)) fs \<and> ct_received c = length fs \<and>
    ct_delivered c = length out \<and> ct_delivered c + ct_discarded c = length fs"
proof -
  obtain r c and out :: "'k Delivery list" where
    run: "tcpq_reader torn (\<lambda>_. w) now n script (counters_new, []) = (r, (c, out))" by (metis surj_pair)
  from tcpq_reader_run [OF script run] obtain xs left err k where
    o: "drain tcpq_decode (script_bytes script) = Some (xs, left, err)" "k \<le> length xs"
    "map de_frame out = filter (\<lambda>f. w (channel f)) (taken (take k xs))" "ct_received c = k"
    "ct_delivered c = length out" "ct_delivered c + ct_discarded c = k"
    and stop: "stop_ok torn script (k = length xs) err r" by blast
  have xs: "xs = map Some fs" "err = None" using o(1) drain_published [OF pub] came by simp_all
  have "r \<noteq> None" using tcpq_reader_ends [OF script n, of torn "\<lambda>_. w" now "(counters_new, []) :: 'k reader"] run by simp
  with stop xs errs have "k = length xs" and "r = Some (case torn of None \<Rightarrow> Closed | Some e \<Rightarrow> StopIo e)"
    by (auto simp: stop_ok_def split: option.splits Stop.splits)
  with run o xs show ?thesis by simp
qed

section \<open>The reader of a multicast socket\<close>

datatype 'k UdpEvent = Datagram 'k bytes | UError IoError

text \<open>The receive buffer has 65536 bytes. With no more datagrams each receive times out.\<close>

fun udpm_reader ::
    "(Piece list \<Rightarrow> Piece list) \<Rightarrow> (nat \<Rightarrow> string \<Rightarrow> bool) \<Rightarrow> (nat \<Rightarrow> i64) \<Rightarrow> nat \<Rightarrow> 'k UdpEvent list \<Rightarrow>
     'k::linorder Reassembler \<Rightarrow> 'k reader \<Rightarrow> (Stop option \<times> 'k Reassembler \<times> 'k reader) option" where
  "udpm_reader srt wanted now 0 evs s st = Some (None, s, st)"
| "udpm_reader srt wanted now (Suc n) [] s st = udpm_reader srt wanted now n [] s st"
| "udpm_reader srt wanted now (Suc n) (UError e # evs) s (c, out) =
     (if is_timeout e then udpm_reader srt wanted now n evs s (c, out)
      else if is_transient e then udpm_reader srt wanted now n evs s (discarded c, out)
      else Some (Some (StopIo e), s, (c, out)))"
| "udpm_reader srt wanted now (Suc n) (Datagram src d # evs) s (c, out) =
     (case on_datagram srt (wanted n) s src (take 65536 d) of
        None \<Rightarrow> None
      | Some (s, r) \<Rightarrow>
          let c = received c;
              (c, out) = (case r of
                 Inr (Some rc) \<Rightarrow>
                   (delivered c,
                    out @ [\<lparr>de_frame = rc_frame rc, de_timestamp = now n,
                            de_origin = OMulticast src (rc_sequence rc)\<rparr>])
               | Inr None \<Rightarrow> (c, out)
               | Inl _ \<Rightarrow> (discarded c, out));
              c = c\<lparr>ct_in_flight := receiver_in_flight s, ct_evicted := receiver_evicted s\<rparr>
          in udpm_reader srt wanted now n evs s (c, out))"

definition udpm_counts :: "'k::linorder Reassembler \<Rightarrow> 'k reader \<Rightarrow> bool" where
  "udpm_counts s st \<longleftrightarrow> reassembler_ok s \<and> ct_delivered (fst st) = length (snd st) \<and>
     ct_in_flight (fst st) \<le> MAX_FRAGMENT_BUFFERS"

lemma in_flight_le: "reassembler_ok s \<Longrightarrow> receiver_in_flight s \<le> MAX_FRAGMENT_BUFFERS"
  by (simp add: reassembler_ok_def receiver_in_flight_def reassembler_in_flight_def)

lemma udpm_reader_total:
  assumes srt: "sorts_pieces srt" and "udpm_counts s st"
  shows "\<exists>stop s' st'. udpm_reader srt wanted now n evs s st = Some (stop, s', st') \<and> udpm_counts s' st' \<and>
    (case stop of None \<Rightarrow> True | Some r \<Rightarrow> \<exists>e. r = StopIo e \<and> UError e \<in> set evs \<and> \<not> is_timeout e \<and> \<not> is_transient e)"
  using assms(2)
proof (induction n arbitrary: evs s st)
  case 0
  then show ?case by simp
next
  case (Suc n)
  obtain c out where st: "st = (c, out)" by (cases st)
  show ?case
  proof (cases evs)
    case Nil
    with Suc.IH [OF Suc.prems, of "[]"] st show ?thesis by (fastforce split: option.splits)
  next
    case (Cons ev evs')
    have ih: "\<exists>stop s' st'. udpm_reader srt wanted now n evs' s1 st1 = Some (stop, s', st') \<and> udpm_counts s' st' \<and>
        (case stop of None \<Rightarrow> True | Some r \<Rightarrow>
          \<exists>e. r = StopIo e \<and> UError e \<in> set evs \<and> \<not> is_timeout e \<and> \<not> is_transient e)"
      if "udpm_counts s1 st1" for s1 st1
      using Suc.IH [OF that, of evs'] Cons by (fastforce split: option.splits)
    show ?thesis
    proof (cases ev)
      case (UError e)
      have "udpm_counts s (discarded c, out)"
        using Suc.prems st by (simp add: udpm_counts_def counter_defs)
      from ih [OF this] ih [OF Suc.prems] UError Cons st Suc.prems show ?thesis by auto
    next
      case (Datagram src d)
      from Suc.prems have "reassembler_ok s" by (simp add: udpm_counts_def)
      from on_datagram_ok [OF this srt] obtain s1 r where
        1: "on_datagram srt (wanted n) s src (take 65536 d) = Some (s1, r)" "reassembler_ok s1" by blast
      define st1 where "st1 = (case r of
          Inr (Some rc) \<Rightarrow> (delivered (received c), out @ [\<lparr>de_frame = rc_frame rc, de_timestamp = now n,
            de_origin = OMulticast src (rc_sequence rc)\<rparr>])
        | Inr None \<Rightarrow> (received c, out) | Inl _ \<Rightarrow> (discarded (received c), out))"
      let ?st = "((fst st1)\<lparr>ct_in_flight := receiver_in_flight s1, ct_evicted := receiver_evicted s1\<rparr>, snd st1)"
      have "udpm_counts s1 ?st"
        using Suc.prems 1(2) in_flight_le [OF 1(2)] st
        by (auto simp: udpm_counts_def st1_def counter_defs split: sum.splits option.splits)
      moreover have "udpm_reader srt wanted now (Suc n) evs s st = udpm_reader srt wanted now n evs' s1 ?st"
        using 1(1) Datagram Cons st by (simp add: st1_def case_prod_beta Let_def)
      ultimately show ?thesis using ih by simp
    qed
  qed
qed

text \<open>The reader over a bus with no error that stops it is the receiver over the datagrams that came.\<close>

definition datagrams_of :: "'k UdpEvent list \<Rightarrow> ('k \<times> bytes) list" where
  "datagrams_of evs = concat (map (\<lambda>ev. case ev of Datagram src d \<Rightarrow> [(src, take 65536 d)] | UError _ \<Rightarrow> []) evs)"

definition messages_of :: "(WireError + Received option) list \<Rightarrow> Received list" where
  "messages_of rs = concat (map (\<lambda>r. case r of Inr (Some rc) \<Rightarrow> [rc] | _ \<Rightarrow> []) rs)"

definition bus_stays :: "'k UdpEvent list \<Rightarrow> bool" where
  "bus_stays evs \<longleftrightarrow> (\<forall>e. UError e \<in> set evs \<longrightarrow> is_timeout e \<or> is_transient e)"

lemma bus_simps [simp]:
  "datagrams_of [] = []" "datagrams_of (Datagram src d # evs) = (src, take 65536 d) # datagrams_of evs"
  "datagrams_of (UError e # evs) = datagrams_of evs"
  "messages_of [] = []" "messages_of (Inl we # rs) = messages_of rs"
  "messages_of (Inr None # rs) = messages_of rs" "messages_of (Inr (Some rc) # rs) = rc # messages_of rs"
  "bus_stays []" "bus_stays (Datagram src d # evs) = bus_stays evs"
  "bus_stays (UError e # evs) \<longleftrightarrow> (is_timeout e \<or> is_transient e) \<and> bus_stays evs"
  by (auto simp: datagrams_of_def messages_of_def bus_stays_def)

lemma udpm_reader_silent: "udpm_reader srt wanted now n [] s st = Some (None, s, st)"
  by (induction n) simp_all

text \<open>The messages handed on, each with the sender of the datagram that completed it.\<close>

fun sourced :: "('k \<times> bytes) list \<Rightarrow> (WireError + Received option) list \<Rightarrow> ('k \<times> Received) list" where
  "sourced ((src, d) # xs) (r # rs) = (case r of Inr (Some rc) \<Rightarrow> [(src, rc)] | _ \<Rightarrow> []) @ sourced xs rs"
| "sourced _ _ = []"

lemma sourced_messages: "length xs = length rs \<Longrightarrow> map snd (sourced xs rs) = messages_of rs"
proof (induction xs rs rule: list_induct2)
  case (Cons x xs r rs)
  then show ?case by (cases x) (auto split: sum.split option.split)
qed simp

definition delivery_from :: "'k \<times> Received \<Rightarrow> Frame \<times> 'k Origin" where
  "delivery_from x = (rc_frame (snd x), OMulticast (fst x) (rc_sequence (snd x)))"

lemma udpm_reader_hands_on:
  assumes "bus_stays evs" and "length evs \<le> n"
    and "on_datagrams srt w s (datagrams_of evs) = Some (s', rs)"
  shows "\<exists>c' out'. udpm_reader srt (\<lambda>_. w) now n evs s (c, out) = Some (None, s', (c', out')) \<and>
    map (\<lambda>d. (de_frame d, de_origin d)) out' =
      map (\<lambda>d. (de_frame d, de_origin d)) out @ map delivery_from (sourced (datagrams_of evs) rs) \<and>
    ct_received c' = ct_received c + length rs"
  using assms
proof (induction evs arbitrary: n s c out rs)
  case Nil
  then show ?case by (simp add: udpm_reader_silent)
next
  case (Cons ev evs)
  then obtain m where n: "n = Suc m" "length evs \<le> m" by (cases n) auto
  show ?case
  proof (cases ev)
    case (UError e)
    with Cons.prems n have prems: "bus_stays evs" "length evs \<le> m"
      "on_datagrams srt w s (datagrams_of evs) = Some (s', rs)" by simp_all
    from Cons.IH [OF prems, of c out] Cons.IH [OF prems, of "discarded c" out] Cons.prems(1) UError n
    show ?thesis by (auto simp: counter_defs)
  next
    case (Datagram src d)
    with Cons.prems obtain s1 r rs1 where 1: "on_datagram srt w s src (take 65536 d) = Some (s1, r)"
      "on_datagrams srt w s1 (datagrams_of evs) = Some (s', rs1)" "rs = r # rs1"
      by (auto simp: bind_eq_Some_conv)
    have prems: "bus_stays evs" "length evs \<le> m" using Cons.prems(1) Datagram n by simp_all
    let ?upd = "\<lambda>c. c\<lparr>ct_in_flight := receiver_in_flight s1, ct_evicted := receiver_evicted s1\<rparr>"
    note IH = Cons.IH [OF prems 1(2)]
    show ?thesis
    proof (cases r)
      case (Inl e)
      from IH [of "?upd (discarded (received c))" out] Inl 1 Datagram n show ?thesis
        by (simp add: counter_defs)
    next
      case (Inr a)
      show ?thesis
      proof (cases a)
        case None
        from IH [of "?upd (received c)" out] None Inr 1 Datagram n show ?thesis
          by (simp add: counter_defs)
      next
        case (Some rc)
        let ?d = "\<lparr>de_frame = rc_frame rc, de_timestamp = now m, de_origin = OMulticast src (rc_sequence rc)\<rparr>"
        from IH [of "?upd (delivered (received c))" "out @ [?d]"] Some Inr 1 Datagram n show ?thesis
          by (simp add: counter_defs delivery_from_def)
      qed
    qed
  qed
qed

lemma udpm_reader_receives:
  assumes "bus_stays evs" and "length evs \<le> n" and run: "on_datagrams srt w s (datagrams_of evs) = Some (s', rs)"
  shows "\<exists>c' out'. udpm_reader srt (\<lambda>_. w) now n evs s (c, out) = Some (None, s', (c', out')) \<and>
    map de_frame out' = map de_frame out @ map rc_frame (messages_of rs) \<and> ct_received c' = ct_received c + length rs"
proof -
  have "length rs = length xs" if "on_datagrams srt w s xs = Some (s', rs)" for s xs rs
    using that by (induction srt w s xs arbitrary: rs rule: on_datagrams.induct) (auto simp: bind_eq_Some_conv)
  from this [OF run] have "map rc_frame (map snd (sourced (datagrams_of evs) rs)) = map rc_frame (messages_of rs)"
    by (simp only: sourced_messages)
  with udpm_reader_hands_on [OF assms, of now c out] show ?thesis
    by (auto simp: delivery_from_def comp_def dest!: arg_cong [where f = "map fst"])
qed

end
