(* ===== verification/LcmLog.thy ===== *)
theory LcmLog
  imports Tcpq
begin

text \<open>
  \<open>wire::log\<close>: the events of a log file. A \<open>Skip\<close> is an event whose length the sync word behind it
  bears out, and an error is a torn one, where a reader looks for the next sync word with \<open>resync\<close>.
  The decoder makes progress, but it is not one of a stream in pieces: four bytes more can turn an
  event into an error.
\<close>

section \<open>Definitions\<close>

definition LOG_MAGIC :: u32 where "LOG_MAGIC = 0xeda1da01"
definition HEADER_LEN :: nat where "HEADER_LEN = 28"
definition CHANNEL_MAX :: nat where "CHANNEL_MAX = 999"

record Event =
  ev_number :: i64
  ev_timestamp :: i64
  ev_frame :: FrameRef

definition log_encode :: "Event \<Rightarrow> WireError + bytes" where
  "log_encode event =
     and_then (check_channel (channel (ev_frame event)) CHANNEL_MAX) (\<lambda>_.
     let ch = as_bytes (channel (ev_frame event)); pl = payload (ev_frame event) in
     if length pl > MAX_MESSAGE_LEN then Inl (MessageTooLarge (length pl))
     else Inr (writer_finish
       (writer_bytes (writer_bytes
         (writer_u32 (writer_u32
           (writer_i64 (writer_i64 (writer_u32 writer_new LOG_MAGIC) (ev_number event)) (ev_timestamp event))
           (of_nat (length ch))) (of_nat (length pl))) ch) pl)))"

definition log_decode :: "bytes \<Rightarrow> WireError + Event Decoded" where
  "log_decode d =
     (if length d < HEADER_LEN then Inr (Need HEADER_LEN)
      else
        and_then (reader_u32 (reader_new d)) (\<lambda>(magic, r).
        if magic \<noteq> LOG_MAGIC then Inl (BadMagic magic)
        else
          and_then (reader_i64 r) (\<lambda>(number, r).
          and_then (reader_i64 r) (\<lambda>(timestamp, r).
          and_then (reader_u32 r) (\<lambda>(cl, r).
          and_then (reader_u32 r) (\<lambda>(plen, r).
          let channel_len = unat cl in
          if channel_len = 0 then Inl BadChannel
          else if channel_len > CHANNEL_MAX then Inl (ChannelTooLong channel_len)
          else
            let payload_len = unat plen in
            if payload_len > MAX_MESSAGE_LEN then Inl (MessageTooLarge payload_len)
            else
              let event = HEADER_LEN + channel_len + payload_len in
              if length d < event then Inr (Need event)
              else
                let behind = drop event d in
                if length behind \<ge> 4 \<and> take 4 behind \<noteq> to_be_bytes LOG_MAGIC
                then Inl (BadMagic (from_be_bytes (take 4 behind)))
                else
                  and_then (reader_take r channel_len) (\<lambda>(ch, r).
                  case from_utf8 ch of
                    None \<Rightarrow> Inr (Skip event)
                  | Some name \<Rightarrow>
                      (case check_channel name CHANNEL_MAX of
                         Inl _ \<Rightarrow> Inr (Skip event)
                       | Inr _ \<Rightarrow>
                           and_then (reader_take r payload_len) (\<lambda>(pl, r).
                           Inr (Item \<lparr>ev_number = number, ev_timestamp = timestamp,
                             ev_frame = \<lparr>channel = name, payload = pl\<rparr>\<rparr> event))))))))))"

record Peek =
  pk_timestamp :: i64
  pk_len :: nat

definition peek :: "bytes \<Rightarrow> WireError + Peek option" where
  "peek d =
     (if length d < HEADER_LEN then Inr None
      else
        and_then (reader_u32 (reader_new d)) (\<lambda>(magic, r).
        if magic \<noteq> LOG_MAGIC then Inl (BadMagic magic)
        else
          and_then (reader_i64 r) (\<lambda>(number, r).
          and_then (reader_i64 r) (\<lambda>(timestamp, r).
          and_then (reader_u32 r) (\<lambda>(cl, r).
          and_then (reader_u32 r) (\<lambda>(plen, r).
          let channel_len = unat cl; payload_len = unat plen in
          if channel_len = 0 then Inl BadChannel
          else if channel_len > CHANNEL_MAX then Inl (ChannelTooLong channel_len)
          else if payload_len > MAX_MESSAGE_LEN then Inl (MessageTooLarge payload_len)
          else Inr (Some \<lparr>pk_timestamp = timestamp,
                 pk_len = HEADER_LEN + channel_len + payload_len\<rparr>)))))))"

text \<open>\<open>data.windows(n)\<close>, for \<open>n\<close> above zero.\<close>

definition windows :: "nat \<Rightarrow> 'a list \<Rightarrow> 'a list list" where
  "windows n xs = map (\<lambda>i. take n (drop i xs)) [0..<length xs + 1 - n]"

definition resync :: "bytes \<Rightarrow> nat option" where
  "resync d =
     (let magic = to_be_bytes LOG_MAGIC in position (\<lambda>w. w = magic) (windows (length magic) d))"

section \<open>The decoders in closed form\<close>

definition field64 :: "bytes \<Rightarrow> nat \<Rightarrow> i64" where
  "field64 d p = from_be_bytes (take 8 (drop p d))"

lemma read_field64:
  "p + 8 \<le> length d \<Longrightarrow>
    reader_i64 \<lparr>data = d, pos = p\<rparr> = Inr (field64 d p, \<lparr>data = d, pos = p + 8\<rparr>)"
  by (simp add: reader_i64_eq field64_def)

text \<open>The tests of the head, which \<open>log_decode\<close> and \<open>peek\<close> share, and the event behind it.\<close>

definition log_head :: "bytes \<Rightarrow> WireError option" where
  "log_head d =
     (let n = unat (field32 d 20); m = unat (field32 d 24) in
      if field32 d 0 \<noteq> LOG_MAGIC then Some (BadMagic (field32 d 0))
      else if n = 0 then Some BadChannel
      else if n > CHANNEL_MAX then Some (ChannelTooLong n)
      else if m > MAX_MESSAGE_LEN then Some (MessageTooLarge m)
      else None)"

definition log_len :: "bytes \<Rightarrow> nat" where
  "log_len d = 28 + unat (field32 d 20) + unat (field32 d 24)"

definition log_event :: "bytes \<Rightarrow> Event Decoded" where
  "log_event d =
     (let n = unat (field32 d 20); m = unat (field32 d 24) in
      case from_utf8 (take n (drop 28 d)) of
        None \<Rightarrow> Skip (log_len d)
      | Some name \<Rightarrow>
          (case check_channel name CHANNEL_MAX of
             Inl _ \<Rightarrow> Skip (log_len d)
           | Inr _ \<Rightarrow> Item \<lparr>ev_number = field64 d 4, ev_timestamp = field64 d 12,
               ev_frame = \<lparr>channel = name, payload = take m (drop (28 + n) d)\<rparr>\<rparr> (log_len d)))"

lemmas log_reads = HEADER_LEN_def reader_new_def read_field32 read_field64

lemma peek_eq:
  "peek d =
    (if length d < 28 then Inr None
     else case log_head d of
       Some e \<Rightarrow> Inl e
     | None \<Rightarrow> Inr (Some \<lparr>pk_timestamp = field64 d 12, pk_len = log_len d\<rparr>))"
  by (cases "length d < 28")
    (simp_all add: peek_def log_reads log_head_def log_len_def Let_def)

lemma log_decode_eq:
  "log_decode d =
    (if length d < 28 then Inr (Need 28)
     else case log_head d of
       Some e \<Rightarrow> Inl e
     | None \<Rightarrow>
         if length d < log_len d then Inr (Need (log_len d))
         else if length d \<ge> log_len d + 4 \<and> field32 d (log_len d) \<noteq> LOG_MAGIC
         then Inl (BadMagic (field32 d (log_len d)))
         else Inr (log_event d))"
proof (cases "length d < 28 \<or> length d < log_len d")
  case True
  then show ?thesis
    by (cases "length d < 28") (simp_all add: log_decode_def log_reads log_head_def log_len_def Let_def)
next
  case False
  let ?n = "unat (field32 d 20)" and ?m = "unat (field32 d 24)"
  from False have l: "28 + ?n + ?m \<le> length d" by (simp add: log_len_def)
  then have n: "reader_take \<lparr>data = d, pos = 28\<rparr> ?n
      = Inr (take ?n (drop 28 d), \<lparr>data = d, pos = 28 + ?n\<rparr>)"
    and m: "reader_take \<lparr>data = d, pos = 28 + ?n\<rparr> ?m
      = Inr (take ?m (drop (28 + ?n) d), \<lparr>data = d, pos = 28 + ?n + ?m\<rparr>)"
    by (auto simp: reader_take_eq)
  have behind: "length (drop (log_len d) d) \<ge> 4 \<and> take 4 (drop (log_len d) d) \<noteq> to_be_bytes LOG_MAGIC
      \<longleftrightarrow> length d \<ge> log_len d + 4 \<and> field32 d (log_len d) \<noteq> LOG_MAGIC"
  proof (cases "length d \<ge> log_len d + 4")
    case True
    then have "take 4 (drop (log_len d) d) = to_be_bytes (field32 d (log_len d))"
      by (simp add: field32_bytes)
    moreover from True have "4 \<le> length (drop (log_len d) d)" by (simp add: le_diff_conv2)
    ultimately show ?thesis using True by (metis from_be_to_be_widths(2))
  next
    case shorter: False
    then have "length (drop (log_len d) d) < 4" by auto
    with shorter show ?thesis by simp
  qed
  from False n m behind l show ?thesis
    unfolding log_decode_def
    by (simp add: log_reads log_head_def log_len_def log_event_def field32_def [of d "_ + _"] Let_def
        split: option.splits sum.splits)
qed

section \<open>Promises\<close>

lemma log_event_lengths:
  "log_event d = Item x k \<Longrightarrow> k = log_len d" "log_event d = Skip k \<Longrightarrow> k = log_len d"
  "log_event d \<noteq> Need k"
  by (auto simp: log_event_def Let_def split: option.splits sum.splits)

lemma log_len_pos: "28 \<le> log_len d"
  by (simp add: log_len_def)

interpretation lcmlog: decoder_progress log_decode
proof unfold_locales
  show "length d < n" if "log_decode d = Inr (Need n)" for d n
    using that log_event_lengths(3) [of d n]
    by (auto simp: log_decode_eq split: if_splits option.splits)
  show "0 < n \<and> n \<le> length d" if "log_decode d = Inr (Item x n)" for d x n
    using that log_event_lengths(1) [of d x n] log_len_pos [of d]
    by (auto simp: log_decode_eq split: if_splits option.splits)
  show "0 < n \<and> n \<le> length d" if "log_decode d = Inr (Skip n)" for d n
    using that log_event_lengths(2) [of d n] log_len_pos [of d]
    by (auto simp: log_decode_eq split: if_splits option.splits)
qed

section \<open>Round trip\<close>

definition log_bytes :: "Event \<Rightarrow> bytes" where
  "log_bytes ev =
     to_be_bytes LOG_MAGIC @ to_be_bytes (ev_number ev) @ to_be_bytes (ev_timestamp ev) @
     to_be_bytes (of_nat (length (channel (ev_frame ev))) :: u32) @
     to_be_bytes (of_nat (length (payload (ev_frame ev))) :: u32) @
     as_bytes (channel (ev_frame ev)) @ payload (ev_frame ev)"

lemma log_encode_Inr:
  "log_encode ev = Inr bs \<longleftrightarrow> check_channel (channel (ev_frame ev)) CHANNEL_MAX = Inr () \<and>
    length (payload (ev_frame ev)) \<le> MAX_MESSAGE_LEN \<and> bs = log_bytes ev"
  by (auto simp: log_encode_def writer_defs log_bytes_def and_then_eq_Inr Let_def)

lemma length_log_bytes:
  "length (log_bytes ev) = 28 + length (channel (ev_frame ev)) + length (payload (ev_frame ev))"
  by (simp add: log_bytes_def)

lemma field64_hit: "p = length xs \<Longrightarrow> field64 (xs @ to_be_bytes v @ s) p = v"
  by (simp add: field64_def)

lemma log_fields:
  fixes e :: bytes
  assumes "length (channel (ev_frame ev)) \<le> CHANNEL_MAX"
    and "length (payload (ev_frame ev)) \<le> MAX_MESSAGE_LEN"
  defines "d \<equiv> log_bytes ev @ e" and "n \<equiv> length (channel (ev_frame ev))"
    and "m \<equiv> length (payload (ev_frame ev))"
  shows "field32 d 0 = LOG_MAGIC" and "field64 d 4 = ev_number ev" and "field64 d 12 = ev_timestamp ev"
    and "unat (field32 d 20) = n" and "unat (field32 d 24) = m"
    and "take n (drop 28 d) = as_bytes (channel (ev_frame ev))"
    and "take m (drop (28 + n) d) = payload (ev_frame ev)"
proof -
  let ?a = "to_be_bytes LOG_MAGIC" and ?b = "to_be_bytes (ev_number ev)"
    and ?c = "to_be_bytes (ev_timestamp ev)" and ?n = "of_nat n :: u32" and ?m = "of_nat m :: u32"
  show "field32 d 0 = LOG_MAGIC"
    using field32_hit [of 0 "[]"] by (simp add: d_def log_bytes_def)
  show "field64 d 4 = ev_number ev"
    using field64_hit [of 4 ?a] by (simp add: d_def log_bytes_def)
  show "field64 d 12 = ev_timestamp ev"
    using field64_hit [of 12 "?a @ ?b"] by (simp add: d_def log_bytes_def)
  have "field32 d 20 = ?n"
    using field32_hit [of 20 "?a @ ?b @ ?c" ?n] by (simp add: d_def log_bytes_def n_def)
  then show "unat (field32 d 20) = n"
    using assms(1) by (simp add: unat_u32_small CHANNEL_MAX_def n_def)
  have "field32 d 24 = ?m"
    using field32_hit [of 24 "?a @ ?b @ ?c @ to_be_bytes ?n" ?m] by (simp add: d_def log_bytes_def n_def m_def)
  then show "unat (field32 d 24) = m"
    using assms(2) by (simp add: unat_u32_small MAX_MESSAGE_LEN_def m_def)
qed (simp_all add: d_def n_def m_def log_bytes_def)

text \<open>What may stand behind an event: the end of the data, or the sync word of the next one.\<close>

definition behind_ok :: "bytes \<Rightarrow> bool" where
  "behind_ok e \<longleftrightarrow> length e < 4 \<or> take 4 e = to_be_bytes LOG_MAGIC"

lemma log_decode_encode:
  assumes "log_encode ev = Inr bs" and "is_str (channel (ev_frame ev))"
  shows "log_decode (bs @ e) =
    (if behind_ok e then Inr (Item ev (length bs)) else Inl (BadMagic (from_be_bytes (take 4 e))))"
proof -
  let ?d = "log_bytes ev @ e" and ?f = "ev_frame ev"
  from assms(1) have cc: "check_channel (channel ?f) CHANNEL_MAX = Inr ()"
    and m: "length (payload ?f) \<le> MAX_MESSAGE_LEN" and bs: "bs = log_bytes ev"
    by (simp_all add: log_encode_Inr)
  from cc have n: "length (channel ?f) \<le> CHANNEL_MAX" "length (channel ?f) \<noteq> 0"
    by (simp_all add: check_channel_Inr_iff)
  note F = log_fields [OF n(1) m, of e]
  have len: "log_len ?d = length (log_bytes ev)" by (simp add: log_len_def F(4,5) length_log_bytes)
  have head: "log_head ?d = None" using n m by (simp add: log_head_def F(1,4,5))
  have "log_event ?d = Item ev (length (log_bytes ev))"
    unfolding log_event_def Let_def F(4,5) F(2,3,6,7) len by (simp add: from_utf8_as_bytes assms(2) cc)
  moreover have "length e < 4 \<or> take 4 e = to_be_bytes LOG_MAGIC \<longleftrightarrow>
      \<not> (length ?d \<ge> log_len ?d + 4 \<and> field32 ?d (log_len ?d) \<noteq> LOG_MAGIC)"
  proof (cases "length e < 4")
    case False
    then have "to_be_bytes (field32 ?d (log_len ?d)) = take 4 e"
      by (subst field32_bytes) (simp_all add: len)
    with False len show ?thesis by (metis from_be_to_be_widths(2) length_append nat_add_left_cancel_le not_less)
  qed (simp add: len)
  moreover have "field32 ?d (log_len ?d) = from_be_bytes (take 4 e)"
    by (simp add: field32_def len)
  ultimately show ?thesis
    using head len by (simp add: bs log_decode_eq length_log_bytes behind_ok_def)
qed

text \<open>A whole log.\<close>

lemma behind_ok_log: "behind_ok [] \<and> behind_ok (log_bytes ev @ e)"
  by (simp add: behind_ok_def log_bytes_def)

lemma drain_log:
  assumes "list_all2 (\<lambda>ev bs. log_encode ev = Inr bs \<and> is_str (channel (ev_frame ev))) evs bss"
  shows "drain log_decode (concat bss) = Some (map Some evs, [], None)"
  using assms
proof (induction rule: list_all2_induct)
  case Nil
  then show ?case by (simp add: drain.simps log_decode_eq)
next
  case (Cons ev evs bs bss)
  have "behind_ok (concat bss)"
  proof (cases bss)
    case Nil
    then show ?thesis by (simp add: behind_ok_def)
  next
    case (Cons bs' bss')
    with Cons.hyps obtain ev' where "log_encode ev' = Inr bs'" by (auto simp: list_all2_Cons2)
    with Cons behind_ok_log show ?thesis by (simp add: log_encode_Inr)
  qed
  with Cons log_decode_encode [of ev bs "concat bss"] show ?case
    by (simp add: drain.simps [of _ "bs @ concat bss"])
qed

text \<open>What comes out of the decoder is what the encoder writes.\<close>

lemma field64_bytes: "p + 8 \<le> length d \<Longrightarrow> to_be_bytes (field64 d p) = take 8 (drop p d)"
  unfolding field64_def by (rule to_be_from_be) simp

lemma log_decode_sound:
  assumes "log_decode d = Inr (Item ev k)"
  shows "is_str (channel (ev_frame ev)) \<and> log_encode ev = Inr (take k d) \<and> k \<le> length d"
proof -
  let ?n = "unat (field32 d 20)" and ?m = "unat (field32 d 24)"
  from assms have head: "log_head d = None" and len: "log_len d \<le> length d" and it: "log_event d = Item ev k"
    by (auto simp: log_decode_eq split: if_splits option.splits)
  from head have magic: "field32 d 0 = LOG_MAGIC" and m: "?m \<le> MAX_MESSAGE_LEN"
    by (auto simp: log_head_def Let_def split: if_splits)
  from it obtain name where u: "from_utf8 (take ?n (drop 28 d)) = Some name"
    and cc: "check_channel name CHANNEL_MAX = Inr ()" and k: "k = log_len d"
    and ev: "ev = \<lparr>ev_number = field64 d 4, ev_timestamp = field64 d 12,
      ev_frame = \<lparr>channel = name, payload = take ?m (drop (28 + ?n) d)\<rparr>\<rparr>"
    by (auto simp: log_event_def Let_def split: option.splits sum.splits)
  from len have l: "28 + ?n + ?m \<le> length d" by (simp add: log_len_def)
  from u have name: "as_bytes name = take ?n (drop 28 d)" by (simp add: from_utf8_Some_iff)
  with l have nlen: "length name = ?n" using length_as_bytes [of name] by simp
  have "take k d = take (4 + (8 + (8 + (4 + (4 + (?n + ?m)))))) d" by (simp add: k log_len_def add_ac)
  also have "\<dots> = take 4 d @ take 8 (drop 4 d) @ take 8 (drop 12 d) @ take 4 (drop 20 d) @
      take 4 (drop 24 d) @ take ?n (drop 28 d) @ take ?m (drop (28 + ?n) d)"
    by (simp only: take_add drop_drop) (simp add: add.commute)
  also have "\<dots> = log_bytes ev"
    using l field32_bytes [of 0 d] field64_bytes [of 4 d] field64_bytes [of 12 d] field32_bytes [of 20 d]
      field32_bytes [of 24 d] magic name nlen
    by (simp add: ev log_bytes_def)
  finally have "log_encode ev = Inr (take k d)" using cc m by (simp add: log_encode_Inr ev)
  with u k len show ?thesis using from_utf8_is_str by (simp add: ev)
qed

text \<open>\<open>peek\<close> finds the end of each event \<open>log_decode\<close> reads, skips or waits for.\<close>

lemma peek_agrees:
  assumes "28 \<le> length d"
  shows "log_decode d = Inr (Item ev k) \<Longrightarrow> peek d = Inr (Some \<lparr>pk_timestamp = ev_timestamp ev, pk_len = k\<rparr>)"
    and "log_decode d = Inr (Skip k) \<Longrightarrow> \<exists>t. peek d = Inr (Some \<lparr>pk_timestamp = t, pk_len = k\<rparr>)"
    and "log_decode d = Inr (Need k) \<Longrightarrow> \<exists>t. peek d = Inr (Some \<lparr>pk_timestamp = t, pk_len = k\<rparr>)"
    and "peek d = Inl e \<Longrightarrow> log_decode d = Inl e"
proof -
  have ts: "log_event d = Item ev k \<Longrightarrow> ev_timestamp ev = field64 d 12 \<and> k = log_len d" for ev k
    by (auto simp: log_event_def Let_def split: option.splits sum.splits)
  show "log_decode d = Inr (Item ev k) \<Longrightarrow> peek d = Inr (Some \<lparr>pk_timestamp = ev_timestamp ev, pk_len = k\<rparr>)"
    using assms ts by (auto simp: log_decode_eq peek_eq split: if_splits option.splits)
  show "log_decode d = Inr (Skip k) \<Longrightarrow> \<exists>t. peek d = Inr (Some \<lparr>pk_timestamp = t, pk_len = k\<rparr>)"
    using assms log_event_lengths(2) [of d k]
    by (auto simp: log_decode_eq peek_eq split: if_splits option.splits)
  show "log_decode d = Inr (Need k) \<Longrightarrow> \<exists>t. peek d = Inr (Some \<lparr>pk_timestamp = t, pk_len = k\<rparr>)"
    using assms log_event_lengths(3) [of d k]
    by (auto simp: log_decode_eq peek_eq split: if_splits option.splits)
  show "peek d = Inl e \<Longrightarrow> log_decode d = Inl e"
    using assms by (auto simp: log_decode_eq peek_eq split: option.splits)
qed

section \<open>Resync\<close>

lemma nth_windows:
  assumes "i < length xs + 1 - n"
  shows "windows n xs ! i = take n (drop i xs)"
  using assms by (simp add: windows_def)

lemma length_windows [simp]: "length (windows n xs) = length xs + 1 - n"
  by (simp add: windows_def)

lemma resync_Some_iff:
  "resync d = Some i \<longleftrightarrow> i + 4 \<le> length d \<and> field32 d i = LOG_MAGIC \<and>
    (\<forall>j < i. field32 d j \<noteq> LOG_MAGIC)"
proof -
  have hit: "windows 4 d ! j = to_be_bytes LOG_MAGIC \<longleftrightarrow> field32 d j = LOG_MAGIC" if "j + 4 \<le> length d" for j
  proof -
    have "windows 4 d ! j = take 4 (drop j d)" using that by (intro nth_windows) simp
    also have "\<dots> = to_be_bytes (field32 d j)" using that by (simp add: field32_bytes)
    finally show ?thesis by (simp add: to_be_bytes_inject)
  qed
  have "resync d = Some i \<longleftrightarrow> i < length (windows 4 d) \<and> windows 4 d ! i = to_be_bytes LOG_MAGIC \<and>
      (\<forall>j < i. windows 4 d ! j \<noteq> to_be_bytes LOG_MAGIC)"
    by (simp add: resync_def Let_def position_Some_iff)
  also have "\<dots> \<longleftrightarrow> i + 4 \<le> length d \<and> field32 d i = LOG_MAGIC \<and> (\<forall>j < i. field32 d j \<noteq> LOG_MAGIC)"
    using hit by auto
  finally show ?thesis .
qed

lemma resync_None_iff: "resync d = None \<longleftrightarrow> (\<forall>i. i + 4 \<le> length d \<longrightarrow> field32 d i \<noteq> LOG_MAGIC)"
proof
  assume none: "resync d = None"
  show "\<forall>i. i + 4 \<le> length d \<longrightarrow> field32 d i \<noteq> LOG_MAGIC"
  proof (intro allI impI notI)
    fix i assume i: "i + 4 \<le> length d" "field32 d i = LOG_MAGIC"
    define j where "j = (LEAST j. field32 d j = LOG_MAGIC)"
    have "field32 d j = LOG_MAGIC" "j \<le> i" "\<forall>k < j. field32 d k \<noteq> LOG_MAGIC"
      unfolding j_def using i(2) by (auto intro: LeastI Least_le dest: not_less_Least)
    with i(1) have "resync d = Some j" by (simp add: resync_Some_iff)
    with none show False by simp
  qed
next
  assume "\<forall>i. i + 4 \<le> length d \<longrightarrow> field32 d i \<noteq> LOG_MAGIC"
  then show "resync d = None" by (cases "resync d") (auto simp: resync_Some_iff)
qed

end
