(* ===== verification/LogReader.thy ===== *)
theory LogReader
  imports ClientReaders LcmLog
begin

text \<open>
  The replay of a log: \<open>seek_before\<close>, \<open>log_reader\<close> and \<open>wait_until\<close>. As in \<open>Readers\<close>, the flag \<open>running\<close>
  is a number, read as set that many times, and the clock is a function of it. The file is its bytes for
  the walk over the heads, and a script of reads for the loop, which may fail in between with an error.
  An \<open>Instant\<close> is a number of microseconds; adding to one fails above the limit of the platform.
\<close>

section \<open>Definitions\<close>

definition LOG_EVENT_MAX :: nat where
  "LOG_EVENT_MAX = HEADER_LEN + CHANNEL_MAX + MAX_MESSAGE_LEN"

fun seek_walk :: "nat \<Rightarrow> bytes \<Rightarrow> i64 \<Rightarrow> nat \<Rightarrow> nat \<Rightarrow> nat \<times> nat" where
  "seek_walk 0 file timestamp at from = (from, 0)"
| "seek_walk (Suc n) file timestamp at from =
     (if length file < at + HEADER_LEN then (from, n)
      else case peek (take HEADER_LEN (drop at file)) of
        Inr (Some peeked) \<Rightarrow>
          if timestamp <=s pk_timestamp peeked then (at, n)
          else if 2 ^ 64 \<le> at + pk_len peeked then (at, n)
          else seek_walk n file timestamp (at + pk_len peeked) at
      | _ \<Rightarrow> (from, n))"

text \<open>Where the reader is to start, and what is left of \<open>running\<close>.\<close>

definition seek_before :: "nat \<Rightarrow> bytes \<Rightarrow> i64 \<Rightarrow> nat \<times> nat" where
  "seek_before n file timestamp = seek_walk n file timestamp 0 0"

fun wait_until :: "nat \<Rightarrow> (nat \<Rightarrow> nat) \<Rightarrow> nat \<Rightarrow> bool \<times> nat" where
  "wait_until target clock 0 = (target \<le> clock 0, 0)"
| "wait_until target clock (Suc n) =
     (if target \<le> clock (Suc n) then (True, Suc n) else wait_until target clock n)"

lemma wait_until_le: "wait_until target clock n = (ok, n') \<Longrightarrow> n' \<le> n"
  by (induction n) (fastforce split: if_splits)+

definition checked_add_instant :: "nat \<Rightarrow> nat \<Rightarrow> nat \<Rightarrow> nat option" where
  "checked_add_instant limit at d = (if at + d \<le> limit then Some (at + d) else None)"

text \<open>What the thread keeps: its counters, the messages it handed on, each with the time it waited for,
  the pace and the time it gave to the event before.\<close>

record ('k, 'f) Replay =
  rp_counters :: Counters
  rp_out :: "(nat \<times> 'k Delivery) list"
  rp_pace :: "'f Pace"
  rp_anchor :: "nat option"

text \<open>The parts of the environment: the flag \<open>start_timestamp\<close> of the URL, what is wanted, the clock and
  its limit, and the floating-point operations of the pace.\<close>

record 'f Env =
  en_start :: "i64 option"
  en_wanted :: "nat \<Rightarrow> string \<Rightarrow> bool"
  en_clock :: "nat \<Rightarrow> nat"
  en_limit :: nat
  en_positive :: "'f \<Rightarrow> bool"
  en_micros :: "int \<Rightarrow> 'f \<Rightarrow> nat"

text \<open>The sliding step where the bytes are no event.\<close>

definition slide :: "bytes \<Rightarrow> nat" where
  "slide d = (case (if d = [] then None else resync (drop 1 d)) of
     Some offset \<Rightarrow> 1 + offset | None \<Rightarrow> length d - 3)"

text \<open>What happens between the decoding of an event and the wait for it, and after the wait.\<close>

definition before_start :: "'f Env \<Rightarrow> Event \<Rightarrow> bool" where
  "before_start en ev = (case en_start en of Some start \<Rightarrow> ev_timestamp ev <s start | None \<Rightarrow> False)"

definition pace_event :: "'f Env \<Rightarrow> nat \<Rightarrow> Event \<Rightarrow> ('k, 'f) Replay \<Rightarrow> nat \<times> ('k, 'f) Replay" where
  "pace_event en n ev st =
     (let (h, pace) = hold (en_positive en) (en_micros en) (rp_pace st) (ev_timestamp ev);
          target = (case rp_anchor st of
             Some at \<Rightarrow> (case checked_add_instant (en_limit en) at h of Some t \<Rightarrow> t | None \<Rightarrow> at)
           | None \<Rightarrow> en_clock en n)
      in (target, st\<lparr>rp_pace := pace, rp_anchor := Some target\<rparr>))"

definition hand_on :: "'f Env \<Rightarrow> nat \<Rightarrow> nat \<Rightarrow> Event \<Rightarrow> ('k, 'f) Replay \<Rightarrow> ('k, 'f) Replay" where
  "hand_on en n target ev st =
     (if en_wanted en n (channel (ev_frame ev)) then
        st\<lparr>rp_counters := delivered (rp_counters st),
           rp_out := rp_out st @ [(target, \<lparr>de_frame = to_frame (ev_frame ev),
             de_timestamp = ev_timestamp ev, de_origin = OLog (ev_number ev)\<rparr>)]\<rparr>
      else st)"

definition count :: "(Counters \<Rightarrow> Counters) \<Rightarrow> ('k, 'f) Replay \<Rightarrow> ('k, 'f) Replay" where
  "count f st = st\<lparr>rp_counters := f (rp_counters st)\<rparr>"

function (sequential) log_loop ::
    "'f Env \<Rightarrow> nat \<Rightarrow> script \<Rightarrow> ReadBuffer \<Rightarrow> nat \<Rightarrow> ('k, 'f) Replay \<Rightarrow> Stop option \<times> ('k, 'f) Replay" where
  "log_loop en 0 script pending decoded st = (None, st)"
| "log_loop en (Suc n) script pending decoded st =
     (let pending = consume pending decoded in
      case log_decode (unread pending) of
        Inr (Item ev used) \<Rightarrow>
          let st = count received st in
          if before_start en ev then log_loop en n script pending used st
          else
            let (target, st) = pace_event en n ev st in
            (case wait_until target (en_clock en) n of
               (False, _) \<Rightarrow> (None, st)
             | (True, m) \<Rightarrow> log_loop en m script pending used (hand_on en m target ev st))
      | Inr (Skip k) \<Rightarrow> log_loop en n script pending k (count (discarded \<circ> received) st)
      | Inr (Need k) \<Rightarrow>
          (case reserve pending k of
             (False, _) \<Rightarrow> (Some (StopWire (MessageTooLarge k)), st)
           | (True, pending) \<Rightarrow>
               (case fill_socket pending script of
                  (Inr 0, pending, _) \<Rightarrow>
                    if unread pending = [] then (Some EndOfLog, st) else (Some TornLog, count discarded st)
                | (Inr (Suc _), pending, script) \<Rightarrow> log_loop en n script pending 0 st
                | (Inl e, pending, script) \<Rightarrow>
                    if is_timeout e then log_loop en n script pending 0 st else (Some (StopIo e), st)))
      | Inl _ \<Rightarrow> log_loop en n script pending (slide (unread pending)) (count discarded st))"
  by pat_completeness auto
termination
  by (relation "measure (\<lambda>(en, n, _). n)") (auto dest!: wait_until_le [OF sym])

text \<open>The whole thread. \<open>reads p\<close> is what the reads from the byte \<open>p\<close> on will find.\<close>

definition log_reader ::
    "'f Env \<Rightarrow> 'f Speed \<Rightarrow> bytes \<Rightarrow> (nat \<Rightarrow> script) \<Rightarrow> nat \<Rightarrow> Stop option \<times> ('k, 'f) Replay" where
  "log_reader en speed file reads n =
     (let (from, n) = (case en_start en of Some start \<Rightarrow> seek_before n file start | None \<Rightarrow> (0, n))
      in log_loop en n (reads from) (with_limits (64 * 1024) LOG_EVENT_MAX) 0
           \<lparr>rp_counters = counters_new, rp_out = [], rp_pace = pace_new speed, rp_anchor = None\<rparr>)"

section \<open>One turn of the loop\<close>

text \<open>No event is above the ceiling of the buffer.\<close>

lemma log_need_le:
  assumes "log_decode d = Inr (Need k)"
  shows "k \<le> LOG_EVENT_MAX"
  using assms log_event_lengths(3) [of d k]
  by (auto simp: log_decode_eq LOG_EVENT_MAX_def HEADER_LEN_def log_len_def log_head_def Let_def
      split: if_splits option.splits)

lemma log_error_long: "log_decode d = Inl e \<Longrightarrow> 28 \<le> length d"
  by (auto simp: log_decode_eq split: if_splits)

lemma slide_within:
  assumes "4 \<le> length d"
  shows "0 < slide d" and "slide d \<le> length d"
proof -
  from assms have ne: "d \<noteq> []" by auto
  have "i + 4 \<le> length (drop 1 d)" if "resync (drop 1 d) = Some i" for i
    using that by (simp add: resync_Some_iff)
  with ne assms show "0 < slide d" and "slide d \<le> length d"
    by (fastforce simp: slide_def split: option.splits)+
qed

definition pending_ok :: "ReadBuffer \<Rightarrow> bool" where
  "pending_ok b \<longleftrightarrow> read_buffer_ok b \<and> rb_ceiling b = LOG_EVENT_MAX"

lemma pending_new: "pending_ok (with_limits 65536 LOG_EVENT_MAX)"
  by (simp add: pending_ok_def with_limits_ok)
    (simp add: with_limits_def LOG_EVENT_MAX_def MAX_MESSAGE_LEN_def Let_def)

lemma pending_consume:
  "pending_ok b \<Longrightarrow> pending_ok (consume b k) \<and> unread (consume b k) = drop k (unread b)"
  by (simp add: pending_ok_def consume_ok)

text \<open>The step from a decoded event to the next turn: the count, the wait, the handler.\<close>

definition event_turn ::
    "'f Env \<Rightarrow> nat \<Rightarrow> Event \<Rightarrow> ('k, 'f) Replay \<Rightarrow> (nat \<times> ('k, 'f) Replay) + ('k, 'f) Replay" where
  "event_turn en n ev st =
     (if before_start en ev then Inl (n, count received st)
      else
        let (target, st) = pace_event en n ev (count received st) in
        (case wait_until target (en_clock en) n of
           (False, _) \<Rightarrow> Inr st
         | (True, m) \<Rightarrow> Inl (m, hand_on en m target ev st)))"

lemma event_turn_le: "event_turn en n ev st = Inl (m, st') \<Longrightarrow> m \<le> n"
  by (auto simp: event_turn_def split: if_splits prod.splits bool.splits dest: wait_until_le)

lemma log_turn [consumes 3, case_names item stopped skip error read eof failed]:
  fixes en :: "'f Env" and n :: nat and st :: "('k, 'f) Replay"
  assumes ok: "pending_ok b" and script: "script_ok script" and le: "decoded \<le> length (unread b)"
  defines "u \<equiv> drop decoded (unread b)"
  defines "out \<equiv> log_loop en (Suc n) script b decoded st"
  obtains (item) ev k m st' where "log_decode u = Inr (Item ev k)" and "event_turn en n ev st = Inl (m, st')"
      and "out = log_loop en m script (consume b decoded) k st'"
  | (stopped) ev k st' where "log_decode u = Inr (Item ev k)" and "event_turn en n ev st = Inr st'"
      and "out = (None, st')"
  | (skip) k where "log_decode u = Inr (Skip k)"
      and "out = log_loop en n script (consume b decoded) k (count (discarded \<circ> received) st)"
  | (error) e where "log_decode u = Inl e"
      and "out = log_loop en n script (consume b decoded) (slide u) (count discarded st)"
  | (read) k b' script' bs where "log_decode u = Inr (Need k)" and "out = log_loop en n script' b' 0 st"
      and "pending_ok b'" and "script_ok script'" and "unread b' = u @ bs"
      and "bs @ script_bytes script' = script_bytes script"
      and "length bs + 3 * script_size script' < 3 * script_size script"
      and "\<forall>e. SError e \<in> set script' \<longrightarrow> SError e \<in> set script"
  | (eof) k where "log_decode u = Inr (Need k)" and "script = []"
      and "out = (if u = [] then (Some EndOfLog, st) else (Some TornLog, count discarded st))"
  | (failed) k e where "log_decode u = Inr (Need k)" and "SError e \<in> set script" and "\<not> is_timeout e"
      and "out = (Some (StopIo e), st)"
proof -
  let ?b = "consume b decoded"
  from pending_consume [OF ok] have b: "pending_ok ?b" "unread ?b = u" by (simp_all add: u_def)
  show ?thesis
  proof (cases "log_decode u")
    case (Inl e)
    with b(2) error [of e] show ?thesis by (simp add: out_def Let_def)
  next
    case (Inr r)
    show ?thesis
    proof (cases r)
      case (Item ev k)
      show ?thesis
      proof (cases "event_turn en n ev st")
        case (Inl a)
        then obtain m st' where "event_turn en n ev st = Inl (m, st')" by (cases a) auto
        with Inr Item b(2) item [of ev k m st'] show ?thesis
          by (auto simp: out_def event_turn_def Let_def split: prod.splits bool.splits if_splits)
      next
        case (Inr st')
        with \<open>log_decode u = Inr r\<close> Item b(2) stopped [of ev k st'] show ?thesis
          by (auto simp: out_def event_turn_def Let_def split: prod.splits bool.splits if_splits)
      qed
    next
      case (Skip k)
      with Inr b(2) skip [of k] show ?thesis by (simp add: out_def Let_def)
    next
      case (Need k)
      with Inr have need: "log_decode u = Inr (Need k)" by simp
      obtain yes b1 where res: "reserve ?b k = (yes, b1)" by (cases "reserve ?b k")
      note R = reserve_ok [OF _ res]
      from b(1) have "read_buffer_ok ?b" and ceil: "rb_ceiling ?b = LOG_EVENT_MAX" by (simp_all add: pending_ok_def)
      note R = R [OF this(1)]
      from log_need_le [OF need] ceil R(4) have yes: "yes = True" by simp
      obtain r1 b2 script' where f: "fill_socket b1 script = (r1, b2, script')" by (cases "fill_socket b1 script") auto
      have short: "length u < k" using lcmlog.need_more [OF need] .
      from R(1) script f show ?thesis
      proof (cases rule: fill_socket_cases)
        case full
        with R(2,3) b(2) ceil short log_need_le [OF need] show ?thesis by simp
      next
        case (error e)
        show ?thesis
        proof (cases "is_timeout e")
          case True
          have "out = log_loop en n script' b2 0 st" "unread b2 = u @ []"
            using need b(2) res yes f error True R(2) by (simp_all add: out_def Let_def)
          with read [OF need, of script' b2 "[]"] error R(3) ceil fill_error_script [OF f] show ?thesis
            by (simp add: pending_ok_def)
        next
          case False
          have "out = (Some (StopIo e), st)"
            using need b(2) res yes f error False by (simp add: out_def Let_def)
          with failed [OF need] error False show ?thesis by blast
        qed
      next
        case closed
        from f closed have "unread b2 = unread b1"
          using fill_from_ok [OF R(1) read_once_within, of script] 
          by (auto simp: fill_socket_def split: prod.splits sum.splits option.splits)
        then have "unread b2 = u" using R(2) b(2) by simp
        with need b(2) res yes f closed have "out = (if u = [] then (Some EndOfLog, st) else (Some TornLog, count discarded st))"
          by (simp add: out_def Let_def)
        with eof [OF need] closed show ?thesis by simp
      next
        case (bytes bs)
        from bytes(1,2) obtain q where "r1 = Inr (Suc q)" by (cases bs) auto
        with need b(2) res yes f have "out = log_loop en n script' b2 0 st" by (simp add: out_def Let_def)
        moreover have "length bs + 3 * script_size script' < 3 * script_size script"
          using bytes(2,5) by (cases bs) auto
        ultimately show ?thesis
          using read [OF need, of script' b2 bs] bytes R(2,3) b(2) ceil fill_error_script [OF f]
          by (simp add: pending_ok_def)
      qed
    qed
  qed
qed

declare log_loop.simps(2) [simp del]

section \<open>What a turn hands on\<close>

definition delivery_of :: "Event \<Rightarrow> 'k Delivery" where
  "delivery_of ev = \<lparr>de_frame = to_frame (ev_frame ev), de_timestamp = ev_timestamp ev,
     de_origin = OLog (ev_number ev)\<rparr>"

definition delivered_by :: "('k, 'f) Replay \<Rightarrow> 'k Delivery list" where
  "delivered_by st = map snd (rp_out st)"

definition replays :: "'f Env \<Rightarrow> (string \<Rightarrow> bool) \<Rightarrow> Event \<Rightarrow> bool" where
  "replays en w ev \<longleftrightarrow> \<not> before_start en ev \<and> w (channel (ev_frame ev))"

lemmas replay_defs = event_turn_def pace_event_def hand_on_def count_def delivered_by_def delivery_of_def
  counter_defs

text \<open>The counts of a thread, as far as they follow from what it handed on.\<close>

definition tally :: "('k, 'f) Replay \<Rightarrow> nat \<times> nat \<times> bool" where
  "tally st = (ct_received (rp_counters st), ct_discarded (rp_counters st),
     ct_delivered (rp_counters st) = length (rp_out st))"

lemma event_turn_on:
  assumes "event_turn en n ev st = Inl (m, st')" and "en_wanted en = (\<lambda>_. w)"
  shows "delivered_by st' = delivered_by st @ (if replays en w ev then [delivery_of ev] else [])"
    and "tally st = (r, d, True) \<Longrightarrow> tally st' = (Suc r, d, True)"
  using assms by (auto simp: replay_defs replays_def tally_def Let_def split: if_splits prod.splits bool.splits)

lemma event_turn_off:
  assumes "event_turn en n ev st = Inr st'"
  shows "delivered_by st' = delivered_by st" and "tally st = (r, d, True) \<Longrightarrow> tally st' = (Suc r, d, True)"
  using assms by (auto simp: replay_defs tally_def Let_def split: if_splits prod.splits bool.splits)

lemma count_on [simp]:
  "delivered_by (count f st) = delivered_by st"
  "rp_pace (count f st) = rp_pace st" "rp_anchor (count f st) = rp_anchor st"
  by (simp_all add: replay_defs)

lemma tally_count:
  "tally st = (r, d, True) \<Longrightarrow> tally (count discarded st) = (r, Suc d, True)"
  "tally st = (r, d, True) \<Longrightarrow> tally (count (discarded \<circ> received) st) = (Suc r, Suc d, True)"
  by (simp_all add: tally_def count_def counter_defs)

section \<open>The loop ends\<close>

text \<open>With no rate to keep to, and a clock that does not go back, no wait takes a turn.\<close>

definition no_rate :: "'f Env \<Rightarrow> nat \<Rightarrow> ('k, 'f) Replay \<Rightarrow> bool" where
  "no_rate en n st \<longleftrightarrow> pa_speed (rp_pace st) = Unthrottled \<and>
     (\<forall>at. rp_anchor st = Some at \<longrightarrow> at \<le> en_clock en n)"

lemma wait_until_now: "target \<le> clock n \<Longrightarrow> wait_until target clock n = (True, n)"
  by (cases n) simp_all

lemma event_turn_no_rate:
  assumes "no_rate en n st"
  shows "\<exists>st'. event_turn en n ev st = Inl (n, st') \<and> no_rate en n st'"
proof -
  have h: "hold pos mic (rp_pace st) t = (0, (rp_pace st)\<lparr>pa_previous := Some t\<rparr>)" for pos mic t
    using assms by (simp add: no_rate_def hold_def Let_def split: option.splits)
  show ?thesis
    using assms
    by (cases "rp_anchor st")
      (auto simp: event_turn_def pace_event_def h no_rate_def checked_add_instant_def wait_until_now
        hand_on_def count_def Let_def)
qed

lemma no_rate_later: "no_rate en (Suc n) st \<Longrightarrow> antimono (en_clock en) \<Longrightarrow> no_rate en n st"
  by (auto simp: no_rate_def antimono_def intro: le_trans)

lemma no_rate_count: "no_rate en n st \<Longrightarrow> no_rate en n (count f st)"
  by (simp add: no_rate_def)

lemma log_loop_ends:
  fixes st :: "('k, 'f) Replay"
  assumes "pending_ok b" and "script_ok script" and "decoded \<le> length (unread b)"
    and "length (unread b) - decoded + 3 * script_size script < n"
    and "no_rate en n st" and clock: "antimono (en_clock en)"
  shows "fst (log_loop en n script b decoded st) \<noteq> None"
  using assms(1-5)
proof (induction n arbitrary: script b decoded st)
  case 0
  then show ?case by simp
next
  case (Suc n)
  let ?u = "drop decoded (unread b)"
  note later = no_rate_later [OF Suc.prems(5) clock]
  from pending_consume [OF Suc.prems(1)] have b: "pending_ok (consume b decoded)" "unread (consume b decoded) = ?u"
    by simp_all
  have next_turn: "fst (log_loop en n script (consume b decoded) k st') \<noteq> None"
    if "0 < k" "k \<le> length ?u" "no_rate en n st'" for k and st' :: "('k, 'f) Replay"
    using Suc.IH [OF b(1) Suc.prems(2), of k st'] that b(2) Suc.prems(4) by simp
  from Suc.prems(1,2,3) show ?case
  proof (cases rule: log_turn [where en = en and n = n and st = st])
    case (item ev k m st')
    from event_turn_no_rate [OF later, of ev] item(2) have "m = n" "no_rate en n st'" by auto
    with lcmlog.item_within [OF item(1)] item(3) next_turn show ?thesis by simp
  next
    case (stopped ev k st')
    with event_turn_no_rate [OF later, of ev] show ?thesis by auto
  next
    case (skip k)
    with lcmlog.skip_within [OF skip(1)] next_turn no_rate_count [OF later] show ?thesis by simp
  next
    case (error e)
    with log_error_long [OF error(1)] slide_within [of ?u] next_turn no_rate_count [OF later] show ?thesis by simp
  next
    case (read k b' script' bs)
    with Suc.IH [OF read(3,4), of 0 st] later Suc.prems(4) show ?thesis by simp
  qed simp_all
qed

section \<open>Nothing is made up\<close>

text \<open>Events that stand in the bytes one behind the other, with anything between them.\<close>

fun written_in :: "Event list \<Rightarrow> bytes \<Rightarrow> bool" where
  "written_in [] d = True"
| "written_in (ev # evs) d \<longleftrightarrow> (\<exists>gap bs rst. d = gap @ bs @ rst \<and> log_encode ev = Inr bs \<and> written_in evs rst)"

lemma written_in_drop:
  assumes "written_in evs (drop k d)"
  shows "written_in evs d"
proof (cases evs)
  case (Cons ev evs')
  with assms obtain gap bs rst where g: "drop k d = gap @ bs @ rst" "log_encode ev = Inr bs" "written_in evs' rst"
    by auto
  have "d = (take k d @ gap) @ bs @ rst" using g(1) append_take_drop_id [of k d] by simp
  with g Cons show ?thesis by (metis written_in.simps(2))
qed simp

lemma written_in_item:
  assumes "log_decode u = Inr (Item ev k)" and "written_in evs (drop k (u @ v))"
  shows "written_in (ev # evs) (u @ v)"
proof -
  from log_decode_sound [OF assms(1)] have enc: "log_encode ev = Inr (take k u)" and k: "k \<le> length u" by simp_all
  have "u @ v = [] @ take k u @ drop k (u @ v)" using k by simp
  with enc assms(2) show ?thesis by (metis written_in.simps(2))
qed

lemma log_loop_sound:
  fixes st :: "('k, 'f) Replay"
  assumes "pending_ok b" and "script_ok script" and "decoded \<le> length (unread b)"
    and "log_loop en n script b decoded st = (r, st')" and w: "en_wanted en = (\<lambda>_. w)"
  shows "\<exists>evs. written_in evs (drop decoded (unread b) @ script_bytes script) \<and>
    delivered_by st' = delivered_by st @ map delivery_of (filter (replays en w) evs)"
  using assms(1-4)
proof (induction n arbitrary: script b decoded st rule: less_induct)
  case (less n)
  show ?case
  proof (cases n)
    case 0
    with less.prems show ?thesis by (intro exI [of _ "[]"]) simp
  next
    case (Suc m)
    let ?u = "drop decoded (unread b)" and ?b = "consume b decoded"
    let ?goal = "\<lambda>st0 rst. \<exists>evs. written_in evs rst \<and>
      delivered_by st' = delivered_by st0 @ map delivery_of (filter (replays en w) evs)"
    from pending_consume [OF less.prems(1)] have b: "pending_ok ?b" "unread ?b = ?u" by simp_all
    have next_turn: "?goal st1 (drop k (?u @ script_bytes script))"
      if "log_loop en i script ?b k st1 = (r, st')" "i < n" "k \<le> length ?u" for i k st1
      using less.IH [OF that(2) b(1) less.prems(2), of k st1] that b(2) by simp
    have slid: "?goal st (?u @ script_bytes script)" if "?goal st1 (drop k (?u @ script_bytes script))"
      "delivered_by st1 = delivered_by st" for k st1
    proof -
      from that(1) obtain evs where evs: "written_in evs (drop k (?u @ script_bytes script))"
        "delivered_by st' = delivered_by st1 @ map delivery_of (filter (replays en w) evs)" by blast
      from evs(2) that(2) have "delivered_by st' = delivered_by st @ map delivery_of (filter (replays en w) evs)"
        by (simp only:)
      with written_in_drop [OF evs(1)] show ?thesis by (intro exI conjI)
    qed
    have stay: "?goal st0 rst" if "delivered_by st' = delivered_by st0" for st0 :: "('k, 'f) Replay" and rst
      using that by (intro exI [of _ "[]"]) simp
    note run = less.prems(4) [unfolded Suc]
    from less.prems(1,2,3) show ?thesis
    proof (cases rule: log_turn [where en = en and n = m and st = st])
      case (item ev k i st1)
      with run event_turn_le [OF item(2)] lcmlog.item_within [OF item(1)] next_turn [of i k st1] Suc
      obtain evs where "written_in evs (drop k (?u @ script_bytes script))"
        "delivered_by st' = delivered_by st1 @ map delivery_of (filter (replays en w) evs)" by auto
      with written_in_item [OF item(1)] event_turn_on(1) [OF item(2) w] show ?thesis
        by (intro exI [of _ "ev # evs"]) simp
    next
      case (stopped ev k st1)
      with run event_turn_off(1) [OF stopped(2)] show ?thesis by (intro stay) simp
    next
      case (skip k)
      have "?goal (count (discarded \<circ> received) st) (drop k (?u @ script_bytes script))"
        by (rule next_turn [of m]) (use skip run lcmlog.skip_within [OF skip(1)] Suc in simp_all)
      then show ?thesis by (rule slid) simp
    next
      case (error e)
      have "?goal (count discarded st) (drop (slide ?u) (?u @ script_bytes script))"
        by (rule next_turn [of m]) (use error run log_error_long [OF error(1)] slide_within [of ?u] Suc in simp_all)
      then show ?thesis by (rule slid) simp
    next
      case (read k b' script' bs)
      from less.IH [OF _ read(3,4), of m 0 st] read run Suc show ?thesis by simp
    next
      case (eof k)
      with run show ?thesis by (intro stay) (auto split: if_splits)
    next
      case (failed k e)
      with run show ?thesis by (intro stay) simp
    qed
  qed
qed

section \<open>A log is replayed\<close>

definition logged :: "Event \<Rightarrow> bytes \<Rightarrow> bool" where
  "logged ev bs \<longleftrightarrow> log_encode ev = Inr bs \<and> is_str (channel (ev_frame ev))"

lemma logged_bytes: "logged ev bs \<Longrightarrow> bs = log_bytes ev \<and> 28 < length bs"
  by (auto simp: logged_def log_encode_Inr length_log_bytes check_channel_Inr_iff)

lemma logged_magic: "logged ev bs \<Longrightarrow> field32 (bs @ e) 0 = LOG_MAGIC"
  using field32_hit [of 0 "[]"] logged_bytes by (fastforce simp: log_bytes_def)

lemma drain_logged: "list_all2 logged evs bss \<Longrightarrow> drain log_decode (concat bss) = Some (map Some evs, [], None)"
  unfolding logged_def [abs_def] by (rule drain_log)

text \<open>Bytes with no sync word in them, and the events of a log. With no such bytes this is a log.\<close>

definition readable :: "bytes \<Rightarrow> Event list \<Rightarrow> bytes \<Rightarrow> bool" where
  "readable junk evs rst \<longleftrightarrow> (\<exists>bss. rst = junk @ concat bss \<and> list_all2 logged evs bss) \<and>
     (\<forall>i < length junk. field32 rst i \<noteq> LOG_MAGIC) \<and> (evs = [] \<longrightarrow> junk = [])"

lemma readable_junk:
  assumes "readable junk evs rst" and "k \<le> length junk"
  shows "readable (drop k junk) evs (drop k rst)"
proof -
  from assms(1) obtain bss where rst: "rst = junk @ concat bss" "list_all2 logged evs bss"
    and no: "\<forall>i < length junk. field32 rst i \<noteq> LOG_MAGIC" and e: "evs = [] \<longrightarrow> junk = []"
    by (auto simp: readable_def)
  have "field32 (drop k rst) i = field32 rst (k + i)" for i by (simp add: field32_def add.commute)
  with rst no e assms(2) show ?thesis by (auto simp: readable_def intro!: exI [of _ bss])
qed

lemma readable_length: "readable junk (ev # evs) rst \<Longrightarrow> length junk + 28 < length rst"
  by (auto simp: readable_def list_all2_Cons1 dest: logged_bytes)

lemma readable_sync:
  assumes "readable junk (ev # evs) rst"
  shows "field32 rst (length junk) = LOG_MAGIC"
proof -
  from assms obtain bs bss where "rst = junk @ bs @ bss" "logged ev bs"
    by (auto simp: readable_def list_all2_Cons1)
  with logged_magic [of ev bs bss] show ?thesis by (simp add: field32_def)
qed

text \<open>What the reader sees of an event: it waits for the end of it, and then takes it.\<close>

lemma log_decode_prefix:
  assumes "readable [] (ev # evs) (u @ v)"
  shows "(\<exists>k. log_decode u = Inr (Need k)) \<or>
    (\<exists>k. log_decode u = Inr (Item ev k) \<and> readable [] evs (drop k (u @ v)))"
proof -
  from assms obtain bs bss where rst: "u @ v = bs @ concat bss" and lb: "logged ev bs"
    and evs: "list_all2 logged evs bss" by (auto simp: readable_def list_all2_Cons1)
  have enc: "log_encode ev = Inr bs" "is_str (channel (ev_frame ev))" using lb by (simp_all add: logged_def)
  show ?thesis
  proof (cases "length bs \<le> length u")
    case True
    then obtain p where u: "u = bs @ p" and cont: "p @ v = concat bss"
      using rst by (metis append_eq_append_conv_if append_eq_conv_conj append_take_drop_id)
    have "behind_ok p"
    proof (cases bss)
      case Nil
      with cont show ?thesis by (simp add: behind_ok_def)
    next
      case (Cons b2 bss2)
      with evs obtain ev2 where "logged ev2 b2" by (auto simp: list_all2_Cons2)
      then have "take 4 (p @ v) = to_be_bytes LOG_MAGIC"
        using cont Cons logged_bytes [of ev2 b2] by (simp add: log_bytes_def)
      then show ?thesis by (cases "length p < 4") (simp_all add: behind_ok_def)
    qed
    with log_decode_encode [OF enc, of p] u have "log_decode u = Inr (Item ev (length bs))" by simp
    moreover have "readable [] evs (drop (length bs) (u @ v))"
      using evs by (auto simp: rst readable_def)
    ultimately show ?thesis by blast
  next
    case False
    show ?thesis
    proof (cases "length u < 28")
      case True
      then show ?thesis by (simp add: log_decode_eq)
    next
      case long: False
      from False rst obtain q where bs: "bs = u @ q"
        by (metis append_eq_append_conv_if append_eq_conv_conj append_take_drop_id nle_le)
      have at: "field32 u i = field32 bs i" if "i \<le> 24" for i
        using that long by (simp add: bs field32_append)
      have "log_decode (bs @ []) = Inr (Item ev (length bs))"
        using log_decode_encode [OF enc, of "[]"] by (simp add: behind_ok_def)
      then have head: "log_head bs = None" and "log_event bs = Item ev (length bs)"
        by (auto simp: log_decode_eq split: if_splits option.splits)
      then have "log_len bs = length bs" by (metis log_event_lengths(1))
      with False head long at [of 0] at [of 20] at [of 24] have "log_head u = None" "length u < log_len u"
        by (simp_all add: log_head_def log_len_def Let_def split: if_splits)
      with long show ?thesis by (simp add: log_decode_eq)
    qed
  qed
qed

text \<open>In the bytes in front of it the reader slides, and never past the first event.\<close>

lemma log_decode_junk:
  assumes "readable junk (ev # evs) (u @ v)" and "junk \<noteq> []"
  shows "(\<exists>k. log_decode u = Inr (Need k)) \<or> (\<exists>e. log_decode u = Inl e)"
proof (cases "length u < 28")
  case False
  from assms have "field32 (u @ v) 0 \<noteq> LOG_MAGIC" by (auto simp: readable_def)
  with False have "log_head u \<noteq> None" by (simp add: field32_append log_head_def Let_def)
  with False show ?thesis by (auto simp: log_decode_eq)
qed (simp add: log_decode_eq)

lemma slide_junk:
  assumes r: "readable junk (ev # evs) (u @ v)" and junk: "junk \<noteq> []" and long: "28 \<le> length u"
  shows "slide u \<le> length junk"
proof -
  from long have ne: "u \<noteq> []" by auto
  have at: "field32 (drop 1 u) i = field32 (u @ v) (Suc i)" if "i + 4 \<le> length u - 1" for i
    using that field32_append [of "Suc i" u v] by (simp add: field32_def)
  show ?thesis
  proof (cases "resync (drop 1 u)")
    case None
    have "length u - 3 \<le> length junk"
    proof (rule ccontr)
      assume "\<not> ?thesis"
      then have l: "length junk - 1 + 4 \<le> length u - 1" using junk by (cases junk) auto
      with None have "field32 (drop 1 u) (length junk - 1) \<noteq> LOG_MAGIC" by (simp add: resync_None_iff)
      with at [OF l] readable_sync [OF r] junk show False by (cases junk) simp_all
    qed
    with None ne show ?thesis by (simp add: slide_def)
  next
    case (Some i)
    then have i: "i + 4 \<le> length u - 1" and first: "\<forall>j < i. field32 (drop 1 u) j \<noteq> LOG_MAGIC"
      by (simp_all add: resync_Some_iff)
    have "\<not> length junk < Suc i"
    proof
      assume lt: "length junk < Suc i"
      with junk have j: "length junk - 1 < i" by (cases junk) auto
      with i have l: "length junk - 1 + 4 \<le> length u - 1" by simp
      from first j at [OF l] readable_sync [OF r] junk show False by (cases junk) auto
    qed
    with Some ne show ?thesis by (simp add: slide_def)
  qed
qed

definition replayed ::
    "'f Env \<Rightarrow> (string \<Rightarrow> bool) \<Rightarrow> bytes \<Rightarrow> Event list \<Rightarrow> ('k, 'f) Replay \<Rightarrow> Stop option \<times> ('k, 'f) Replay \<Rightarrow> bool" where
  "replayed en w junk evs st out \<longleftrightarrow>
     (\<exists>k \<le> length evs. delivered_by (snd out) = delivered_by st @ map delivery_of (filter (replays en w) (take k evs)) \<and>
        (fst out = None \<or> k = length evs)) \<and>
     (fst out = None \<or> fst out = Some EndOfLog \<and>
        (\<forall>r d. tally st = (r, d, True) \<longrightarrow>
          (\<exists>d'. tally (snd out) = (r + length evs, d', True) \<and> (junk = [] \<longrightarrow> d' = d))))"

lemma replayed_now: "delivered_by st' = delivered_by st \<Longrightarrow> replayed en w junk evs st (None, st')"
  by (auto simp: replayed_def intro!: exI [of _ 0])

lemma replayed_item:
  assumes "replayed en w [] evs st1 out" and "event_turn en n ev st = Inl (m, st1)" and "en_wanted en = (\<lambda>_. w)"
  shows "replayed en w [] (ev # evs) st out"
proof -
  note E = event_turn_on [OF assms(2,3)]
  from assms(1) obtain k where k: "k \<le> length evs" "fst out = None \<or> k = length evs"
    "delivered_by (snd out) = delivered_by st1 @ map delivery_of (filter (replays en w) (take k evs))"
    and stop: "fst out = None \<or> fst out = Some EndOfLog \<and> (\<forall>r d. tally st1 = (r, d, True) \<longrightarrow>
      tally (snd out) = (r + length evs, d, True))"
    unfolding replayed_def by auto
  from k E(1) have "\<exists>k \<le> length (ev # evs). delivered_by (snd out) =
      delivered_by st @ map delivery_of (filter (replays en w) (take k (ev # evs))) \<and>
      (fst out = None \<or> k = length (ev # evs))"
    by (intro exI [of _ "Suc k"]) auto
  with stop E(2) show ?thesis unfolding replayed_def by fastforce
qed

lemma replayed_slide:
  assumes "replayed en w junk' evs (count discarded st) out" and "junk \<noteq> []"
  shows "replayed en w junk evs st out"
  using assms tally_count(1) [of st] unfolding replayed_def by fastforce

lemma log_loop_replays:
  fixes st :: "('k, 'f) Replay"
  assumes "pending_ok b" and "script_ok script" and "decoded \<le> length (unread b)"
    and "readable junk evs (drop decoded (unread b) @ script_bytes script)"
    and "\<forall>e. SError e \<in> set script \<longrightarrow> is_timeout e" and w: "en_wanted en = (\<lambda>_. w)"
  shows "replayed en w junk evs st (log_loop en n script b decoded st)"
  using assms(1-5)
proof (induction n arbitrary: script b decoded st junk evs rule: less_induct)
  case (less n)
  show ?case
  proof (cases n)
    case 0
    then show ?thesis by (simp add: replayed_now)
  next
    case (Suc m)
    let ?u = "drop decoded (unread b)" and ?b = "consume b decoded"
    note rd = less.prems(4)
    from pending_consume [OF less.prems(1)] have b: "pending_ok ?b" "unread ?b = ?u" by simp_all
    have next_turn: "replayed en w junk' evs' st1 (log_loop en i script ?b k st1)"
      if "readable junk' evs' (drop k (?u @ script_bytes script))" "i < n" "k \<le> length ?u"
      for i k junk' evs' and st1 :: "('k, 'f) Replay"
      using less.IH [OF that(2) b(1) less.prems(2), of k junk' evs' st1] that b(2) less.prems(5) by simp
    have items: "\<exists>evs'. junk = [] \<and> evs = ev # evs' \<and> readable [] evs' (drop k (?u @ script_bytes script))"
      if "log_decode ?u = Inr (Item ev k)" for ev k
    proof (cases evs)
      case Nil
      with rd have "?u = []" by (auto simp: readable_def)
      with that show ?thesis by (simp add: log_decode_eq)
    next
      case (Cons ev' evs')
      with log_decode_junk [of junk ev' evs' ?u] rd that have "junk = []" by fastforce
      with Cons log_decode_prefix [of ev' evs' ?u] rd that show ?thesis by fastforce
    qed
    have no_skip: "log_decode ?u \<noteq> Inr (Skip k)" for k
    proof (cases evs)
      case Nil
      with rd have "?u = []" by (auto simp: readable_def)
      then show ?thesis by (simp add: log_decode_eq)
    next
      case (Cons ev' evs')
      with log_decode_prefix [of ev' evs' ?u] log_decode_junk [of junk ev' evs' ?u] rd show ?thesis
        by (cases "junk = []") fastforce+
    qed
    have errors: "\<exists>ev evs'. evs = ev # evs' \<and> junk \<noteq> []" if "log_decode ?u = Inl e" for e
    proof (cases evs)
      case Nil
      with rd have "?u = []" by (auto simp: readable_def)
      with that show ?thesis by (simp add: log_decode_eq)
    next
      case (Cons ev' evs')
      with log_decode_prefix [of ev' evs' ?u] rd that show ?thesis by fastforce
    qed
    have run: "log_loop en n script b decoded st = log_loop en (Suc m) script b decoded st" by (simp only: Suc)
    from less.prems(1,2,3) show ?thesis
      unfolding run
    proof (cases rule: log_turn [where en = en and n = m and st = st])
      case (item ev k i st1)
      from items [OF item(1)] obtain evs' where here: "junk = []" "evs = ev # evs'"
        "readable [] evs' (drop k (?u @ script_bytes script))" by blast
      have "replayed en w [] evs' st1 (log_loop en i script ?b k st1)"
        by (rule next_turn [OF here(3)])
          (use event_turn_le [OF item(2)] lcmlog.item_within [OF item(1)] Suc in simp_all)
      with item(2,3) here(1,2) replayed_item [OF _ item(2) w]
      show "replayed en w junk evs st (log_loop en (Suc m) script b decoded st)" by simp
    next
      case (stopped ev k st1)
      then show "replayed en w junk evs st (log_loop en (Suc m) script b decoded st)"
        by (simp add: replayed_now [OF event_turn_off(1) [OF stopped(2)]])
    next
      case (skip k)
      with no_skip show "replayed en w junk evs st (log_loop en (Suc m) script b decoded st)" by blast
    next
      case (error e)
      from errors [OF error(1)] obtain ev evs' where here: "evs = ev # evs'" "junk \<noteq> []" by blast
      note long = log_error_long [OF error(1)]
      from here rd slide_junk [OF _ here(2) long, of ev evs' "script_bytes script"] have le: "slide ?u \<le> length junk" by simp
      have "replayed en w (drop (slide ?u) junk) evs (count discarded st) (log_loop en m script ?b (slide ?u) (count discarded st))"
        by (rule next_turn [OF readable_junk [OF rd le]]) (use slide_within(2) [of ?u] long Suc in simp_all)
      from replayed_slide [OF this here(2)] error(2)
      show "replayed en w junk evs st (log_loop en (Suc m) script b decoded st)" by simp
    next
      case (read k b' script' bs)
      have "replayed en w junk evs st (log_loop en m script' b' 0 st)"
        by (rule less.IH) (use read less.prems(5) rd Suc in simp_all)
      with read(2) show "replayed en w junk evs st (log_loop en (Suc m) script b decoded st)" by simp
    next
      case (eof k)
      have "evs = []"
      proof (rule ccontr)
        assume "evs \<noteq> []"
        then obtain ev evs' where evs: "evs = ev # evs'" by (cases evs) auto
        with rd eof(2) have r: "readable junk (ev # evs') (?u @ [])" by simp
        show False
        proof (cases "junk = []")
          case True
          with r obtain bs bss where "?u = bs @ concat bss" "logged ev bs" "list_all2 logged evs' bss"
            by (auto simp: readable_def list_all2_Cons1)
          with drain_logged [of "ev # evs'" "bs # bss"] eof(1) show False
            by (simp add: drain.simps)
        next
          case False
          with r readable_length [OF r] have "log_head ?u \<noteq> None"
            by (auto simp: readable_def log_head_def Let_def)
          with readable_length [OF r] eof(1) show False by (auto simp: log_decode_eq split: option.splits)
        qed
      qed
      with rd have "junk = []" "?u = []" by (auto simp: readable_def)
      with eof(3) \<open>evs = []\<close> show "replayed en w junk evs st (log_loop en (Suc m) script b decoded st)"
        by (simp add: replayed_def)
    next
      case (failed k e)
      with less.prems(5) show "replayed en w junk evs st (log_loop en (Suc m) script b decoded st)" by blast
    qed
  qed
qed

section \<open>The walk to the start\<close>

lemma peek_log:
  assumes "logged ev bs"
  shows "peek (take 28 (bs @ e)) = Inr (Some \<lparr>pk_timestamp = ev_timestamp ev, pk_len = length bs\<rparr>)"
proof -
  have bs: "bs = log_bytes ev" using logged_bytes [OF assms] by simp
  have len: "length (channel (ev_frame ev)) \<le> CHANNEL_MAX" "channel (ev_frame ev) \<noteq> []"
    "length (payload (ev_frame ev)) \<le> MAX_MESSAGE_LEN"
    using assms by (auto simp: logged_def log_encode_Inr check_channel_Inr_iff)
  note F = log_fields [OF len(1,3), of e, folded bs]
  have "28 < length bs" using logged_bytes [OF assms] by blast
  then have long: "\<not> length (take 28 (bs @ e)) < 28" by simp
  have f32: "field32 (take 28 x) i = field32 x i" if "i + 4 \<le> 28" for i and x :: bytes
    using that by (simp add: field32_def drop_take min_def)
  have f64: "field64 (take 28 x) i = field64 x i" if "i + 8 \<le> 28" for i and x :: bytes
    using that by (simp add: field64_def drop_take min_def)
  have "log_head (take 28 (bs @ e)) = None" "log_len (take 28 (bs @ e)) = length bs"
    using len by (simp_all only: log_head_def log_len_def f32 F Let_def, simp_all add: f32 F bs length_log_bytes)
  moreover have "field64 (take 28 (bs @ e)) 12 = ev_timestamp ev" using f64 [of 12 "bs @ e"] F(3) by (simp del: take_append)
  ultimately show ?thesis using long by (simp only: peek_eq if_False option.case)
qed

lemma seek_walk_log:
  assumes "list_all2 logged evs bss" and "i \<le> length evs" and "j \<le> i"
    and "\<forall>ev \<in> set (take i evs). ev_timestamp ev <s start"
  shows "\<exists>k \<le> length evs. fst (seek_walk n (concat bss) start (length (concat (take i bss))) (length (concat (take j bss))))
      = length (concat (take k bss)) \<and> (\<forall>ev \<in> set (take k evs). ev_timestamp ev <s start)"
  using assms(2-4)
proof (induction n arbitrary: i j)
  case 0
  have "set (take j evs) \<subseteq> set (take i evs)" using 0 by (simp add: set_take_subset_set_take)
  with 0 show ?case by (intro exI [of _ j]) auto
next
  case (Suc n)
  let ?at = "length (concat (take i bss))"
  have sub: "set (take j evs) \<subseteq> set (take i evs)" using Suc.prems(2) by (simp add: set_take_subset_set_take)
  have held: "\<exists>k \<le> length evs. length (concat (take j bss)) = length (concat (take k bss)) \<and>
      (\<forall>ev \<in> set (take k evs). ev_timestamp ev <s start)"
    using sub Suc.prems by (intro exI [of _ j]) auto
  have here: "\<exists>k \<le> length evs. ?at = length (concat (take k bss)) \<and>
      (\<forall>ev \<in> set (take k evs). ev_timestamp ev <s start)"
    using Suc.prems by blast
  show ?case
  proof (cases "length (concat bss) < ?at + 28")
    case True
    with held show ?thesis by (simp add: HEADER_LEN_def)
  next
    case False
    have len: "length evs = length bss" using assms(1) by (rule list_all2_lengthD)
    have i: "i < length evs"
    proof (rule ccontr)
      assume "\<not> ?thesis"
      with Suc.prems(1) len have "take i bss = bss" by simp
      with False show False by simp
    qed
    have ev: "logged (evs ! i) (bss ! i)" using list_all2_nthD [OF assms(1) i] .
    have split: "bss = take i bss @ bss ! i # drop (Suc i) bss" using i len by (simp add: id_take_nth_drop)
    have "concat bss = concat (take i bss) @ bss ! i @ concat (drop (Suc i) bss)"
      by (subst split) (simp del: append_take_drop_id)
    then have rst: "drop ?at (concat bss) = bss ! i @ concat (drop (Suc i) bss)" by simp
    note pk = peek_log [OF ev, of "concat (drop (Suc i) bss)", folded rst]
    have next_at: "length (concat (take (Suc i) bss)) = ?at + length (bss ! i)"
      using i len by (simp add: take_Suc_conv_app_nth)
    show ?thesis
    proof (cases "start <=s ev_timestamp (evs ! i) \<or> 2 ^ 64 \<le> ?at + length (bss ! i)")
      case True
      with False here pk show ?thesis by (auto simp: HEADER_LEN_def)
    next
      case go: False
      then have lt: "ev_timestamp (evs ! i) <s start" by (simp add: signed.not_le)
      have "\<forall>ev \<in> set (take (Suc i) evs). ev_timestamp ev <s start"
        using Suc.prems(3) lt i by (auto simp: take_Suc_conv_app_nth)
      from Suc.IH [of "Suc i" i, OF _ _ this] i go False pk next_at show ?thesis
        by (auto simp: HEADER_LEN_def)
    qed
  qed
qed

section \<open>The whole thread\<close>

lemma log_reader_replays:
  fixes en :: "'f Env"
  assumes log: "list_all2 logged evs bss" and whole: "file = concat bss"
    and reads: "\<forall>p \<le> length file. script_ok (reads p) \<and> script_bytes (reads p) = drop p file \<and>
      (\<forall>e. SError e \<in> set (reads p) \<longrightarrow> is_timeout e)"
    and w: "en_wanted en = (\<lambda>_. w)" and run: "log_reader en speed file reads n = (r, st :: ('k, 'f) Replay)"
  shows "\<exists>k \<le> length evs. delivered_by st = map delivery_of (filter (replays en w) (take k evs)) \<and>
    (r = None \<or> r = Some EndOfLog \<and> k = length evs \<and> ct_discarded (rp_counters st) = 0)"
proof -
  let ?st = "\<lparr>rp_counters = counters_new, rp_out = [], rp_pace = pace_new speed, rp_anchor = None\<rparr> :: ('k, 'f) Replay"
  obtain k0 m where k0: "k0 \<le> length evs" and run': "(r, st) = log_loop en m (reads (length (concat (take k0 bss))))
      (with_limits 65536 LOG_EVENT_MAX) 0 ?st"
    and early: "\<forall>ev \<in> set (take k0 evs). before_start en ev"
  proof (cases "en_start en")
    case None
    with run that [of 0 n] show ?thesis by (simp add: log_reader_def)
  next
    case (Some start)
    from seek_walk_log [OF log, of 0 0 start n] obtain k where "k \<le> length evs"
      "fst (seek_before n (concat bss) start) = length (concat (take k bss))"
      "\<forall>ev \<in> set (take k evs). ev_timestamp ev <s start" by (auto simp: seek_before_def)
    with run Some whole that [of k "snd (seek_before n (concat bss) start)"] show ?thesis
      by (simp add: log_reader_def before_start_def case_prod_beta)
  qed
  let ?p = "length (concat (take k0 bss))"
  have cut: "concat bss = concat (take k0 bss) @ concat (drop k0 bss)" by (metis append_take_drop_id concat_append)
  then have p: "?p \<le> length file" and "drop ?p file = concat (drop k0 bss)" by (simp_all add: whole)
  with reads have R: "script_ok (reads ?p)" "script_bytes (reads ?p) = concat (drop k0 bss)"
    "\<forall>e. SError e \<in> set (reads ?p) \<longrightarrow> is_timeout e" by auto
  have "list_all2 logged (drop k0 evs) (drop k0 bss)" using log by (rule list_all2_dropI)
  then have "readable [] (drop k0 evs) (drop 0 (unread (with_limits 65536 LOG_EVENT_MAX)) @ script_bytes (reads ?p))"
    using R(2) by (auto simp: readable_def unread_new)
  from log_loop_replays [OF pending_new R(1) _ this R(3) w, of ?st m, folded run']
  have "replayed en w [] (drop k0 evs) ?st (r, st)" by simp
  then obtain k1 where k1: "k1 \<le> length (drop k0 evs)"
    "delivered_by st = delivered_by ?st @ map delivery_of (filter (replays en w) (take k1 (drop k0 evs)))"
    "r = None \<or> k1 = length (drop k0 evs)"
    and stop: "r = None \<or> r = Some EndOfLog \<and> (\<forall>rc d. tally ?st = (rc, d, True) \<longrightarrow>
      tally st = (rc + length (drop k0 evs), d, True))"
    unfolding replayed_def by auto
  have none: "filter (replays en w) (take k0 evs) = []" using early by (simp add: filter_empty_conv replays_def)
  have "filter (replays en w) (take (k0 + k1) evs) = filter (replays en w) (take k1 (drop k0 evs))"
    by (simp add: take_add none)
  with k1(2) have "delivered_by st = map delivery_of (filter (replays en w) (take (k0 + k1) evs))"
    by (simp add: delivered_by_def)
  moreover have "r = None \<or> r = Some EndOfLog \<and> k0 + k1 = length evs \<and> ct_discarded (rp_counters st) = 0"
    using stop k1(3) k0 by (auto simp: tally_def counters_new_def)
  ultimately show ?thesis using k1(1) k0 by (intro exI [of _ "k0 + k1"]) simp
qed

end
