(* ===== verification/Outbox.thy ===== *)
theory Outbox
  imports Readers
begin

text \<open>
  The outbox between the threads that publish and the writer thread of a relay connection. Each
  definition is what one thread does between two points where it holds no lock; a loop that waits on a
  condition variable is one turn, given whether its deadline is over, and answers \<open>None\<close> where it waits.
  The counters are \<open>u64\<close> in the code and \<open>nat\<close> here, and the sizes of lines are \<open>usize\<close>: that a subtraction
  never goes below zero is part of the invariant. The room the two rings keep is apart from the queue, at the end.
\<close>

section \<open>The queue\<close>

definition OUTBOX_BYTES :: nat where "OUTBOX_BYTES = 4 * 1024 * 1024"
definition OUTBOX_CONTROL_BYTES :: nat where "OUTBOX_CONTROL_BYTES = 1024 * 1024"

text \<open>\<open>size_of::<Vec<u8>>() + 2 * size_of::<usize>()\<close>, on 64 bits.\<close>

definition FRAME_COST :: nat where "FRAME_COST = 24 + 2 * 8"

text \<open>\<open>STALL_TIMEOUT\<close>, in microseconds.\<close>

definition STALL_TIMEOUT :: nat where "STALL_TIMEOUT = 900 * 1000000"

datatype Lane = Message | Control
datatype Refused = TooSlow | Gone

record Sent =
  se_taken :: nat
  se_wrote :: nat
  se_lost :: nat

record Queue =
  qu_messages :: "bytes list"
  qu_control :: "bytes list"
  qu_waiting :: nat
  qu_control_waiting :: nat
  qu_in_hand :: "Lane option"
  qu_line :: "nat list"
  qu_next_ticket :: nat
  qu_sent :: Sent
  qu_control_sent :: Sent
  qu_open :: bool

definition sent_new :: Sent where
  "sent_new = \<lparr>se_taken = 0, se_wrote = 0, se_lost = 0\<rparr>"

definition outbox_new :: Queue where
  "outbox_new = \<lparr>qu_messages = [], qu_control = [], qu_waiting = 0, qu_control_waiting = 0,
     qu_in_hand = None, qu_line = [], qu_next_ticket = 0, qu_sent = sent_new,
     qu_control_sent = sent_new, qu_open = True\<rparr>"

text \<open>\<open>Queue::of\<close>, with what is done to the count.\<close>

fun on_lane :: "Lane \<Rightarrow> (Sent \<Rightarrow> Sent) \<Rightarrow> Queue \<Rightarrow> Queue" where
  "on_lane Message f q = q\<lparr>qu_sent := f (qu_sent q)\<rparr>"
| "on_lane Control f q = q\<lparr>qu_control_sent := f (qu_control_sent q)\<rparr>"

lemma on_lane_simps [simp]:
  "qu_messages (on_lane lane f q) = qu_messages q" "qu_control (on_lane lane f q) = qu_control q"
  "qu_waiting (on_lane lane f q) = qu_waiting q" "qu_control_waiting (on_lane lane f q) = qu_control_waiting q"
  "qu_in_hand (on_lane lane f q) = qu_in_hand q" "qu_line (on_lane lane f q) = qu_line q"
  "qu_next_ticket (on_lane lane f q) = qu_next_ticket q" "qu_open (on_lane lane f q) = qu_open q"
  by (cases lane; simp)+

definition let_in :: "Sent \<Rightarrow> Sent" where "let_in s = s\<lparr>se_taken := se_taken s + 1\<rparr>"
definition wrote_one :: "Sent \<Rightarrow> Sent" where "wrote_one s = s\<lparr>se_wrote := se_wrote s + 1\<rparr>"
definition lost_some :: "nat \<Rightarrow> Sent \<Rightarrow> Sent" where "lost_some n s = s\<lparr>se_lost := se_lost s + n\<rparr>"

text \<open>\<open>put_message\<close>: the place in line, and one turn of the loop.\<close>

definition put_enter :: "Queue \<Rightarrow> nat \<times> Queue" where
  "put_enter q = (qu_next_ticket q,
     q\<lparr>qu_next_ticket := qu_next_ticket q + 1, qu_line := qu_line q @ [qu_next_ticket q]\<rparr>)"

definition put_leave :: "Queue \<Rightarrow> nat \<Rightarrow> Queue" where
  "put_leave q ticket = q\<lparr>qu_line := filter (\<lambda>held. held \<noteq> ticket) (qu_line q)\<rparr>"

definition put_turn :: "Queue \<Rightarrow> nat \<Rightarrow> bytes \<Rightarrow> bool \<Rightarrow> Queue \<times> (Refused + unit) option" where
  "put_turn q ticket frame expired =
     (if \<not> qu_open q then (put_leave q ticket, Some (Inl Gone))
      else if qu_waiting q \<le> OUTBOX_BYTES \<and> qu_line q \<noteq> [] \<and> hd (qu_line q) = ticket then
        (q\<lparr>qu_line := tl (qu_line q), qu_waiting := qu_waiting q + (length frame + FRAME_COST),
           qu_messages := qu_messages q @ [frame], qu_sent := let_in (qu_sent q)\<rparr>, Some (Inr ()))
      else if expired then (put_leave q ticket, Some (Inl TooSlow))
      else (q, None))"

definition put_control_turn :: "Queue \<Rightarrow> bytes \<Rightarrow> bool \<Rightarrow> Queue \<times> (Refused + unit) option" where
  "put_control_turn q frame expired =
     (if \<not> qu_open q then (q, Some (Inl Gone))
      else if qu_control_waiting q \<le> OUTBOX_CONTROL_BYTES then
        (q\<lparr>qu_control_waiting := qu_control_waiting q + (length frame + FRAME_COST),
           qu_control := qu_control q @ [frame], qu_control_sent := let_in (qu_control_sent q)\<rparr>,
         Some (Inr ()))
      else if expired then (q, Some (Inl TooSlow))
      else (q, None))"

text \<open>\<open>take\<close>: the frame it gives, if one is there.\<close>

definition take_turn :: "Queue \<Rightarrow> (Lane \<times> bytes) option \<times> Queue" where
  "take_turn q =
     (case qu_control q of
        frame # rst \<Rightarrow>
          (Some (Control, frame),
           q\<lparr>qu_control := rst, qu_control_waiting := qu_control_waiting q - (length frame + FRAME_COST),
             qu_in_hand := Some Control\<rparr>)
      | [] \<Rightarrow>
          (case qu_messages q of
             frame # rst \<Rightarrow>
               (Some (Message, frame),
                q\<lparr>qu_messages := rst, qu_in_hand := Some Message,
                  qu_waiting := qu_waiting q - (length frame + FRAME_COST)\<rparr>)
           | [] \<Rightarrow> (None, q)))"

definition outbox_done :: "Queue \<Rightarrow> bool \<Rightarrow> Queue" where
  "outbox_done q went =
     (case qu_in_hand q of
        None \<Rightarrow> q
      | Some lane \<Rightarrow> on_lane lane (if went then wrote_one else lost_some 1) (q\<lparr>qu_in_hand := None\<rparr>))"

definition lost_messages :: "Queue \<Rightarrow> nat" where
  "lost_messages q = se_lost (qu_sent q)"

definition flush_enter :: "Queue \<Rightarrow> nat \<times> nat" where
  "flush_enter q = (se_taken (qu_sent q), se_taken (qu_control_sent q))"

definition flush_turn :: "Queue \<Rightarrow> nat \<Rightarrow> nat \<Rightarrow> bool \<Rightarrow> (Refused + unit) option" where
  "flush_turn q wanted wanted_control expired =
     (if se_wrote (qu_sent q) \<ge> wanted \<and> se_wrote (qu_control_sent q) \<ge> wanted_control then Some (Inr ())
      else if se_lost (qu_sent q) > 0 \<or> se_lost (qu_control_sent q) > 0 \<or> \<not> qu_open q then Some (Inl Gone)
      else if expired then Some (Inl TooSlow)
      else None)"

definition outbox_shut :: "Queue \<Rightarrow> Queue" where
  "outbox_shut q =
     q\<lparr>qu_open := False, qu_messages := [], qu_control := [], qu_waiting := 0, qu_control_waiting := 0,
       qu_sent := lost_some (length (qu_messages q)) (qu_sent q),
       qu_control_sent := lost_some (length (qu_control q)) (qu_control_sent q)\<rparr>"

definition outbox_abandon :: "Queue \<Rightarrow> Queue" where
  "outbox_abandon q =
     (case qu_in_hand q of None \<Rightarrow> q | Some lane \<Rightarrow> on_lane lane (lost_some 1) (q\<lparr>qu_in_hand := None\<rparr>))"

section \<open>The write of one frame\<close>

text \<open>
  The inner loop of \<open>tcpq_writer\<close>: \<open>writes n\<close> is what the write of the turn \<open>n\<close> answers, \<open>n\<close> the times
  \<open>running\<close> reads as set. The result is the failure, if any, and the bytes that went on the socket.
\<close>

fun write_loop ::
    "(nat \<Rightarrow> nat) \<Rightarrow> (nat \<Rightarrow> IoError + nat) \<Rightarrow> nat \<Rightarrow> bytes \<Rightarrow> nat \<Rightarrow> IoError option \<times> bytes" where
  "write_loop clock writes n [] moved = (None, [])"
| "write_loop clock writes 0 rst moved = (Some Interrupted, [])"
| "write_loop clock writes (Suc n) rst moved =
     (let wrote = (case writes n of
            Inr 0 \<Rightarrow> Inl WriteZero
          | Inr (Suc k) \<Rightarrow> Inr (min (Suc k) (length rst))
          | Inl e \<Rightarrow> if is_timeout e then Inr 0 else Inl e)
      in case wrote of
           Inl e \<Rightarrow> (Some e, [])
         | Inr k \<Rightarrow>
             let moved = (if k = 0 then moved else clock n) in
             if drop k rst \<noteq> [] \<and> STALL_TIMEOUT \<le> clock n - moved then (Some TimedOut, take k rst)
             else let (failed, bs) = write_loop clock writes n (drop k rst) moved in (failed, take k rst @ bs))"

lemma write_loop_bytes:
  "write_loop clock writes n frame moved = (failed, bs) \<Longrightarrow>
    \<exists>tl. frame = bs @ tl \<and> (failed = None \<longleftrightarrow> tl = [])"
proof (induction clock writes n frame moved arbitrary: bs rule: write_loop.induct)
  case (3 clock writes n b rst moved)
  let ?f = "b # rst"
  define wrote where "wrote = (case writes n of
            Inr 0 \<Rightarrow> Inl WriteZero
          | Inr (Suc k) \<Rightarrow> Inr (min (Suc k) (length ?f))
          | Inl e \<Rightarrow> if is_timeout e then Inr 0 else Inl e)"
  show ?case
  proof (cases wrote)
    case (Inl e)
    with 3(2) show ?thesis by (auto simp: wrote_def [symmetric] Let_def simp del: length_Cons)
  next
    case (Inr k)
    let ?m = "if k = 0 then moved else clock n"
    show ?thesis
    proof (cases "drop k ?f \<noteq> [] \<and> STALL_TIMEOUT \<le> clock n - ?m")
      case True
      with 3(2) Inr have "failed = Some TimedOut" "bs = take k ?f"
        by (simp_all add: wrote_def [symmetric] Let_def del: length_Cons drop_eq_Nil)
      with True show ?thesis by (intro exI [of _ "drop k ?f"]) simp
    next
      case False
      obtain bs1 where 1: "write_loop clock writes n (drop k ?f) ?m = (failed, bs1)" "bs = take k ?f @ bs1"
        using 3(2) Inr False by (auto simp add: wrote_def [symmetric] Let_def simp del: length_Cons drop_eq_Nil
            split: prod.splits)
      from 3(1) [OF wrote_def Inr refl False 1(1)] obtain tl where
        "drop k ?f = bs1 @ tl" "failed = None \<longleftrightarrow> tl = []" by blast
      with 1(2) show ?thesis by (metis append_assoc append_take_drop_id)
    qed
  qed
qed auto

section \<open>The room of the rings\<close>

text \<open>The capacities of the two rings; how a ring grows is up to the standard library.\<close>

record Rings =
  ri_messages :: nat
  ri_control :: nat

definition OUTBOX_KEEPS :: nat where "OUTBOX_KEEPS = 64"

text \<open>\<open>VecDeque::shrink_to\<close> of a ring that holds so many.\<close>

definition shrink_to :: "nat \<Rightarrow> nat \<Rightarrow> nat \<Rightarrow> nat" where
  "shrink_to held capacity least = min capacity (max held least)"

definition give_back_the_room :: "Queue \<Rightarrow> Rings \<Rightarrow> Rings" where
  "give_back_the_room q r =
     (let r = (if qu_messages q = [] \<and> ri_messages r > OUTBOX_KEEPS
               then r\<lparr>ri_messages := shrink_to 0 (ri_messages r) OUTBOX_KEEPS\<rparr> else r) in
      if qu_control q = [] \<and> ri_control r > OUTBOX_KEEPS
      then r\<lparr>ri_control := shrink_to 0 (ri_control r) OUTBOX_KEEPS\<rparr> else r)"

text \<open>The rings in \<open>take\<close>, which gives back only where it took, and in \<open>shut\<close>.\<close>

definition take_rings :: "Queue \<Rightarrow> Rings \<Rightarrow> Rings" where
  "take_rings q r = (case take_turn q of (Some _, q') \<Rightarrow> give_back_the_room q' r | (None, _) \<Rightarrow> r)"

definition shut_rings :: "Queue \<Rightarrow> Rings \<Rightarrow> Rings" where
  "shut_rings q r = give_back_the_room (outbox_shut q) r"

text \<open>A ring that holds frames keeps its room, and an empty one keeps no more than so much of it.\<close>

lemma give_back_room:
  "ri_messages (give_back_the_room q r) = (if qu_messages q = [] then min (ri_messages r) OUTBOX_KEEPS else ri_messages r)"
  "ri_control (give_back_the_room q r) = (if qu_control q = [] then min (ri_control r) OUTBOX_KEEPS else ri_control r)"
  by (auto simp: give_back_the_room_def shrink_to_def Let_def)

lemma rings_fit_what_they_hold:
  assumes "length (qu_messages q) \<le> ri_messages r" and "length (qu_control q) \<le> ri_control r"
  shows "length (qu_messages (snd (take_turn q))) \<le> ri_messages (take_rings q r)"
    "length (qu_control (snd (take_turn q))) \<le> ri_control (take_rings q r)"
  using assms by (auto simp: take_rings_def take_turn_def give_back_room split: list.splits)

lemma last_taken_gives_back:
  assumes "take_turn q = (Some x, q')" and "qu_messages q' = []" and "qu_control q' = []"
  shows "ri_messages (take_rings q r) \<le> OUTBOX_KEEPS" "ri_control (take_rings q r) \<le> OUTBOX_KEEPS"
  using assms by (simp_all add: take_rings_def give_back_room)

lemma shut_gives_back: "ri_messages (shut_rings q r) \<le> OUTBOX_KEEPS" "ri_control (shut_rings q r) \<le> OUTBOX_KEEPS"
  by (simp_all add: shut_rings_def give_back_room outbox_shut_def)

end
