(* ===== verification/Url.thy ===== *)
theory Url
  imports Multicast
begin

text \<open>
  Bus addresses. The conversions of the standard library are written out: unsigned and signed decimals with
  an optional sign, the four octets of an IPv4 address, \<open>strip_prefix\<close>, \<open>split_once\<close>, \<open>rsplit_once\<close> and
  \<open>split\<close>. Floating point is an argument, the record \<open>Float\<close>: how a rate is read and shown, and the tests of it.
\<close>

section \<open>Strings and numbers\<close>

fun strip_prefix :: "string \<Rightarrow> string \<Rightarrow> string option" where
  "strip_prefix [] s = Some s"
| "strip_prefix (p # ps) [] = None"
| "strip_prefix (p # ps) (c # cs) = (if p = c then strip_prefix ps cs else None)"

fun split_once :: "char \<Rightarrow> string \<Rightarrow> (string \<times> string) option" where
  "split_once d [] = None"
| "split_once d (c # cs) = (if c = d then Some ([], cs) else map_option (\<lambda>(a, b). (c # a, b)) (split_once d cs))"

definition rsplit_once :: "char \<Rightarrow> string \<Rightarrow> (string \<times> string) option" where
  "rsplit_once d s = map_option (\<lambda>(b, a). (rev a, rev b)) (split_once d (rev s))"

fun split_on :: "char \<Rightarrow> string \<Rightarrow> string list" where
  "split_on d [] = [[]]"
| "split_on d (c # cs) = (if c = d then [] # split_on d cs
     else case split_on d cs of p # ps \<Rightarrow> (c # p) # ps | [] \<Rightarrow> [[c]])"

definition to_digit :: "char \<Rightarrow> nat option" where
  "to_digit c = (let n = of_char c :: nat in if 48 \<le> n \<and> n \<le> 57 then Some (n - 48) else None)"

fun parse_digits :: "string \<Rightarrow> nat \<Rightarrow> nat option" where
  "parse_digits [] v = Some v"
| "parse_digits (c # cs) v = Option.bind (to_digit c) (\<lambda>d. parse_digits cs (v * 10 + d))"

text \<open>\<open>str::parse\<close> for an unsigned type with that maximum, and for \<open>i64\<close>.\<close>

definition parse_unsigned :: "nat \<Rightarrow> string \<Rightarrow> nat option" where
  "parse_unsigned most s =
     (let ds = (case s of c # cs \<Rightarrow> if c = CHR ''+'' then cs else s | [] \<Rightarrow> s) in
      if ds = [] then None
      else Option.bind (parse_digits ds 0) (\<lambda>v. if v \<le> most then Some v else None))"

definition parse_i64 :: "string \<Rightarrow> i64 option" where
  "parse_i64 s =
     (case s of
        c # cs \<Rightarrow>
          if c = CHR ''-'' then
            (if cs = [] then None
             else Option.bind (parse_digits cs 0) (\<lambda>v. if v \<le> 2 ^ 63 then Some (- of_nat v) else None))
          else map_option of_nat (parse_unsigned (2 ^ 63 - 1) s)
      | [] \<Rightarrow> None)"

definition digit_char :: "nat \<Rightarrow> char" where
  "digit_char d = char_of (48 + d)"

fun show_nat :: "nat \<Rightarrow> string" where
  "show_nat n = (if n < 10 then [digit_char n] else show_nat (n div 10) @ [digit_char (n mod 10)])"

declare show_nat.simps [simp del]

definition show_i64 :: "i64 \<Rightarrow> string" where
  "show_i64 w = (if sint w < 0 then CHR ''-'' # show_nat (nat (- sint w)) else show_nat (nat (sint w)))"

datatype Ipv4Addr = Ipv4Addr u8 u8 u8 u8

definition is_multicast :: "Ipv4Addr \<Rightarrow> bool" where
  "is_multicast ip = (case ip of Ipv4Addr a b c d \<Rightarrow> 224 \<le> unat a \<and> unat a \<le> 239)"

definition show_octet :: "u8 \<Rightarrow> string" where "show_octet o8 = show_nat (unat o8)"

definition show_ipv4 :: "Ipv4Addr \<Rightarrow> string" where
  "show_ipv4 ip = (case ip of Ipv4Addr a b c d \<Rightarrow>
     show_octet a @ CHR ''.'' # show_octet b @ CHR ''.'' # show_octet c @ CHR ''.'' # show_octet d)"

text \<open>One to three digits, with no zero in front of another digit, of a value of at most 255.\<close>

definition parse_octet :: "string \<Rightarrow> u8 option" where
  "parse_octet s =
     (if s = [] \<or> 3 < length s \<or> (1 < length s \<and> hd s = CHR ''0'') then None
      else Option.bind (parse_digits s 0) (\<lambda>v. if v \<le> 255 then Some (of_nat v) else None))"

definition parse_ipv4 :: "string \<Rightarrow> Ipv4Addr option" where
  "parse_ipv4 s =
     (case map parse_octet (split_on CHR ''.'' s) of
        [Some a, Some b, Some c, Some d] \<Rightarrow> Some (Ipv4Addr a b c d)
      | _ \<Rightarrow> None)"

section \<open>Buses\<close>

definition DEFAULT_GROUP :: Ipv4Addr where "DEFAULT_GROUP = Ipv4Addr 239 255 76 67"
definition DEFAULT_UDPM_PORT :: u16 where "DEFAULT_UDPM_PORT = 7667"
definition MIN_SHORT_MAX :: nat where "MIN_SHORT_MAX = 22"
definition MAX_UDP_PAYLOAD :: nat where "MAX_UDP_PAYLOAD = 65507"
definition MAX_SHORT_MAX :: nat where "MAX_SHORT_MAX = MAX_UDP_PAYLOAD - 8"
definition DEFAULT_TCPQ_HOST :: string where "DEFAULT_TCPQ_HOST = ''127.0.0.1''"
definition DEFAULT_TCPQ_PORT :: u16 where "DEFAULT_TCPQ_PORT = 7700"

record Relay =
  re_host :: string
  re_port :: u16

datatype LogMode = Read | Write | Append

record 'f LogFile =
  lf_path :: string
  lf_mode :: LogMode
  lf_speed :: "'f Speed"
  lf_start :: "i64 option"

text \<open>\<open>url::Multicast\<close>.\<close>

record MulticastBus =
  mb_group :: Ipv4Addr
  mb_port :: u16
  mb_ttl :: u8
  mb_recv_buf_size :: "nat option"
  mb_interface :: "Ipv4Addr option"
  mb_short_max :: "nat option"

definition multicast_default :: MulticastBus where
  "multicast_default = \<lparr>mb_group = DEFAULT_GROUP, mb_port = DEFAULT_UDPM_PORT, mb_ttl = 0,
     mb_recv_buf_size = None, mb_interface = None, mb_short_max = None\<rparr>"

datatype 'f BusUrl = BusUdpm MulticastBus | BusTcpq Relay | BusFile "'f LogFile"

datatype UrlProblem = Scheme | Group | NotMulticast | Port | Ttl | RecvBufSize | Interface | ShortMax
  | NoPath | Mode | BadSpeed | StartTimestamp

record BadUrl =
  bu_url :: string
  bu_problem :: UrlProblem

text \<open>The floating-point operations the crate uses: \<open>str::parse\<close>, \<open>Display\<close>, \<open>is_nan\<close>,
  \<open>is_sign_negative\<close>, and the comparisons with \<open>0.0\<close> and the value \<open>1.0\<close>.\<close>

record 'f Float =
  fl_parse :: "string \<Rightarrow> 'f option"
  fl_show :: "'f \<Rightarrow> string"
  fl_nan :: "'f \<Rightarrow> bool"
  fl_negative :: "'f \<Rightarrow> bool"
  fl_zero :: "'f \<Rightarrow> bool"
  fl_one :: 'f

definition param :: "(string \<Rightarrow> 'a option) \<Rightarrow> string \<Rightarrow> string \<Rightarrow> UrlProblem \<Rightarrow> BadUrl + 'a" where
  "param parse value url problem =
     (case parse value of None \<Rightarrow> Inl \<lparr>bu_url = url, bu_problem = problem\<rparr> | Some x \<Rightarrow> Inr x)"

definition parse_u16 :: "string \<Rightarrow> u16 option" where
  "parse_u16 s = map_option of_nat (parse_unsigned 65535 s)"
definition parse_u8 :: "string \<Rightarrow> u8 option" where
  "parse_u8 s = map_option of_nat (parse_unsigned 255 s)"
definition parse_usize :: "string \<Rightarrow> nat option" where
  "parse_usize s = parse_unsigned (2 ^ 64 - 1) s"

section \<open>Showing\<close>

fun show_speed :: "'f Float \<Rightarrow> 'f Speed \<Rightarrow> string" where
  "show_speed fl (Rate rate) = fl_show fl rate"
| "show_speed fl Unthrottled = ''0''"

definition show_relay :: "Relay \<Rightarrow> string" where
  "show_relay r = re_host r @ '':'' @ show_nat (unat (re_port r))"

fun show_mode :: "LogMode \<Rightarrow> string" where
  "show_mode Read = ''r''" | "show_mode Write = ''w''" | "show_mode Append = ''a''"

definition show_opt :: "string \<Rightarrow> ('a \<Rightarrow> string) \<Rightarrow> 'a option \<Rightarrow> string" where
  "show_opt key shw x = (case x of None \<Rightarrow> [] | Some v \<Rightarrow> key @ shw v)"

fun show_url :: "'f Float \<Rightarrow> 'f BusUrl \<Rightarrow> string" where
  "show_url fl (BusTcpq r) = ''tcpq://'' @ show_relay r"
| "show_url fl (BusUdpm u) =
     ''udpm://'' @ show_ipv4 (mb_group u) @ '':'' @ show_nat (unat (mb_port u)) @ ''?ttl='' @ show_nat (unat (mb_ttl u))
       @ show_opt ''&recv_buf_size='' show_nat (mb_recv_buf_size u)
       @ show_opt ''&interface='' show_ipv4 (mb_interface u)
       @ show_opt ''&short_max='' show_nat (mb_short_max u)"
| "show_url fl (BusFile f) =
     ''file://'' @ lf_path f @ ''?mode='' @ show_mode (lf_mode f) @ ''&speed='' @ show_speed fl (lf_speed f)
       @ show_opt ''&start_timestamp='' show_i64 (lf_start f)"

section \<open>Parsing\<close>

text \<open>The loop over the pairs of a query, which takes no notice of a part without an equals sign.\<close>

fun each_pair :: "(string \<Rightarrow> string \<Rightarrow> 'a \<Rightarrow> BadUrl + 'a) \<Rightarrow> string list \<Rightarrow> 'a \<Rightarrow> BadUrl + 'a" where
  "each_pair f [] x = Inr x"
| "each_pair f (p # ps) x =
     (case split_once CHR ''='' p of
        None \<Rightarrow> each_pair f ps x
      | Some (k, v) \<Rightarrow> and_then (f k v x) (each_pair f ps))"

definition query_pairs :: "string option \<Rightarrow> string list" where
  "query_pairs query = (case query of None \<Rightarrow> [] | Some q \<Rightarrow> split_on CHR ''&'' q)"

definition split_query :: "string \<Rightarrow> string \<times> string option" where
  "split_query rest = (case split_once CHR ''?'' rest of Some (a, q) \<Rightarrow> (a, Some q) | None \<Rightarrow> (rest, None))"

definition udpm_pair :: "string \<Rightarrow> string \<Rightarrow> string \<Rightarrow> MulticastBus \<Rightarrow> BadUrl + MulticastBus" where
  "udpm_pair url k v u =
     (if k = ''ttl'' then and_then (param parse_u8 v url Ttl) (\<lambda>x. Inr (u\<lparr>mb_ttl := x\<rparr>))
      else if k = ''recv_buf_size'' then
        and_then (param parse_usize v url RecvBufSize) (\<lambda>x. Inr (u\<lparr>mb_recv_buf_size := Some x\<rparr>))
      else if k = ''interface'' then
        and_then (param parse_ipv4 v url Interface) (\<lambda>x. Inr (u\<lparr>mb_interface := Some x\<rparr>))
      else if k = ''short_max'' then
        and_then (param parse_usize v url ShortMax) (\<lambda>bytes.
          if \<not> (MIN_SHORT_MAX \<le> bytes \<and> bytes \<le> MAX_SHORT_MAX)
          then Inl \<lparr>bu_url = url, bu_problem = ShortMax\<rparr>
          else Inr (u\<lparr>mb_short_max := Some bytes\<rparr>))
      else Inr u)"

definition file_pair :: "'f Float \<Rightarrow> string \<Rightarrow> string \<Rightarrow> string \<Rightarrow> 'f LogFile \<Rightarrow> BadUrl + 'f LogFile" where
  "file_pair fl url k v f =
     (if k = ''mode'' then
        (if v = ''r'' then Inr (f\<lparr>lf_mode := Read\<rparr>)
         else if v = ''w'' then Inr (f\<lparr>lf_mode := Write\<rparr>)
         else if v = ''a'' then Inr (f\<lparr>lf_mode := Append\<rparr>)
         else Inl \<lparr>bu_url = url, bu_problem = Mode\<rparr>)
      else if k = ''speed'' then
        and_then (param (fl_parse fl) v url BadSpeed) (\<lambda>rate.
          if fl_nan fl rate \<or> fl_negative fl rate then Inl \<lparr>bu_url = url, bu_problem = BadSpeed\<rparr>
          else Inr (f\<lparr>lf_speed := (if fl_zero fl rate then Unthrottled else Rate rate)\<rparr>))
      else if k = ''start_timestamp'' then
        and_then (param parse_i64 v url StartTimestamp) (\<lambda>x. Inr (f\<lparr>lf_start := Some x\<rparr>))
      else Inr f)"

definition parse_relay :: "string \<Rightarrow> string \<Rightarrow> BadUrl + Relay" where
  "parse_relay rest url =
     and_then (case rsplit_once CHR '':'' rest of
         Some (host, port) \<Rightarrow> and_then (param parse_u16 port url Port) (\<lambda>p. Inr (host, p))
       | None \<Rightarrow> Inr (rest, DEFAULT_TCPQ_PORT))
     (\<lambda>(host, port). Inr \<lparr>re_host = (if host = [] then DEFAULT_TCPQ_HOST else host), re_port = port\<rparr>)"

definition parse_file :: "'f Float \<Rightarrow> string \<Rightarrow> string \<Rightarrow> BadUrl + 'f LogFile" where
  "parse_file fl rest url =
     (let (path, query) = split_query rest in
      if path = [] then Inl \<lparr>bu_url = url, bu_problem = NoPath\<rparr>
      else each_pair (file_pair fl url) (query_pairs query)
        \<lparr>lf_path = path, lf_mode = Read, lf_speed = Rate (fl_one fl), lf_start = None\<rparr>)"

definition parse_address :: "string \<Rightarrow> string \<Rightarrow> BadUrl + MulticastBus" where
  "parse_address address url =
     (if address = [] then Inr multicast_default
      else
        let (group, port) = (case split_once CHR '':'' address of
              Some (g, p) \<Rightarrow> (g, Some p) | None \<Rightarrow> (address, None)) in
        and_then (param parse_ipv4 group url Group) (\<lambda>group.
        if \<not> is_multicast group then Inl \<lparr>bu_url = url, bu_problem = NotMulticast\<rparr>
        else case port of
            None \<Rightarrow> Inr (multicast_default\<lparr>mb_group := group\<rparr>)
          | Some p \<Rightarrow> and_then (param parse_u16 p url Port) (\<lambda>p.
              Inr (multicast_default\<lparr>mb_group := group, mb_port := p\<rparr>))))"

definition parse_udpm :: "string \<Rightarrow> string \<Rightarrow> BadUrl + MulticastBus" where
  "parse_udpm rest url =
     (let (address, query) = split_query rest in
      and_then (parse_address address url) (each_pair (udpm_pair url) (query_pairs query)))"

definition parse_url :: "'f Float \<Rightarrow> string \<Rightarrow> BadUrl + 'f BusUrl" where
  "parse_url fl url =
     (case strip_prefix ''tcpq://'' url of
        Some rest \<Rightarrow> and_then (parse_relay rest url) (\<lambda>r. Inr (BusTcpq r))
      | None \<Rightarrow>
          (case strip_prefix ''file://'' url of
             Some rest \<Rightarrow> and_then (parse_file fl rest url) (\<lambda>f. Inr (BusFile f))
           | None \<Rightarrow>
               (case strip_prefix ''udpm://'' url of
                  None \<Rightarrow> Inl \<lparr>bu_url = url, bu_problem = Scheme\<rparr>
                | Some rest \<Rightarrow> and_then (parse_udpm rest url) (\<lambda>u. Inr (BusUdpm u)))))"

section \<open>Decimals\<close>

lemma to_digit_char [simp]: "d < 10 \<Longrightarrow> to_digit (digit_char d) = Some d"
  by (simp add: to_digit_def digit_char_def Let_def)

lemma to_digit_less: "to_digit c = Some d \<Longrightarrow> d < 10"
  by (auto simp: to_digit_def Let_def split: if_splits)

lemma not_a_digit [simp]:
  "to_digit CHR ''+'' = None" "to_digit CHR ''-'' = None" "to_digit CHR ''.'' = None" "to_digit CHR '':'' = None"
  "to_digit CHR ''&'' = None" "to_digit CHR ''?'' = None" "to_digit CHR ''='' = None"
  by (simp_all add: to_digit_def Let_def)

lemma parse_digits_append: "parse_digits (s @ t) v = Option.bind (parse_digits s v) (parse_digits t)"
  by (induction s arbitrary: v) (auto simp: bind_eq_Some_conv split: option.splits Option.bind_splits)

lemma parse_show_digits: "parse_digits (show_nat n) 0 = Some n"
proof (induction n rule: show_nat.induct)
  case (1 n)
  show ?case
  proof (cases "n < 10")
    case True then show ?thesis by (simp add: show_nat.simps [of n])
  next
    case False
    then have "parse_digits (show_nat (n div 10)) 0 = Some (n div 10)" using 1 by simp
    then show ?thesis using False by (simp add: show_nat.simps [of n] parse_digits_append)
  qed
qed

lemma show_nat_digits: "c \<in> set (show_nat n) \<Longrightarrow> to_digit c \<noteq> None"
proof (induction n rule: show_nat.induct)
  case (1 n) then show ?case by (cases "n < 10") (auto simp: show_nat.simps [of n])
qed

lemma show_nat_no [simp]: "to_digit c = None \<Longrightarrow> c \<notin> set (show_nat n)"
  using show_nat_digits by fastforce

lemma show_nat_nonempty [simp]: "show_nat n \<noteq> []"
  by (subst show_nat.simps) simp

lemma show_nat_length: "n < 10 ^ Suc k \<Longrightarrow> length (show_nat n) \<le> Suc k"
proof (induction n arbitrary: k rule: show_nat.induct)
  case (1 n)
  show ?case
  proof (cases "n < 10")
    case True then show ?thesis by (simp add: show_nat.simps [of n])
  next
    case False
    then obtain j where j: "k = Suc j" using "1.prems" by (cases k) auto
    then have "n div 10 < 10 ^ Suc j" using "1.prems" by (simp add: less_mult_imp_div_less mult.commute)
    then show ?thesis using 1 False j by (simp add: show_nat.simps [of n])
  qed
qed

lemma digit_char_zero: "d < 10 \<Longrightarrow> (digit_char d = CHR ''0'') = (d = 0)"
proof -
  assume d: "d < 10"
  have "of_char (digit_char 0) = (of_char CHR ''0'' :: nat)" by (simp add: digit_char_def)
  then have "digit_char 0 = CHR ''0''" by (simp only: of_char_eq_iff)
  moreover have "digit_char d = digit_char 0 \<Longrightarrow> d = 0" using d to_digit_char by (metis option.inject zero_less_numeral)
  ultimately show ?thesis by metis
qed

lemma digit_char_of:
  assumes "to_digit c = Some d" shows "digit_char d = c"
proof -
  have "48 + d = (of_char c :: nat)" using assms by (auto simp: to_digit_def Let_def split: if_splits)
  then show ?thesis by (simp add: digit_char_def)
qed

lemma show_nat_hd: "0 < n \<Longrightarrow> hd (show_nat n) \<noteq> CHR ''0''"
proof (induction n rule: show_nat.induct)
  case (1 n)
  show ?case
  proof (cases "n < 10")
    case True then show ?thesis using "1.prems" by (simp add: show_nat.simps [of n] digit_char_zero)
  next
    case False
    then have "hd (show_nat (n div 10)) \<noteq> CHR ''0''" using 1 by simp
    then show ?thesis using False by (simp add: show_nat.simps [of n])
  qed
qed

lemma show_nat_single: "show_nat n = [c] \<Longrightarrow> n < 10"
  by (rule ccontr) (simp add: show_nat.simps [of n])

lemma show_nat_Cons: "show_nat n = c # cs \<Longrightarrow> to_digit c \<noteq> None"
  using show_nat_digits [of c n] by simp

lemma parse_unsigned_show [simp]: "n \<le> most \<Longrightarrow> parse_unsigned most (show_nat n) = Some n"
  using parse_show_digits [of n] show_nat_Cons [of n]
  by (cases "show_nat n") (fastforce simp: parse_unsigned_def)+

lemma parse_unsigned_most: "parse_unsigned most s = Some n \<Longrightarrow> n \<le> most"
  by (auto simp: parse_unsigned_def Let_def bind_eq_Some_conv split: if_splits)

lemma parse_u16_show [simp]: "parse_u16 (show_nat (unat p)) = Some p"
  using unsigned_less [of p, where ?'a = nat] by (simp add: parse_u16_def)

lemma parse_u8_show [simp]: "parse_u8 (show_nat (unat p)) = Some p"
  using unsigned_less [of p, where ?'a = nat] by (simp add: parse_u8_def)

lemma parse_usize_show [simp]: "n < 2 ^ 64 \<Longrightarrow> parse_usize (show_nat n) = Some n"
  by (simp add: parse_usize_def)

lemma parse_i64_show [simp]: "parse_i64 (show_i64 w) = Some w"
proof (cases "sint w < 0")
  case True
  have "- sint w \<le> 2 ^ 63" using sint_greater_eq [of w] by simp
  then have "nat (- sint w) \<le> 2 ^ 63" by simp
  then show ?thesis using True
    by (simp add: parse_i64_def show_i64_def parse_show_digits)
next
  case False
  have "sint w < 2 ^ 63" using sint_lt [of w] by simp
  then have le: "nat (sint w) \<le> 2 ^ 63 - 1" using False by simp
  obtain c cs where c: "show_nat (nat (sint w)) = c # cs" by (cases "show_nat (nat (sint w))") auto
  then have "c \<noteq> CHR ''-''" using show_nat_Cons [OF c] by auto
  then have "parse_i64 (c # cs) = map_option of_nat (parse_unsigned (2 ^ 63 - 1) (c # cs))"
    by (simp add: parse_i64_def)
  then show ?thesis using False le parse_unsigned_show [OF le] c by (simp add: show_i64_def)
qed

lemma show_i64_no [simp]: "to_digit c = None \<Longrightarrow> c \<noteq> CHR ''-'' \<Longrightarrow> c \<notin> set (show_i64 w)"
  by (simp add: show_i64_def)

section \<open>Splitting\<close>

lemma split_once_append [simp]: "d \<notin> set a \<Longrightarrow> split_once d (a @ d # b) = Some (a, b)"
  by (induction a) auto

lemma split_once_sound: "split_once d s = Some (a, b) \<Longrightarrow> s = a @ d # b \<and> d \<notin> set a"
  by (induction s arbitrary: a) (auto split: if_splits)

lemma split_once_None: "split_once d s = None \<longleftrightarrow> d \<notin> set s"
  by (induction s) auto

lemma rsplit_once_append [simp]: "d \<notin> set b \<Longrightarrow> rsplit_once d (a @ d # b) = Some (a, b)"
  by (simp add: rsplit_once_def)

lemma split_on_alone [simp]: "d \<notin> set s \<Longrightarrow> split_on d s = [s]"
  by (induction s) auto

lemma split_on_append [simp]: "d \<notin> set s \<Longrightarrow> split_on d (s @ d # t) = s # split_on d t"
  by (induction s) auto

lemma strip_prefix_append [simp]: "strip_prefix p (p @ s) = Some s"
  by (induction p) auto

section \<open>Octets\<close>

lemma parse_octet_show [simp]: "parse_octet (show_octet b) = Some b"
proof -
  have b: "unat b < 256" using unsigned_less [of b] by simp
  then have len: "length (show_nat (unat b)) \<le> 3" using show_nat_length [of "unat b" 2] by simp
  have "\<not> (1 < length (show_nat (unat b)) \<and> hd (show_nat (unat b)) = CHR ''0'')"
    using show_nat_hd [of "unat b"] by (cases "unat b = 0") (simp_all add: show_nat.simps [of 0])
  then show ?thesis using b len by (simp add: parse_octet_def show_octet_def parse_show_digits)
qed

lemma show_octet_no [simp]: "to_digit c = None \<Longrightarrow> c \<notin> set (show_octet b)"
  by (simp add: show_octet_def)

lemma parse_show_ipv4 [simp]: "parse_ipv4 (show_ipv4 ip) = Some ip"
  by (cases ip) (simp add: parse_ipv4_def show_ipv4_def)

lemma show_ipv4_no [simp]: "to_digit c = None \<Longrightarrow> c \<noteq> CHR ''.'' \<Longrightarrow> c \<notin> set (show_ipv4 ip)"
  by (cases ip) (simp add: show_ipv4_def)

lemma show_ipv4_nonempty [simp]: "show_ipv4 ip \<noteq> []"
  by (cases ip) (simp add: show_ipv4_def)

section \<open>What a URL can name\<close>

text \<open>The values the parser can give. The bounds of the integer fields are those of \<open>usize\<close>.\<close>

definition rate_ok :: "'f Float \<Rightarrow> 'f \<Rightarrow> bool" where
  "rate_ok fl r \<longleftrightarrow> \<not> fl_nan fl r \<and> \<not> fl_negative fl r \<and> \<not> fl_zero fl r"

fun speed_ok :: "'f Float \<Rightarrow> 'f Speed \<Rightarrow> bool" where
  "speed_ok fl (Rate r) = rate_ok fl r"
| "speed_ok fl Unthrottled = True"

definition multicast_ok :: "MulticastBus \<Rightarrow> bool" where
  "multicast_ok u \<longleftrightarrow> is_multicast (mb_group u)
     \<and> (case mb_recv_buf_size u of None \<Rightarrow> True | Some n \<Rightarrow> n < 2 ^ 64)
     \<and> (case mb_short_max u of None \<Rightarrow> True | Some n \<Rightarrow> MIN_SHORT_MAX \<le> n \<and> n \<le> MAX_SHORT_MAX)"

definition logfile_ok :: "'f Float \<Rightarrow> 'f LogFile \<Rightarrow> bool" where
  "logfile_ok fl f \<longleftrightarrow> lf_path f \<noteq> [] \<and> CHR ''?'' \<notin> set (lf_path f) \<and> speed_ok fl (lf_speed f)"

fun bus_ok :: "'f Float \<Rightarrow> 'f BusUrl \<Rightarrow> bool" where
  "bus_ok fl (BusTcpq r) = (re_host r \<noteq> [])"
| "bus_ok fl (BusUdpm u) = multicast_ok u"
| "bus_ok fl (BusFile f) = logfile_ok fl f"

text \<open>What the standard library documents of \<open>f64\<close>: a rate reads back as itself, no rate is shown with an
  ampersand, and \<open>0\<close> and \<open>1.0\<close> are what they say.\<close>

definition float_laws :: "'f Float \<Rightarrow> bool" where
  "float_laws fl \<longleftrightarrow>
     (\<forall>r. rate_ok fl r \<longrightarrow> fl_parse fl (fl_show fl r) = Some r \<and> CHR ''&'' \<notin> set (fl_show fl r))
     \<and> (\<exists>z. fl_parse fl ''0'' = Some z \<and> fl_zero fl z \<and> \<not> fl_nan fl z \<and> \<not> fl_negative fl z)
     \<and> rate_ok fl (fl_one fl)"

lemma and_then_InrD: "and_then r f = Inr y \<Longrightarrow> \<exists>x. r = Inr x \<and> f x = Inr y"
  by (simp add: and_then_eq_Inr)

lemma param_Inr [simp]: "param parse v url pr = Inr x \<longleftrightarrow> parse v = Some x"
  by (simp add: param_def split: option.splits)

lemma each_pair_invariant:
  assumes step: "\<And>k v x y. P x \<Longrightarrow> f k v x = Inr y \<Longrightarrow> P y"
  shows "P x \<Longrightarrow> each_pair f ps x = Inr y \<Longrightarrow> P y"
  by (induction ps arbitrary: x) (auto split: option.splits dest!: and_then_InrD intro: step)

lemma udpm_pair_ok: "multicast_ok u \<Longrightarrow> udpm_pair url k v u = Inr u' \<Longrightarrow> multicast_ok u'"
  by (auto simp: udpm_pair_def multicast_ok_def parse_usize_def dest!: and_then_InrD parse_unsigned_most
           split: if_splits)

lemma file_pair_ok: "logfile_ok fl f \<Longrightarrow> file_pair fl url k v f = Inr f' \<Longrightarrow> logfile_ok fl f'"
  by (auto simp: file_pair_def logfile_ok_def rate_ok_def dest!: and_then_InrD split: if_splits)

lemma parse_address_ok: "parse_address a url = Inr u \<Longrightarrow> multicast_ok u"
  by (auto simp: parse_address_def multicast_default_def multicast_ok_def DEFAULT_GROUP_def is_multicast_def Let_def
           dest!: and_then_InrD split: if_splits option.splits)

lemma parse_udpm_ok: "parse_udpm rest url = Inr u \<Longrightarrow> multicast_ok u"
  by (auto simp: parse_udpm_def Let_def split: prod.splits dest!: and_then_InrD
           intro: each_pair_invariant [where P = multicast_ok, OF udpm_pair_ok] parse_address_ok)

lemma split_query_path: "split_query rest = (path, query) \<Longrightarrow> CHR ''?'' \<notin> set path"
  by (auto simp: split_query_def split_once_None dest: split_once_sound split: option.splits)

lemma parse_file_ok:
  assumes "float_laws fl" and "parse_file fl rest url = Inr f" shows "logfile_ok fl f"
proof -
  obtain path query where q: "split_query rest = (path, query)" by (cases "split_query rest")
  let ?f = "\<lparr>lf_path = path, lf_mode = Read, lf_speed = Rate (fl_one fl), lf_start = None\<rparr>"
  have "path \<noteq> []" and run: "each_pair (file_pair fl url) (query_pairs query) ?f = Inr f"
    using assms(2) q by (auto simp: parse_file_def split: if_splits)
  then have "logfile_ok fl ?f" using assms(1) split_query_path [OF q] by (simp add: logfile_ok_def float_laws_def)
  with file_pair_ok show ?thesis using run by (rule each_pair_invariant)
qed

lemma parse_relay_ok: "parse_relay rest url = Inr r \<Longrightarrow> re_host r \<noteq> []"
  by (auto simp: parse_relay_def DEFAULT_TCPQ_HOST_def dest!: and_then_InrD split: prod.splits if_splits)

lemma parse_url_ok: "float_laws fl \<Longrightarrow> parse_url fl url = Inr u \<Longrightarrow> bus_ok fl u"
  by (auto simp: parse_url_def split: option.splits dest!: and_then_InrD
           dest: parse_relay_ok parse_file_ok parse_udpm_ok)

text \<open>An error names the URL it is about.\<close>

lemma param_Inl: "param parse v url pr = Inl e \<Longrightarrow> bu_url e = url"
  by (auto simp: param_def split: option.splits)

lemma and_then_InlD: "and_then r f = Inl e \<Longrightarrow> r = Inl e \<or> (\<exists>x. r = Inr x \<and> f x = Inl e)"
  by (cases r) auto

lemma each_pair_error:
  assumes "\<And>k v x e. f k v x = Inl e \<Longrightarrow> bu_url e = url"
  shows "each_pair f ps x = Inl e \<Longrightarrow> bu_url e = url"
  by (induction ps arbitrary: x) (auto split: option.splits dest!: and_then_InlD intro: assms)

lemma udpm_pair_error: "udpm_pair url k v u = Inl e \<Longrightarrow> bu_url e = url"
  by (auto simp: udpm_pair_def dest!: and_then_InlD param_Inl split: if_splits)

lemma file_pair_error: "file_pair fl url k v f = Inl e \<Longrightarrow> bu_url e = url"
  by (auto simp: file_pair_def dest!: and_then_InlD param_Inl split: if_splits)

lemma parse_address_error: "parse_address a url = Inl e \<Longrightarrow> bu_url e = url"
  by (auto simp: parse_address_def Let_def dest!: and_then_InlD param_Inl split: if_splits option.splits prod.splits)

lemma parse_udpm_error: "parse_udpm rest url = Inl e \<Longrightarrow> bu_url e = url"
  by (auto simp: parse_udpm_def Let_def split: prod.splits dest!: and_then_InlD parse_address_error
           intro: each_pair_error [OF udpm_pair_error])

lemma parse_file_error: "parse_file fl rest url = Inl e \<Longrightarrow> bu_url e = url"
  by (auto simp: parse_file_def Let_def split: prod.splits if_splits intro: each_pair_error [OF file_pair_error])

lemma parse_relay_error: "parse_relay rest url = Inl e \<Longrightarrow> bu_url e = url"
  by (auto simp: parse_relay_def dest!: and_then_InlD param_Inl split: prod.splits option.splits)

lemma parse_url_error: "parse_url fl url = Inl e \<Longrightarrow> bu_url e = url"
  by (auto simp: parse_url_def split: option.splits dest!: and_then_InlD parse_udpm_error parse_file_error parse_relay_error)

section \<open>Reading back what was shown\<close>

lemma relay_reads_back: "re_host r \<noteq> [] \<Longrightarrow> parse_relay (show_relay r) url = Inr r"
  by (simp add: parse_relay_def show_relay_def param_def)

lemma split_query_append [simp]: "CHR ''?'' \<notin> set a \<Longrightarrow> split_query (a @ CHR ''?'' # q) = (a, Some q)"
  by (simp add: split_query_def)

text \<open>A query is its pairs, with ampersands between them.\<close>

fun join_pairs :: "string list \<Rightarrow> string" where
  "join_pairs [] = []"
| "join_pairs (p # ps) = CHR ''&'' # p @ join_pairs ps"

lemma split_join: "CHR ''&'' \<notin> set p \<Longrightarrow> \<forall>x\<in>set ps. CHR ''&'' \<notin> set x \<Longrightarrow>
    split_on CHR ''&'' (p @ join_pairs ps) = p # ps"
  by (induction ps arbitrary: p) auto

definition opt_pair :: "string \<Rightarrow> ('a \<Rightarrow> string) \<Rightarrow> 'a option \<Rightarrow> string list" where
  "opt_pair key shw x = (case x of None \<Rightarrow> [] | Some v \<Rightarrow> [key @ CHR ''='' # shw v])"

lemma join_pairs_append: "join_pairs (ps @ qs) = join_pairs ps @ join_pairs qs"
  by (induction ps) auto

lemma show_opt_pair: "show_opt (CHR ''&'' # key @ ''='') shw x = join_pairs (opt_pair key shw x)"
  by (simp add: show_opt_def opt_pair_def split: option.splits)

lemma opt_pair_no_amp:
  "CHR ''&'' \<notin> set k \<Longrightarrow> (\<And>v. CHR ''&'' \<notin> set (shw v)) \<Longrightarrow> p \<in> set (opt_pair k shw y) \<Longrightarrow> CHR ''&'' \<notin> set p"
  by (auto simp: opt_pair_def split: option.splits)

definition udpm_pairs :: "MulticastBus \<Rightarrow> string list" where
  "udpm_pairs u = opt_pair ''recv_buf_size'' show_nat (mb_recv_buf_size u)
     @ opt_pair ''interface'' show_ipv4 (mb_interface u) @ opt_pair ''short_max'' show_nat (mb_short_max u)"

lemma show_udpm_pairs:
  "show_url fl (BusUdpm u) = ''udpm://'' @ (show_ipv4 (mb_group u) @ CHR '':'' # show_nat (unat (mb_port u))) @ CHR ''?'' #
     (''ttl='' @ show_nat (unat (mb_ttl u))) @ join_pairs (udpm_pairs u)"
  using show_opt_pair [of "''recv_buf_size''" show_nat] show_opt_pair [of "''interface''" show_ipv4]
    show_opt_pair [of "''short_max''" show_nat]
  by (simp add: udpm_pairs_def join_pairs_append)

lemma udpm_pairs_split: "split_on CHR ''&'' ((''ttl='' @ show_nat (unat t)) @ join_pairs (udpm_pairs u))
    = (''ttl='' @ show_nat (unat t)) # udpm_pairs u"
  by (rule split_join) (auto simp: udpm_pairs_def dest!: opt_pair_no_amp [rotated 2])

lemma udpm_pairs_read:
  assumes "multicast_ok u" and "mb_recv_buf_size x = None" and "mb_interface x = None" and "mb_short_max x = None"
  shows "each_pair (udpm_pair url) (udpm_pairs u) x
    = Inr (x\<lparr>mb_recv_buf_size := mb_recv_buf_size u, mb_interface := mb_interface u, mb_short_max := mb_short_max u\<rparr>)"
proof -
  have max: "MAX_SHORT_MAX < 2 ^ 64" by (simp add: MAX_SHORT_MAX_def MAX_UDP_PAYLOAD_def)
  show ?thesis using assms max
    by (cases "mb_recv_buf_size u"; cases "mb_interface u"; cases "mb_short_max u")
       (simp_all add: udpm_pairs_def opt_pair_def udpm_pair_def param_def multicast_ok_def)
qed

lemma udpm_reads_back:
  assumes "multicast_ok u" shows "parse_udpm (drop 7 (show_url fl (BusUdpm u))) url = Inr u"
proof -
  have addr: "parse_address (show_ipv4 (mb_group u) @ CHR '':'' # show_nat (unat (mb_port u))) url
      = Inr (multicast_default\<lparr>mb_group := mb_group u, mb_port := mb_port u\<rparr>)"
    using assms by (simp add: parse_address_def param_def multicast_ok_def)
  have drop: "drop 7 (show_url fl (BusUdpm u)) = (show_ipv4 (mb_group u) @ CHR '':'' # show_nat (unat (mb_port u))) @ CHR ''?'' #
     (''ttl='' @ show_nat (unat (mb_ttl u))) @ join_pairs (udpm_pairs u)"
    by (simp only: show_udpm_pairs) simp
  have query: "split_query (drop 7 (show_url fl (BusUdpm u)))
      = (show_ipv4 (mb_group u) @ CHR '':'' # show_nat (unat (mb_port u)),
         Some ((''ttl='' @ show_nat (unat (mb_ttl u))) @ join_pairs (udpm_pairs u)))"
    unfolding drop by (rule split_query_append) simp
  have ttl: "each_pair (udpm_pair url) ((''ttl='' @ show_nat (unat (mb_ttl u))) # ps) x
      = each_pair (udpm_pair url) ps (x\<lparr>mb_ttl := mb_ttl u\<rparr>)" for ps x
    by (simp add: udpm_pair_def param_def)
  have "each_pair (udpm_pair url) ((''ttl='' @ show_nat (unat (mb_ttl u))) # udpm_pairs u)
      (multicast_default\<lparr>mb_group := mb_group u, mb_port := mb_port u\<rparr>) = Inr u"
    unfolding ttl by (simp add: udpm_pairs_read [OF assms] multicast_default_def)
  then show ?thesis by (simp only: parse_udpm_def query query_pairs_def option.case udpm_pairs_split addr Let_def prod.case and_then_simps)
qed

definition file_pairs :: "'f Float \<Rightarrow> 'f LogFile \<Rightarrow> string list" where
  "file_pairs fl f = (''speed='' @ show_speed fl (lf_speed f)) # opt_pair ''start_timestamp'' show_i64 (lf_start f)"

lemma show_file_pairs:
  "show_url fl (BusFile f) = ''file://'' @ lf_path f @ CHR ''?'' # (''mode='' @ show_mode (lf_mode f)) @ join_pairs (file_pairs fl f)"
  using show_opt_pair [of "''start_timestamp''" show_i64] by (simp add: file_pairs_def)

lemma show_mode_no_amp [simp]: "CHR ''&'' \<notin> set (show_mode m)"
  by (cases m) simp_all

lemma show_speed_no_amp: "float_laws fl \<Longrightarrow> speed_ok fl s \<Longrightarrow> CHR ''&'' \<notin> set (show_speed fl s)"
  by (cases s) (simp_all add: float_laws_def)

lemma file_pairs_read:
  assumes "float_laws fl" and "logfile_ok fl f"
  shows "each_pair (file_pair fl url) ((''mode='' @ show_mode (lf_mode f)) # file_pairs fl f)
      \<lparr>lf_path = lf_path f, lf_mode = Read, lf_speed = Rate (fl_one fl), lf_start = None\<rparr> = Inr f"
proof -
  have m: "file_pair fl url ''mode'' (show_mode (lf_mode f)) x = Inr (x\<lparr>lf_mode := lf_mode f\<rparr>)" for x
    by (cases "lf_mode f") (simp_all add: file_pair_def)
  have s: "file_pair fl url ''speed'' (show_speed fl (lf_speed f)) x = Inr (x\<lparr>lf_speed := lf_speed f\<rparr>)" for x
    using assms by (cases "lf_speed f") (auto simp: file_pair_def param_def float_laws_def logfile_ok_def rate_ok_def)
  have t: "file_pair fl url ''start_timestamp'' (show_i64 w) x = Inr (x\<lparr>lf_start := Some w\<rparr>)" for w x
    by (simp add: file_pair_def param_def)
  show ?thesis by (cases "lf_start f") (simp_all add: file_pairs_def opt_pair_def m s t)
qed

lemma file_reads_back:
  assumes "float_laws fl" and "logfile_ok fl f"
  shows "parse_file fl (drop 7 (show_url fl (BusFile f))) url = Inr f"
proof -
  have drop: "drop 7 (show_url fl (BusFile f))
      = lf_path f @ CHR ''?'' # (''mode='' @ show_mode (lf_mode f)) @ join_pairs (file_pairs fl f)"
    by (simp only: show_file_pairs) simp
  have query: "split_query (drop 7 (show_url fl (BusFile f)))
      = (lf_path f, Some ((''mode='' @ show_mode (lf_mode f)) @ join_pairs (file_pairs fl f)))"
    unfolding drop using assms by (intro split_query_append) (simp add: logfile_ok_def)
  have split: "split_on CHR ''&'' ((''mode='' @ show_mode (lf_mode f)) @ join_pairs (file_pairs fl f))
      = (''mode='' @ show_mode (lf_mode f)) # file_pairs fl f"
    using assms show_speed_no_amp [of fl "lf_speed f"]
    by (intro split_join) (auto simp: file_pairs_def logfile_ok_def dest!: opt_pair_no_amp [rotated 2])
  have "lf_path f \<noteq> []" using assms by (simp add: logfile_ok_def)
  then show ?thesis
    by (simp only: parse_file_def query query_pairs_def option.case split Let_def prod.case if_False file_pairs_read [OF assms])
qed

lemma url_reads_back:
  assumes "float_laws fl" and "bus_ok fl u" shows "parse_url fl (show_url fl u) = Inr u"
proof (cases u)
  case (BusTcpq r)
  then show ?thesis using assms by (simp add: parse_url_def relay_reads_back)
next
  case (BusUdpm x)
  have "show_url fl u = ''udpm://'' @ drop 7 (show_url fl u)" using BusUdpm by simp
  moreover have "parse_url fl (''udpm://'' @ s) = and_then (parse_udpm s (''udpm://'' @ s)) (\<lambda>u. Inr (BusUdpm u))" for s
    by (simp add: parse_url_def)
  ultimately show ?thesis using udpm_reads_back [of x fl] assms BusUdpm by (metis and_then_simps(2) bus_ok.simps(2))
next
  case (BusFile x)
  have "show_url fl u = ''file://'' @ drop 7 (show_url fl u)" using BusFile by simp
  moreover have "parse_url fl (''file://'' @ s) = and_then (parse_file fl s (''file://'' @ s)) (\<lambda>f. Inr (BusFile f))" for s
    by (simp add: parse_url_def)
  ultimately show ?thesis using file_reads_back [of fl x] assms BusFile by (metis and_then_simps(2) bus_ok.simps(3))
qed

end
