(* ===== verification/Served.thy ===== *)
theory Served
  imports ClientReaders Outbox Subs Url
begin

text \<open>
  The relay as the side that listens. A peer is shared by the list of peers, its reader and its writer, so
  the peers are values in a store, by their id, and the list holds ids. What other threads do with an outbox
  while a publisher waits for room in it is an argument: for each time the wait is woken before the deadline,
  how the queue has changed. The user's handler is the list of the deliveries it was called with.
\<close>

section \<open>Peers\<close>

definition FRAME_MAX :: nat where "FRAME_MAX = 4 + 4 + CHANNEL_READ_MAX + 4 + MAX_MESSAGE_LEN"

lemma frame_max [simp]: "FRAME_MAX = TCPQ_FRAME_MAX"
  by (simp add: FRAME_MAX_def TCPQ_FRAME_MAX_def)

record 're Peer =
  pe_subscriptions :: "'re Subscriptions"
  pe_outbox :: Queue
  pe_stream_open :: bool

record ('re, 'k) Served =
  sv_store :: "nat \<Rightarrow> 're Peer option"
  sv_peers :: "nat list"
  sv_threads :: "nat list"
  sv_next_id :: nat
  sv_running :: bool
  sv_local :: "'re Subscriptions option"
  sv_seen :: "'k reader"
  sv_accepted :: nat
  sv_refused :: nat

definition peer_new :: "'re Peer" where
  "peer_new = \<lparr>pe_subscriptions = subscriptions_new, pe_outbox = outbox_new, pe_stream_open = True\<rparr>"

definition change_peer :: "nat \<Rightarrow> ('re Peer \<Rightarrow> 're Peer) \<Rightarrow> ('re, 'k) Served \<Rightarrow> ('re, 'k) Served" where
  "change_peer i f s = s\<lparr>sv_store := (sv_store s)(i := map_option f (sv_store s i))\<rparr>"

section \<open>Putting a frame into an outbox\<close>

text \<open>\<open>Outbox::put_message\<close> to its end: once the deadline is over, a turn always answers.\<close>

fun put_wait :: "(Queue \<Rightarrow> Queue) list \<Rightarrow> Queue \<Rightarrow> nat \<Rightarrow> bytes \<Rightarrow> Queue \<times> (Refused + unit)" where
  "put_wait [] q ticket frame =
     (case put_turn q ticket frame True of (q', Some r) \<Rightarrow> (q', r) | (q', None) \<Rightarrow> (q', Inl TooSlow))"
| "put_wait (meanwhile # rst) q ticket frame =
     (case put_turn q ticket frame False of
        (q', Some r) \<Rightarrow> (q', r)
      | (q', None) \<Rightarrow> put_wait rst (meanwhile q') ticket frame)"

definition put_message :: "(Queue \<Rightarrow> Queue) list \<Rightarrow> Queue \<Rightarrow> bytes \<Rightarrow> Queue \<times> (Refused + unit)" where
  "put_message woken q frame = (let (ticket, q) = put_enter q in put_wait woken q ticket frame)"

section \<open>The fan-out\<close>

definition dispatch_peer ::
    "('re \<Rightarrow> string \<Rightarrow> bool option) \<Rightarrow> (nat \<Rightarrow> (Queue \<Rightarrow> Queue) list) \<Rightarrow> string \<Rightarrow> bytes \<Rightarrow> 're Peer \<Rightarrow> nat \<Rightarrow> 're Peer" where
  "dispatch_peer is_match woken ch encoded p i =
     (let (found, subs) = matches is_match (pe_subscriptions p) ch; p = p\<lparr>pe_subscriptions := subs\<rparr> in
      if \<not> found then p else p\<lparr>pe_outbox := fst (put_message (woken i) (pe_outbox p) encoded)\<rparr>)"

text \<open>The participant that serves the relay.\<close>

definition dispatch_local ::
    "('re \<Rightarrow> string \<Rightarrow> bool option) \<Rightarrow> i64 \<Rightarrow> FrameRef \<Rightarrow> ('re, 'k) Served \<Rightarrow> ('re, 'k) Served" where
  "dispatch_local is_match at frame s =
     (case sv_local s of
        None \<Rightarrow> s
      | Some subs \<Rightarrow>
          (let (c, out) = sv_seen s; c = received c; (found, subs) = matches is_match subs (channel frame);
               s = s\<lparr>sv_local := Some subs\<rparr> in
           if \<not> found then s\<lparr>sv_seen := (discarded c, out)\<rparr>
           else s\<lparr>sv_seen := (delivered c,
             out @ [\<lparr>de_frame = to_frame frame, de_timestamp = at, de_origin = ORelay\<rparr>])\<rparr>))"

definition dispatch ::
    "('re \<Rightarrow> string \<Rightarrow> bool option) \<Rightarrow> (nat \<Rightarrow> (Queue \<Rightarrow> Queue) list) \<Rightarrow> i64 \<Rightarrow> FrameRef \<Rightarrow> bytes \<Rightarrow>
     ('re, 'k) Served \<Rightarrow> ('re, 'k) Served" where
  "dispatch is_match woken at frame encoded s =
     dispatch_local is_match at frame
       (foldl (\<lambda>s i. change_peer i (\<lambda>p. dispatch_peer is_match woken (channel frame) encoded p i) s) s (sv_peers s))"

definition publish_from_local ::
    "('re \<Rightarrow> string \<Rightarrow> bool option) \<Rightarrow> (nat \<Rightarrow> (Queue \<Rightarrow> Queue) list) \<Rightarrow> i64 \<Rightarrow> FrameRef \<Rightarrow>
     ('re, 'k) Served \<Rightarrow> WireError + ('re, 'k) Served" where
  "publish_from_local is_match woken at frame s =
     and_then (publish frame) (\<lambda>encoded. Inr (dispatch is_match woken at frame encoded s))"

section \<open>The list of peers\<close>

definition cut :: "'re Peer \<Rightarrow> 're Peer" where
  "cut p = p\<lparr>pe_outbox := outbox_shut (pe_outbox p), pe_stream_open := False\<rparr>"

definition drop_peer :: "nat \<Rightarrow> ('re, 'k) Served \<Rightarrow> ('re, 'k) Served" where
  "drop_peer i s =
     (if i \<in> set (sv_peers s) then change_peer i cut (s\<lparr>sv_peers := remove1 i (sv_peers s)\<rparr>) else s)"

definition peers :: "('re, 'k) Served \<Rightarrow> nat" where
  "peers s = length (sv_peers s)"

definition peer_patterns :: "('re, 'k) Served \<Rightarrow> nat" where
  "peer_patterns s = (\<Sum>i\<leftarrow>sv_peers s.
     case sv_store s i of None \<Rightarrow> 0 | Some p \<Rightarrow> length (for_a_relay (pe_subscriptions p)))"

text \<open>\<open>shut\<close>, without the wait for the threads, whose handles it takes.\<close>

definition shut_peers :: "('re, 'k) Served \<Rightarrow> ('re, 'k) Served" where
  "shut_peers s =
     foldl (\<lambda>s i. change_peer i cut s)
       (s\<lparr>sv_running := False, sv_peers := [], sv_threads := []\<rparr>) (sv_peers s)"

section \<open>The reader of one peer\<close>

definition peer_item ::
    "(string \<Rightarrow> string + 're) \<Rightarrow> ('re \<Rightarrow> string \<Rightarrow> bool option) \<Rightarrow> (nat \<Rightarrow> nat \<Rightarrow> (Queue \<Rightarrow> Queue) list) \<Rightarrow>
     (nat \<Rightarrow> i64) \<Rightarrow> nat \<Rightarrow> nat \<Rightarrow> Request \<Rightarrow> ('re, 'k) Served \<Rightarrow> ('re, 'k) Served" where
  "peer_item compile is_match woken now i n asked s =
     (case asked of
        Subscribe pattern \<Rightarrow>
          change_peer i (\<lambda>p. case add_pattern compile (pe_subscriptions p) pattern of
              Inl _ \<Rightarrow> p | Inr subs \<Rightarrow> p\<lparr>pe_subscriptions := subs\<rparr>) s
      | Unsubscribe pattern \<Rightarrow>
          change_peer i (\<lambda>p. p\<lparr>pe_subscriptions := snd (remove_rule (pe_subscriptions p) pattern)\<rparr>) s
      | Publish frame \<Rightarrow>
          (case publish frame of
             Inl _ \<Rightarrow> s
           | Inr encoded \<Rightarrow> dispatch is_match (woken n) (now n) frame encoded s))"

definition peer_reader ::
    "(string \<Rightarrow> string + 're) \<Rightarrow> ('re \<Rightarrow> string \<Rightarrow> bool option) \<Rightarrow> (nat \<Rightarrow> nat \<Rightarrow> (Queue \<Rightarrow> Queue) list) \<Rightarrow>
     (nat \<Rightarrow> i64) \<Rightarrow> nat \<Rightarrow> nat \<Rightarrow> script \<Rightarrow> ('re, 'k) Served \<Rightarrow> Stop option \<times> ('re, 'k) Served" where
  "peer_reader compile is_match woken now i n script s =
     fill_loop decode_request None (peer_item compile is_match woken now i) (\<lambda>s. s) n script
       (with_limits (16 * 1024) FRAME_MAX) s"

section \<open>The greeting, and the address to bind\<close>

text \<open>The part of \<open>start_peer\<close> up to the greeting: what is written, and what eight bytes are read or the
  error of the read.\<close>

definition greet_peer :: "IoError option \<Rightarrow> IoError + bytes \<Rightarrow> IoError + bytes" where
  "greet_peer wrote greeting =
     (case wrote of
        Some e \<Rightarrow> Inl e
      | None \<Rightarrow> and_then greeting (\<lambda>bs.
          case check_client_handshake bs of Inl _ \<Rightarrow> Inl InvalidData | Inr _ \<Rightarrow> Inr server_handshake))"

definition bind_address :: "string \<Rightarrow> Relay \<Rightarrow> string" where
  "bind_address url r =
     (let stated = (case strip_prefix ''tcpq://'' url of Some s \<Rightarrow> s | None \<Rightarrow> url) in
      if stated = [] \<or> hd stated = CHR '':'' then ''0.0.0.0:'' @ show_nat (unat (re_port r))
      else re_host r @ '':'' @ show_nat (unat (re_port r)))"

section \<open>What each operation does to the store\<close>

lemma change_peer_simps [simp]:
  "sv_peers (change_peer i f s) = sv_peers s" "sv_local (change_peer i f s) = sv_local s"
  "sv_seen (change_peer i f s) = sv_seen s" "sv_threads (change_peer i f s) = sv_threads s"
  "sv_next_id (change_peer i f s) = sv_next_id s" "sv_running (change_peer i f s) = sv_running s"
  "sv_accepted (change_peer i f s) = sv_accepted s" "sv_refused (change_peer i f s) = sv_refused s"
  "sv_store (change_peer i f s) j = (if j = i then map_option f (sv_store s j) else sv_store s j)"
  by (simp_all add: change_peer_def)

lemma foldl_change_store:
  "distinct is \<Longrightarrow> sv_store (foldl (\<lambda>s i. change_peer i (f i) s) s is) j
    = (if j \<in> set is then map_option (f j) (sv_store s j) else sv_store s j)"
  by (induction "is" arbitrary: s) auto

lemma foldl_change_simps [simp]:
  "sv_peers (foldl (\<lambda>s i. change_peer i (f i) s) s is) = sv_peers s"
  "sv_local (foldl (\<lambda>s i. change_peer i (f i) s) s is) = sv_local s"
  "sv_seen (foldl (\<lambda>s i. change_peer i (f i) s) s is) = sv_seen s"
  "sv_accepted (foldl (\<lambda>s i. change_peer i (f i) s) s is) = sv_accepted s"
  "sv_next_id (foldl (\<lambda>s i. change_peer i (f i) s) s is) = sv_next_id s"
  "sv_refused (foldl (\<lambda>s i. change_peer i (f i) s) s is) = sv_refused s"
  by (induction "is" arbitrary: s) simp_all

lemma dispatch_local_simps [simp]:
  "sv_peers (dispatch_local is_match at frame s) = sv_peers s"
  "sv_store (dispatch_local is_match at frame s) = sv_store s"
  by (simp_all add: dispatch_local_def Let_def split: option.splits prod.splits)

lemma dispatch_simps [simp]:
  "sv_peers (dispatch is_match woken at frame encoded s) = sv_peers s"
  "distinct (sv_peers s) \<Longrightarrow> sv_store (dispatch is_match woken at frame encoded s) i =
    (if i \<in> set (sv_peers s) then map_option (\<lambda>p. dispatch_peer is_match woken (channel frame) encoded p i) (sv_store s i)
     else sv_store s i)"
  by (simp_all add: dispatch_def foldl_change_store)

lemma peer_item_peers [simp]: "sv_peers (peer_item compile is_match woken now i n asked s) = sv_peers s"
  by (simp add: peer_item_def split: Request.splits sum.splits)

section \<open>An outbox with room\<close>

text \<open>A put into an outbox that is open, with no other in line and room left, waits for nothing.\<close>

definition roomy :: "nat \<Rightarrow> Queue \<Rightarrow> bool" where
  "roomy cost q \<longleftrightarrow> qu_open q \<and> qu_line q = [] \<and> qu_waiting q + cost \<le> OUTBOX_BYTES"

lemma roomy_turn:
  assumes "roomy cost q"
  shows "put_turn (snd (put_enter q)) (fst (put_enter q)) frame expired =
    (q\<lparr>qu_next_ticket := qu_next_ticket q + 1, qu_waiting := qu_waiting q + (length frame + FRAME_COST),
       qu_messages := qu_messages q @ [frame], qu_sent := let_in (qu_sent q)\<rparr>, Some (Inr ()))"
  using assms by (simp add: roomy_def put_enter_def put_turn_def)

lemma put_message_roomy:
  assumes "roomy (length frame + FRAME_COST + cost) q"
  shows "\<exists>q'. put_message woken q frame = (q', Inr ()) \<and> qu_messages q' = qu_messages q @ [frame] \<and> roomy cost q'"
proof -
  have "roomy (length frame + FRAME_COST + cost) (q\<lparr>qu_next_ticket := 0\<rparr>)" using assms by (simp add: roomy_def)
  then show ?thesis using assms roomy_turn [OF assms, of frame]
    by (cases woken) (auto simp: put_message_def split_beta roomy_def)
qed

text \<open>
  A put into an outbox at its bound answers nothing before the deadline, so the thread that publishes waits
  for the whole of it; and then nothing is counted. The comments say that a client that stops its reads holds
  up its own connection and not the publisher, and that what a peer did not take is counted there.
\<close>

lemma stalled_peer_holds:
  assumes "qu_open q" and "OUTBOX_BYTES < qu_waiting q"
  shows "put_turn q ticket frame False = (q, None)"
    and "snd (put_message (replicate n id) q frame) = Inl TooSlow"
    and "qu_sent (fst (put_message (replicate n id) q frame)) = qu_sent q"
proof -
  have turn: "put_turn q' t frame False = (q', None)" "put_turn q' t frame True = (put_leave q' t, Some (Inl TooSlow))"
    if "qu_open q'" "OUTBOX_BYTES < qu_waiting q'" for q' t
    using that by (simp_all add: put_turn_def)
  have wait: "put_wait (replicate n id) q' t frame = (put_leave q' t, Inl TooSlow)"
    if "qu_open q'" "OUTBOX_BYTES < qu_waiting q'" for q' t
    using that by (induction n) (simp_all add: turn)
  show "put_turn q ticket frame False = (q, None)" using assms by (rule turn(1))
  show "snd (put_message (replicate n id) q frame) = Inl TooSlow"
    "qu_sent (fst (put_message (replicate n id) q frame)) = qu_sent q"
    using assms by (simp_all add: put_message_def put_enter_def wait put_leave_def)
qed

text \<open>
  \<open>bind_address\<close> takes a URL that begins with a colon for one without a host, so the relay of the host
  \<open>::1\<close>, which \<open>parse\<close> reads as such, listens on every address.
\<close>

lemma ipv6_host_binds_all:
  "parse_url fl ''tcpq://::1:7700'' = Inr (BusTcpq \<lparr>re_host = ''::1'', re_port = 7700\<rparr>)"
  "bind_address ''tcpq://::1:7700'' \<lparr>re_host = ''::1'', re_port = 7700\<rparr> = ''0.0.0.0:7700''"
proof -
  have "digit_char 7 = CHR ''7''" "digit_char 0 = CHR ''0''"
    by (rule digit_char_of, simp add: to_digit_def)+
  then have digits: "show_nat 7700 = ''7700''" by (simp add: show_nat.simps)
  show "parse_url fl ''tcpq://::1:7700'' = Inr (BusTcpq \<lparr>re_host = ''::1'', re_port = 7700\<rparr>)"
    by (simp add: parse_url_def parse_relay_def rsplit_once_def param_def parse_u16_def parse_unsigned_def to_digit_def)
  show "bind_address ''tcpq://::1:7700'' \<lparr>re_host = ''::1'', re_port = 7700\<rparr> = ''0.0.0.0:7700''"
    by (simp add: bind_address_def digits)
qed

section \<open>What a peer hears\<close>

text \<open>
  The messages a stream of requests brings to a peer with these subscriptions, and the subscriptions it
  leaves; \<open>own\<close> says that the stream is of the peer itself, so that it changes them as well.
\<close>

fun heard ::
    "(string \<Rightarrow> string + 're) \<Rightarrow> ('re \<Rightarrow> string \<Rightarrow> bool option) \<Rightarrow> bool \<Rightarrow> 're Subscriptions \<Rightarrow> Request list \<Rightarrow>
     FrameRef list" where
  "heard compile is_match own subs [] = []"
| "heard compile is_match own subs (Publish f # rst) =
     (if list_ex (selects is_match (channel f)) (su_rules subs) then [f] else []) @ heard compile is_match own subs rst"
| "heard compile is_match own subs (Subscribe pattern # rst) =
     heard compile is_match own
       (case (if own then add_pattern compile subs pattern else Inr subs) of Inl _ \<Rightarrow> subs | Inr subs' \<Rightarrow> subs') rst"
| "heard compile is_match own subs (Unsubscribe pattern # rst) =
     heard compile is_match own (if own then snd (remove_rule subs pattern) else subs) rst"

definition published :: "Request list \<Rightarrow> FrameRef list" where
  "published qs = concat (map (\<lambda>q. case q of Publish f \<Rightarrow> [f] | _ \<Rightarrow> []) qs)"

lemma published_simps [simp]:
  "published [] = []" "published (Publish f # qs) = f # published qs"
  "published (Subscribe t # qs) = published qs" "published (Unsubscribe t # qs) = published qs"
  by (simp_all add: published_def)

lemma heard_others:
  "heard compile is_match False subs qs = filter (\<lambda>f. list_ex (selects is_match (channel f)) (su_rules subs)) (published qs)"
proof (induction qs)
  case (Cons q qs) then show ?case by (cases q) simp_all
qed simp

lemma heard_rules:
  "su_rules subs = su_rules subs' \<Longrightarrow> heard compile is_match own subs qs = heard compile is_match own subs' qs"
proof (induction qs arbitrary: subs subs')
  case Nil then show ?case by simp
next
  case (Cons q qs)
  note IH = Cons.IH
  show ?case
  proof (cases q)
    case (Publish f) with Cons.prems IH [of subs subs'] show ?thesis by simp
  next
    case (Subscribe t)
    show ?thesis unfolding Subscribe heard.simps
      by (rule IH) (use Cons.prems in \<open>simp add: add_pattern_def push_def and_then_def split: sum.splits\<close>)
  next
    case (Unsubscribe t)
    show ?thesis unfolding Unsubscribe heard.simps
      by (rule IH) (use Cons.prems in \<open>simp add: remove_rule_def split: option.splits\<close>)
  qed
qed

definition frames_size :: "FrameRef list \<Rightarrow> nat" where
  "frames_size fs = (\<Sum>f\<leftarrow>fs. length (publish_bytes f) + FRAME_COST)"

lemma frames_size_simps [simp]:
  "frames_size [] = 0" "frames_size (f # fs) = length (publish_bytes f) + FRAME_COST + frames_size fs"
  by (simp_all add: frames_size_def)

lemma dispatch_peer_heard:
  assumes "roomy (length encoded + FRAME_COST + cost) (pe_outbox p)"
  shows "\<exists>p'. dispatch_peer is_match woken ch encoded p i = p' \<and> su_rules (pe_subscriptions p') = su_rules (pe_subscriptions p) \<and>
    roomy cost (pe_outbox p') \<and> qu_messages (pe_outbox p') = qu_messages (pe_outbox p) @
      (if list_ex (selects is_match ch) (su_rules (pe_subscriptions p)) then [encoded] else [])"
proof -
  have "roomy cost (pe_outbox p)" using assms by (simp add: roomy_def)
  moreover from put_message_roomy [OF assms, of "woken i"] obtain q' where
    "put_message (woken i) (pe_outbox p) encoded = (q', Inr ())" "roomy cost q'"
    "qu_messages q' = qu_messages (pe_outbox p) @ [encoded]" by blast
  ultimately show ?thesis by (simp add: dispatch_peer_def matches_eq)
qed

lemma peer_item_heard:
  assumes "distinct (sv_peers s)" and b: "b \<in> set (sv_peers s)" "sv_store s b = Some p"
    and room: "roomy (frames_size (published (q # qs))) (pe_outbox p)" and q: "request_frame q bs"
  shows "\<exists>p' fs. sv_store (peer_item compile is_match woken now i n q s) b = Some p' \<and>
    qu_messages (pe_outbox p') = qu_messages (pe_outbox p) @ map publish_bytes fs \<and>
    roomy (frames_size (published qs)) (pe_outbox p') \<and>
    heard compile is_match (b = i) (pe_subscriptions p) (q # qs) = fs @ heard compile is_match (b = i) (pe_subscriptions p') qs"
proof (cases q)
  case (Publish f)
  then have pub: "publish f = Inr (publish_bytes f)" using q by (auto simp: request_frame_def publish_Inr)
  from room Publish have "roomy (length (publish_bytes f) + FRAME_COST + frames_size (published qs)) (pe_outbox p)" by simp
  from dispatch_peer_heard [OF this, of is_match "woken n" "channel f" b] obtain p' where
    d: "dispatch_peer is_match (woken n) (channel f) (publish_bytes f) p b = p'"
    and rules: "su_rules (pe_subscriptions p') = su_rules (pe_subscriptions p)"
    and r: "roomy (frames_size (published qs)) (pe_outbox p')"
    and m: "qu_messages (pe_outbox p') = qu_messages (pe_outbox p) @
      (if list_ex (selects is_match (channel f)) (su_rules (pe_subscriptions p)) then [publish_bytes f] else [])" by blast
  have "sv_store (peer_item compile is_match woken now i n q s) b = Some p'"
    using assms(1) b d by (simp add: peer_item_def Publish pub)
  with r m heard_rules [OF rules, of compile is_match "b = i" qs] show ?thesis
    by (intro exI [of _ p'] exI [of _ "if list_ex (selects is_match (channel f)) (su_rules (pe_subscriptions p)) then [f] else []"])
       (simp add: Publish)
next
  case (Subscribe t)
  with b room show ?thesis
    by (cases "b = i"; cases "add_pattern compile (pe_subscriptions p) t") (simp_all add: peer_item_def)
next
  case (Unsubscribe t)
  with b room show ?thesis by (cases "b = i") (simp_all add: peer_item_def)
qed

lemma peer_items_heard:
  assumes "distinct (sv_peers s)" and "b \<in> set (sv_peers s)" and "sv_store s b = Some p"
    and "roomy (frames_size (published qs)) (pe_outbox p)" and "list_all2 request_frame qs bss" and "length ns = length qs"
  shows "\<exists>p'. sv_store (handle_all (peer_item compile is_match woken now i) skip ns (map Some qs) s) b = Some p' \<and>
    qu_messages (pe_outbox p') = qu_messages (pe_outbox p) @
      map publish_bytes (heard compile is_match (b = i) (pe_subscriptions p) qs)"
  using assms
proof (induction qs arbitrary: bss ns s p)
  case Nil then show ?case by simp
next
  case (Cons q qs)
  from Cons.prems(5) obtain bs bss' where bs: "request_frame q bs" "list_all2 request_frame qs bss'"
    by (auto simp: list_all2_Cons1)
  from Cons.prems(6) obtain n ns' where ns: "ns = n # ns'" "length ns' = length qs" by (cases ns) auto
  let ?s = "peer_item compile is_match woken now i n q s"
  from peer_item_heard [OF Cons.prems(1-4) bs(1), of compile is_match woken now i n] obtain p1 fs where
    p1: "sv_store ?s b = Some p1" "qu_messages (pe_outbox p1) = qu_messages (pe_outbox p) @ map publish_bytes fs"
    "roomy (frames_size (published qs)) (pe_outbox p1)"
    "heard compile is_match (b = i) (pe_subscriptions p) (q # qs) = fs @ heard compile is_match (b = i) (pe_subscriptions p1) qs"
    by blast
  have "distinct (sv_peers ?s)" "b \<in> set (sv_peers ?s)" using Cons.prems(1,2) by simp_all
  from Cons.IH [OF this p1(1,3) bs(2) ns(2)] p1 ns show ?case by auto
qed

text \<open>The participant that serves the relay.\<close>

lemma peer_item_local:
  assumes "sv_local s = Some subs" and "sv_seen s = (c, out)" and q: "request_frame q bs"
  shows "\<exists>subs' c' more'. sv_local (peer_item compile is_match woken now i n q s) = Some subs' \<and> su_rules subs' = su_rules subs \<and>
    sv_seen (peer_item compile is_match woken now i n q s) = (c', out @ more') \<and>
    map de_frame more' = filter (\<lambda>f. list_ex (selects is_match (channel f)) (su_rules subs)) (published [q]) \<and>
    ct_received c' = ct_received c + length (published [q]) \<and> ct_delivered c' = ct_delivered c + length more' \<and>
    ct_delivered c' + ct_discarded c' = ct_delivered c + ct_discarded c + length (published [q])"
proof (cases q)
  case (Publish f)
  then have pub: "publish f = Inr (publish_bytes f)" using q by (auto simp: request_frame_def publish_Inr)
  show ?thesis
    by (cases "list_ex (selects is_match (channel f)) (su_rules subs)")
       (use assms in \<open>simp_all add: Publish pub peer_item_def dispatch_def dispatch_local_def matches_eq counter_defs Let_def\<close>)
next
  case (Subscribe t) with assms show ?thesis by (simp add: peer_item_def)
next
  case (Unsubscribe t) with assms show ?thesis by (simp add: peer_item_def)
qed

lemma peer_items_local:
  assumes "sv_local s = Some subs" and "sv_seen s = (c, out)" and "list_all2 request_frame qs bss" and "length ns = length qs"
  shows "\<exists>c' more'. sv_seen (handle_all (peer_item compile is_match woken now i) skip ns (map Some qs) s) = (c', out @ more') \<and>
    map de_frame more' = filter (\<lambda>f. list_ex (selects is_match (channel f)) (su_rules subs)) (published qs) \<and>
    ct_received c' = ct_received c + length (published qs) \<and> ct_delivered c' = ct_delivered c + length more' \<and>
    ct_delivered c' + ct_discarded c' = ct_delivered c + ct_discarded c + length (published qs)"
  using assms
proof (induction qs arbitrary: bss ns s subs c out)
  case Nil then show ?case by simp
next
  case (Cons q qs)
  from Cons.prems(3) obtain bs bss' where bs: "request_frame q bs" "list_all2 request_frame qs bss'"
    by (auto simp: list_all2_Cons1)
  from Cons.prems(4) obtain n ns' where ns: "ns = n # ns'" "length ns' = length qs" by (cases ns) auto
  let ?s = "peer_item compile is_match woken now i n q s"
  from peer_item_local [OF Cons.prems(1,2) bs(1), where is_match = is_match and compile = compile and woken = woken and now = now and i = i and n = n] obtain subs1 c1 m1 where
    1: "sv_local ?s = Some subs1" "su_rules subs1 = su_rules subs" "sv_seen ?s = (c1, out @ m1)"
    "map de_frame m1 = filter (\<lambda>f. list_ex (selects is_match (channel f)) (su_rules subs)) (published [q])"
    "ct_received c1 = ct_received c + length (published [q])" "ct_delivered c1 = ct_delivered c + length m1"
    "ct_delivered c1 + ct_discarded c1 = ct_delivered c + ct_discarded c + length (published [q])" by blast
  from Cons.IH [OF 1(1,3) bs(2) ns(2)] obtain c2 m2 where
    2: "sv_seen (handle_all (peer_item compile is_match woken now i) skip ns' (map Some qs) ?s) = (c2, (out @ m1) @ m2)"
    "map de_frame m2 = filter (\<lambda>f. list_ex (selects is_match (channel f)) (su_rules subs1)) (published qs)"
    "ct_received c2 = ct_received c1 + length (published qs)" "ct_delivered c2 = ct_delivered c1 + length m2"
    "ct_delivered c2 + ct_discarded c2 = ct_delivered c1 + ct_discarded c1 + length (published qs)" by blast
  have "published (q # qs) = published [q] @ published qs" by (simp add: published_def)
  with 1 2 ns show ?case by (intro exI [of _ c2] exI [of _ "m1 @ m2"]) simp
qed

section \<open>The reader of a peer, over a whole stream\<close>

lemma peer_reader_run:
  assumes frames: "list_all2 request_frame qs bss" and script: "script_ok script" "script_bytes script = concat bss"
    and errs: "\<forall>e. SError e \<in> set script \<longrightarrow> is_timeout e" and n: "3 * script_size script < n"
  shows "\<exists>ns. length ns = length qs \<and> peer_reader compile is_match woken now i n script s
    = (Some Closed, handle_all (peer_item compile is_match woken now i) (\<lambda>s. s) ns (map Some qs) s)"
proof -
  let ?out = "peer_reader compile is_match woken now i n script s"
  have need: "decode_request [] = Inr (Need 8)" by (simp add: decode_request_eq)
  have "loop_outcome decode_request None (peer_item compile is_match woken now i) (\<lambda>s. s) script (script_bytes script) s ?out"
    using requests.loops_outcome(1) [OF frame_buffer(1,2) script(1)] need by (simp add: peer_reader_def frame_buffer(3))
  moreover have "fst ?out \<noteq> None"
    using requests.loops_end(1) [OF frame_buffer(1,2) script(1)] need n
    by (simp add: peer_reader_def frame_buffer(3) requests.loop_size_def)
  ultimately obtain ns where "length ns \<le> length qs" "fst ?out \<noteq> None"
    "snd ?out = handle_all (peer_item compile is_match woken now i) (\<lambda>s. s) ns (map Some qs) s"
    "stop_ok None script (length ns = length qs) None (fst ?out)"
    using drain_requests [OF frames] script(2) by (auto simp: loop_outcome_def)
  then show ?thesis using errs by (intro exI [of _ ns]) (cases ?out; auto simp: stop_ok_def split: option.splits Stop.splits)
qed

text \<open>What was published is a frame that \<open>publish\<close> writes.\<close>

lemma published_frames:
  "list_all2 request_frame qs bss \<Longrightarrow> \<forall>f \<in> set (published qs). publish f = Inr (publish_bytes f) \<and> is_str (channel f)"
proof (induction rule: list_all2_induct)
  case (Cons q qs bs bss) then show ?case by (cases q) (auto simp: request_frame_def publish_Inr)
qed simp

end
