(* ===== verification/ServedRun.thy ===== *)
theory ServedRun
  imports Served
begin

text \<open>
  The life of the connections of a relay: the thread that accepts, the reader of each peer, the writers, the
  participant that serves, and \<open>close\<close>. Each step is what one thread does while it holds a lock, or between
  two that it takes. A publisher that began its fan-out with an older list is the step \<open>late\<close>; a handler that
  panics on the thread of a peer, \<open>panics\<close>.
\<close>

section \<open>The steps\<close>

text \<open>Where the accept thread is: before \<open>accept\<close>, in \<open>start_peer\<close> up to the greeting, there with the
  threads of a peer running that is not yet in the list, or ended. And where \<open>close\<close> is. \<open>rw_halves\<close> are the
  peers whose writer runs and whose reader could not be started.\<close>

datatype Accepting = AWaits | AGreets | AStarted nat | AEnded
datatype Closing = NotClosed | Joining "nat list" | CloseDone

record ('re, 'k) RelayWorld =
  rw_served :: "('re, 'k) Served"
  rw_accept :: Accepting
  rw_reading :: "nat set"
  rw_halves :: "nat set"
  rw_closing :: Closing

definition served_new :: "'re Subscriptions option \<Rightarrow> ('re, 'k) Served" where
  "served_new participant = \<lparr>sv_store = (\<lambda>_. None), sv_peers = [], sv_threads = [], sv_next_id = 0, sv_running = True,
     sv_local = participant, sv_seen = (counters_new, []), sv_accepted = 0, sv_refused = 0\<rparr>"

definition relay_new :: "'re Subscriptions option \<Rightarrow> ('re, 'k) RelayWorld" where
  "relay_new participant = \<lparr>rw_served = served_new participant, rw_accept = AWaits, rw_reading = {}, rw_halves = {}, rw_closing = NotClosed\<rparr>"

definition start_threads :: "('re, 'k) Served \<Rightarrow> ('re, 'k) Served" where
  "start_threads s = s\<lparr>sv_store := (sv_store s)(sv_next_id s \<mapsto> peer_new), sv_next_id := sv_next_id s + 1\<rparr>"

text \<open>
  How \<open>start_peer\<close> ends, given what each of its calls answers: the four options of the socket, the greeting, one
  more option, then two clones of the stream and the start of the writer, then the start of the reader.
\<close>

datatype Startup = Unfit IoError | NoPeer IoError | NoReader IoError | Started

fun first_failure :: "(nat \<Rightarrow> IoError option) \<Rightarrow> nat list \<Rightarrow> IoError option" where
  "first_failure answers [] = None"
| "first_failure answers (n # ns) = (case answers n of Some e \<Rightarrow> Some e | None \<Rightarrow> first_failure answers ns)"

definition start_peer :: "(nat \<Rightarrow> IoError option) \<Rightarrow> IoError option \<Rightarrow> IoError + bytes \<Rightarrow> Startup" where
  "start_peer answers wrote greeting =
     (case first_failure answers [0, 1, 2, 3] of
        Some e \<Rightarrow> Unfit e
      | None \<Rightarrow>
          (case greet_peer wrote greeting of
             Inl e \<Rightarrow> Unfit e
           | Inr hello \<Rightarrow>
               (case answers 4 of
                  Some e \<Rightarrow> Unfit e
                | None \<Rightarrow>
                    (case first_failure answers [5, 6, 7] of
                       Some e \<Rightarrow> NoPeer e
                     | None \<Rightarrow> (case answers 8 of Some e \<Rightarrow> NoReader e | None \<Rightarrow> Started)))))"

text \<open>The relay behind \<open>start_peer\<close>: a number is taken before the first clone, and each failure is counted as
  refused.\<close>

fun after_start :: "Startup \<Rightarrow> ('re, 'k) Served \<Rightarrow> ('re, 'k) Served" where
  "after_start (Unfit e) s = s\<lparr>sv_refused := sv_refused s + 1\<rparr>"
| "after_start (NoPeer e) s = s\<lparr>sv_next_id := sv_next_id s + 1, sv_refused := sv_refused s + 1\<rparr>"
| "after_start (NoReader e) s = (start_threads s)\<lparr>sv_refused := sv_refused s + 1\<rparr>"
| "after_start Started s = start_threads s"

definition list_peer :: "nat \<Rightarrow> ('re, 'k) Served \<Rightarrow> ('re, 'k) Served" where
  "list_peer i s = s\<lparr>sv_peers := sv_peers s @ [i], sv_threads := sv_threads s @ [i], sv_accepted := sv_accepted s + 1\<rparr>"

text \<open>What a writer does to the outbox of its peer.\<close>

inductive writer_move :: "Queue \<Rightarrow> Queue \<Rightarrow> bool" where
  takes: "writer_move q (snd (take_turn q))"
| did: "writer_move q (outbox_done q went)"
| shuts: "writer_move q (outbox_shut q)"
| abandons: "writer_move q (outbox_abandon q)"

inductive relay_step ::
    "(string \<Rightarrow> string + 're) \<Rightarrow> ('re \<Rightarrow> string \<Rightarrow> bool option) \<Rightarrow> ('re, 'k) RelayWorld \<Rightarrow> ('re, 'k) RelayWorld \<Rightarrow> bool"
  for compile and is_match where
  accepts: "rw_accept w = AWaits \<Longrightarrow> sv_running (rw_served w) \<Longrightarrow> relay_step compile is_match w (w\<lparr>rw_accept := AGreets\<rparr>)"
| stops: "rw_accept w = AWaits \<Longrightarrow> relay_step compile is_match w (w\<lparr>rw_accept := AEnded\<rparr>)"
| refuses: "rw_accept w = AGreets \<Longrightarrow> start_peer answers wrote greeting = st \<Longrightarrow> st = Unfit e \<or> st = NoPeer e \<Longrightarrow>
    relay_step compile is_match w (w\<lparr>rw_accept := AWaits, rw_served := after_start st (rw_served w)\<rparr>)"
| halves: "rw_accept w = AGreets \<Longrightarrow> s = rw_served w \<Longrightarrow> start_peer answers wrote greeting = NoReader e \<Longrightarrow>
    relay_step compile is_match w (w\<lparr>rw_accept := AWaits, rw_served := after_start (NoReader e) s,
      rw_halves := insert (sv_next_id s) (rw_halves w)\<rparr>)"
| half_ends: "i \<in> rw_halves w \<Longrightarrow> s = rw_served w \<Longrightarrow> \<not> sv_running s \<Longrightarrow>
    relay_step compile is_match w (w\<lparr>rw_halves := rw_halves w - {i}, rw_served := s\<lparr>sv_store := (sv_store s)(i := None)\<rparr>\<rparr>)"
| starts: "rw_accept w = AGreets \<Longrightarrow> s = rw_served w \<Longrightarrow> start_peer answers wrote greeting = Started \<Longrightarrow>
    relay_step compile is_match w (w\<lparr>rw_accept := AStarted (sv_next_id s), rw_served := after_start Started s,
      rw_reading := insert (sv_next_id s) (rw_reading w)\<rparr>)"
| lists: "rw_accept w = AStarted i \<Longrightarrow>
    relay_step compile is_match w (w\<lparr>rw_accept := AWaits, rw_served := list_peer i (rw_served w)\<rparr>)"
| asks: "i \<in> rw_reading w \<Longrightarrow>
    relay_step compile is_match w (w\<lparr>rw_served := peer_item compile is_match woken now i n asked (rw_served w)\<rparr>)"
| panics: "i \<in> rw_reading w \<Longrightarrow> sv_local (rw_served w) = Some subs \<Longrightarrow>
    relay_step compile is_match w (w\<lparr>rw_reading := rw_reading w - {i},
      rw_served := peer_item compile is_match woken now i n (Publish frame) (rw_served w)\<rparr>)"
| leaves: "i \<in> rw_reading w \<Longrightarrow>
    relay_step compile is_match w (w\<lparr>rw_served := drop_peer i (rw_served w), rw_reading := rw_reading w - {i}\<rparr>)"
| speaks: "publish_from_local is_match woken at frame (rw_served w) = Inr s \<Longrightarrow>
    relay_step compile is_match w (w\<lparr>rw_served := s\<rparr>)"
| writes: "sv_store (rw_served w) i = Some p \<Longrightarrow> writer_move (pe_outbox p) q \<Longrightarrow>
    relay_step compile is_match w (w\<lparr>rw_served := change_peer i (\<lambda>p. p\<lparr>pe_outbox := q\<rparr>) (rw_served w)\<rparr>)"
| tears: "relay_step compile is_match w (w\<lparr>rw_served := change_peer i (\<lambda>p. p\<lparr>pe_stream_open := False\<rparr>) (rw_served w)\<rparr>)"
| late: "relay_step compile is_match w
    (w\<lparr>rw_served := change_peer i (\<lambda>p. dispatch_peer is_match woken ch encoded p i) (rw_served w)\<rparr>)"
| closes: "rw_closing w = NotClosed \<Longrightarrow>
    relay_step compile is_match w (w\<lparr>rw_served := shut_peers (rw_served w), rw_closing := Joining (sv_threads (rw_served w))\<rparr>)"
| joined: "rw_closing w = Joining ts \<Longrightarrow> set ts \<inter> rw_reading w = {} \<Longrightarrow> rw_accept w = AEnded \<Longrightarrow>
    relay_step compile is_match w (w\<lparr>rw_closing := CloseDone\<rparr>)"

abbreviation relay_run where
  "relay_run compile is_match \<equiv> rtranclp (relay_step compile is_match)"

section \<open>The invariant\<close>

text \<open>A peer that is not in the list, and will not be, has its outbox shut and its stream closed.\<close>

definition is_cut :: "'re Peer \<Rightarrow> bool" where
  "is_cut p \<longleftrightarrow> \<not> qu_open (pe_outbox p) \<and> \<not> pe_stream_open p"

definition starting :: "('re, 'k) RelayWorld \<Rightarrow> nat set" where
  "starting w = (case rw_accept w of AStarted i \<Rightarrow> {i} | _ \<Rightarrow> {})"

definition relay_ok :: "('re, 'k) RelayWorld \<Rightarrow> bool" where
  "relay_ok w \<longleftrightarrow> (let s = rw_served w in
     distinct (sv_peers s) \<and> set (sv_peers s) \<subseteq> {..<sv_next_id s} \<and> set (sv_peers s) \<inter> starting w = {} \<and>
     dom (sv_store s) \<subseteq> {..<sv_next_id s} \<and> rw_reading w \<subseteq> {..<sv_next_id s} \<and> starting w \<subseteq> {..<sv_next_id s} \<and>
     set (sv_peers s) \<union> starting w \<union> rw_halves w \<subseteq> dom (sv_store s) \<and>
     rw_halves w \<inter> (set (sv_peers s) \<union> starting w \<union> rw_reading w) = {} \<and>
     sv_accepted s + card (starting w) \<le> sv_next_id s \<and> sv_next_id s \<le> sv_accepted s + card (starting w) + sv_refused s \<and>
     (\<forall>i p. sv_store s i = Some p \<longrightarrow> i \<notin> set (sv_peers s) \<longrightarrow> i \<notin> starting w \<longrightarrow> i \<notin> rw_halves w \<longrightarrow> is_cut p))"

section \<open>Each step keeps it\<close>

lemma relay_okD:
  assumes "relay_ok w"
  shows "distinct (sv_peers (rw_served w))" "set (sv_peers (rw_served w)) \<subseteq> {..<sv_next_id (rw_served w)}"
    "set (sv_peers (rw_served w)) \<inter> starting w = {}" "dom (sv_store (rw_served w)) \<subseteq> {..<sv_next_id (rw_served w)}"
    "rw_reading w \<subseteq> {..<sv_next_id (rw_served w)}" "starting w \<subseteq> {..<sv_next_id (rw_served w)}"
    "sv_accepted (rw_served w) + card (starting w) \<le> sv_next_id (rw_served w) \<and>
      sv_next_id (rw_served w) \<le> sv_accepted (rw_served w) + card (starting w) + sv_refused (rw_served w)"
    "sv_store (rw_served w) i = Some p \<Longrightarrow> i \<notin> set (sv_peers (rw_served w)) \<Longrightarrow> i \<notin> starting w \<Longrightarrow> i \<notin> rw_halves w \<Longrightarrow> is_cut p"
    "set (sv_peers (rw_served w)) \<union> starting w \<union> rw_halves w \<subseteq> dom (sv_store (rw_served w))"
    "rw_halves w \<inter> (set (sv_peers (rw_served w)) \<union> starting w \<union> rw_reading w) = {}"
  using assms by (simp_all add: relay_ok_def Let_def)

lemma relay_fresh:
  assumes "relay_ok w"
  shows "\<And>i p. sv_store (rw_served w) i = Some p \<Longrightarrow> i < sv_next_id (rw_served w)"
    "sv_next_id (rw_served w) \<notin> rw_halves w" "sv_next_id (rw_served w) \<notin> rw_reading w"
  using relay_okD(4,5,9) [OF assms] by blast+

lemma relay_new_ok: "relay_ok (relay_new participant)"
  by (simp add: relay_ok_def relay_new_def served_new_def starting_def)

text \<open>A step that changes peers in place, and keeps what is cut so.\<close>

definition keeps :: "('re, 'k) Served \<Rightarrow> ('re, 'k) Served \<Rightarrow> bool" where
  "keeps s s' \<longleftrightarrow> sv_peers s' = sv_peers s \<and> sv_next_id s' = sv_next_id s \<and> sv_accepted s' = sv_accepted s \<and>
     sv_refused s' = sv_refused s \<and> dom (sv_store s') = dom (sv_store s) \<and>
     (\<forall>i p p'. sv_store s i = Some p \<longrightarrow> sv_store s' i = Some p' \<longrightarrow> i \<notin> set (sv_peers s) \<longrightarrow> is_cut p \<longrightarrow> is_cut p')"

lemma relay_ok_keeps:
  assumes "relay_ok w" and "keeps (rw_served w) (rw_served w')" and "starting w' = starting w" and "rw_reading w' \<subseteq> rw_reading w"
    and "rw_halves w' = rw_halves w"
  shows "relay_ok w'"
proof -
  have "is_cut p'" if "sv_store (rw_served w') i = Some p'" "i \<notin> set (sv_peers (rw_served w'))" "i \<notin> starting w'" "i \<notin> rw_halves w'" for i p'
  proof -
    have "i \<in> dom (sv_store (rw_served w))" using that(1) assms(2) by (auto simp: keeps_def)
    then obtain p where p: "sv_store (rw_served w) i = Some p" by blast
    moreover have "i \<notin> set (sv_peers (rw_served w))" using that(2) assms(2) by (simp add: keeps_def)
    moreover have "is_cut p" using relay_okD(8) [OF assms(1) p] that(3,4) assms(3,5) calculation by simp
    ultimately show ?thesis using that(1) assms(2) unfolding keeps_def by blast
  qed
  moreover have "rw_reading w' \<subseteq> {..<sv_next_id (rw_served w)}" using assms(4) relay_okD(5) [OF assms(1)] by (rule subset_trans)
  moreover have "rw_halves w \<inter> (set (sv_peers (rw_served w)) \<union> starting w \<union> rw_reading w') = {}"
    using relay_okD(10) [OF assms(1)] assms(4) by blast
  ultimately show ?thesis using assms(2,3,5) relay_okD(1-4,6,7,9) [OF assms(1)]
    by (simp add: relay_ok_def Let_def keeps_def)
qed

lemma keeps_change:
  assumes "\<And>p. is_cut p \<Longrightarrow> is_cut (f p)" shows "keeps s (change_peer i f s)"
  using assms by (auto simp: keeps_def dom_def)

lemma put_message_closed: "\<not> qu_open q \<Longrightarrow> \<not> qu_open (fst (put_message woken q frame))"
  by (cases woken) (simp_all add: put_message_def put_enter_def put_turn_def put_leave_def)

lemma dispatch_peer_cut: "is_cut p \<Longrightarrow> is_cut (dispatch_peer is_match woken ch encoded p i)"
  using put_message_closed by (auto simp: is_cut_def dispatch_peer_def Let_def split: prod.splits)

lemma dispatch_local_store [simp]:
  "sv_next_id (dispatch_local is_match at frame s) = sv_next_id s"
  "sv_accepted (dispatch_local is_match at frame s) = sv_accepted s"
  "sv_refused (dispatch_local is_match at frame s) = sv_refused s"
  by (simp_all add: dispatch_local_def Let_def split: option.splits prod.splits)

lemma keeps_dispatch: "distinct (sv_peers s) \<Longrightarrow> keeps s (dispatch is_match woken at frame encoded s)"
  by (auto simp: keeps_def dom_def) (simp_all add: dispatch_def)

lemma keeps_refl: "keeps s s"
  by (simp add: keeps_def)

lemma keeps_item: "distinct (sv_peers s) \<Longrightarrow> keeps s (peer_item compile is_match woken now i n asked s)"
  by (auto simp: peer_item_def keeps_refl keeps_dispatch is_cut_def intro!: keeps_change split: Request.splits sum.splits)

lemma writer_move_closed: "writer_move q q' \<Longrightarrow> \<not> qu_open q \<Longrightarrow> \<not> qu_open q'"
  by (induction rule: writer_move.induct)
     (auto simp: take_turn_def outbox_done_def outbox_shut_def outbox_abandon_def split: list.splits option.splits)

lemma cut_is_cut [simp]: "is_cut (cut p)"
  by (simp add: is_cut_def cut_def outbox_shut_def)

lemma drop_peer_store:
  "sv_store (drop_peer i s) j = (if j = i \<and> i \<in> set (sv_peers s) then map_option cut (sv_store s j) else sv_store s j)"
  by (simp add: drop_peer_def)

lemma drop_peer_simps [simp]:
  "sv_peers (drop_peer i s) = remove1 i (sv_peers s)" "sv_next_id (drop_peer i s) = sv_next_id s"
  "sv_accepted (drop_peer i s) = sv_accepted s" "sv_refused (drop_peer i s) = sv_refused s" "dom (sv_store (drop_peer i s)) = dom (sv_store s)"
  by (auto simp: drop_peer_def remove1_idem dom_def)

lemma shut_peers_simps [simp]:
  "sv_peers (shut_peers s) = []" "sv_next_id (shut_peers s) = sv_next_id s" "sv_accepted (shut_peers s) = sv_accepted s"
  "sv_refused (shut_peers s) = sv_refused s"
  by (simp_all add: shut_peers_def)

lemma shut_peers_store:
  "distinct (sv_peers s) \<Longrightarrow> sv_store (shut_peers s) j = (if j \<in> set (sv_peers s) then map_option cut (sv_store s j) else sv_store s j)"
  by (simp add: shut_peers_def foldl_change_store)

lemma starting_simps [simp]:
  "starting (w\<lparr>rw_served := s\<rparr>) = starting w" "starting (w\<lparr>rw_reading := r\<rparr>) = starting w"
  "starting (w\<lparr>rw_closing := c\<rparr>) = starting w" "starting (w\<lparr>rw_accept := AStarted i\<rparr>) = {i}"
  "starting (w\<lparr>rw_accept := AWaits\<rparr>) = {}" "starting (w\<lparr>rw_accept := AGreets\<rparr>) = {}" "starting (w\<lparr>rw_accept := AEnded\<rparr>) = {}"
  by (simp_all add: starting_def)

lemma starts_ok:
  assumes ok: "relay_ok w" and at: "starting w = {}" and s: "s = rw_served w"
  shows "relay_ok (w\<lparr>rw_accept := AStarted (sv_next_id s), rw_served := start_threads s,
      rw_reading := insert (sv_next_id s) (rw_reading w)\<rparr>)"
  using relay_okD(1-7,9,10) [OF ok] relay_okD(8) [OF ok] at relay_fresh [OF ok] unfolding s
  by (auto simp: relay_ok_def Let_def start_threads_def starting_def less_Suc_eq split: if_splits)

lemma halves_ok:
  assumes ok: "relay_ok w" and at: "starting w = {}" and s: "s = rw_served w"
  shows "relay_ok (w\<lparr>rw_accept := AWaits, rw_served := after_start (NoReader e) s,
      rw_halves := insert (sv_next_id s) (rw_halves w)\<rparr>)"
  using relay_okD(1-7,9,10) [OF ok] relay_okD(8) [OF ok] at relay_fresh [OF ok] unfolding s
  by (auto simp: relay_ok_def Let_def start_threads_def starting_def less_Suc_eq split: if_splits)

lemma half_ends_ok:
  assumes ok: "relay_ok w" and at: "i \<in> rw_halves w" and s: "s = rw_served w"
  shows "relay_ok (w\<lparr>rw_halves := rw_halves w - {i}, rw_served := s\<lparr>sv_store := (sv_store s)(i := None)\<rparr>\<rparr>)"
  using relay_okD(1-7,9,10) [OF ok] relay_okD(8) [OF ok] at unfolding s
  by (auto simp: relay_ok_def Let_def starting_def split: if_splits)

lemma refuses_ok:
  assumes ok: "relay_ok w" and at: "starting w = {}" and st: "st = Unfit e \<or> st = NoPeer e"
  shows "relay_ok (w\<lparr>rw_accept := AWaits, rw_served := after_start st (rw_served w)\<rparr>)"
  using relay_okD(1-7,9,10) [OF ok] relay_okD(8) [OF ok] at st relay_fresh(1) [OF ok]
  by (auto simp: relay_ok_def Let_def starting_def less_Suc_eq)

lemma lists_ok:
  assumes ok: "relay_ok w" and at: "rw_accept w = AStarted i"
  shows "relay_ok (w\<lparr>rw_accept := AWaits, rw_served := list_peer i (rw_served w)\<rparr>)"
proof -
  have "starting w = {i}" using at by (simp add: starting_def)
  with relay_okD(1-7,9,10) [OF ok] relay_okD(8) [OF ok] show ?thesis
    by (auto simp: relay_ok_def Let_def list_peer_def starting_def)
qed

lemma leaves_ok:
  assumes ok: "relay_ok w"
  shows "relay_ok (w\<lparr>rw_served := drop_peer i (rw_served w), rw_reading := rw_reading w - {i}\<rparr>)"
  using relay_okD(1-7,9,10) [OF ok] relay_okD(8) [OF ok]
  by (auto simp: relay_ok_def Let_def drop_peer_store starting_def dest: in_set_remove1 set_remove1_subset [THEN subsetD] split: if_splits)

lemma closes_ok:
  assumes ok: "relay_ok w"
  shows "relay_ok (w\<lparr>rw_served := shut_peers (rw_served w), rw_closing := c\<rparr>)"
proof -
  have "dom (sv_store (shut_peers (rw_served w))) = dom (sv_store (rw_served w))"
    using relay_okD(1) [OF ok] by (auto simp: shut_peers_store dom_def split: if_splits)
  with relay_okD(1-7,9,10) [OF ok] relay_okD(8) [OF ok] show ?thesis
    by (auto simp: relay_ok_def Let_def shut_peers_store starting_def split: if_splits)
qed

lemma relay_step_ok: "relay_step compile is_match w w' \<Longrightarrow> relay_ok w \<Longrightarrow> relay_ok w'"
proof (induction rule: relay_step.induct)
  case (starts w s answers wrote greeting)
  then show ?case unfolding after_start.simps by (intro starts_ok) (simp_all add: starting_def)
next
  case (halves w s answers wrote greeting e)
  then show ?case by (intro halves_ok) (simp_all add: starting_def)
next
  case (half_ends i w s)
  then show ?case by (intro half_ends_ok)
next
  case (panics i w subs woken now n frame)
  then show ?case using keeps_item [OF relay_okD(1) [OF panics(3)]]
    by (intro relay_ok_keeps [OF panics(3)]) (auto simp: starting_def)
next
  case (lists w i) then show ?case by (intro lists_ok)
next
  case (leaves i w) then show ?case by (intro leaves_ok)
next
  case (closes w) then show ?case by (intro closes_ok)
next
  case (asks i w woken now n asked)
  then show ?case using keeps_item [OF relay_okD(1) [OF asks(2)]] by (intro relay_ok_keeps [OF asks(2)]) simp_all
next
  case (speaks woken at frame w s)
  then obtain encoded where "s = dispatch is_match woken at frame encoded (rw_served w)"
    by (auto simp: publish_from_local_def and_then_eq_Inr)
  then show ?case using keeps_dispatch [OF relay_okD(1) [OF speaks(2)]] by (intro relay_ok_keeps [OF speaks(2)]) simp_all
next
  case (writes w i p q)
  then show ?case
    by (intro relay_ok_keeps [OF writes(3)])
       (auto simp: keeps_def dom_def is_cut_def dest: writer_move_closed)
next
  case (tears w i)
  then show ?case by (intro relay_ok_keeps [OF tears]) (auto simp: is_cut_def intro!: keeps_change)
next
  case (late w i woken ch encoded)
  then show ?case by (intro relay_ok_keeps [OF late]) (auto intro!: keeps_change dispatch_peer_cut)
next
  case (accepts w)
  then show ?case by (intro relay_ok_keeps [OF accepts(3)]) (simp_all add: keeps_refl starting_def)
next
  case (stops w)
  then show ?case by (intro relay_ok_keeps [OF stops(2)]) (simp_all add: keeps_refl starting_def)
next
  case (refuses w answers wrote greeting st e)
  then show ?case by (intro refuses_ok) (simp_all add: starting_def)
next
  case (joined w ts)
  then show ?case by (intro relay_ok_keeps [OF joined(4)]) (simp_all add: keeps_refl)
qed

interpretation relay: step_invariant "relay_step compile is_match" relay_ok
  by unfold_locales (rule relay_step_ok)

lemmas relay_run_ok = relay.run_keeps

section \<open>Close\<close>

text \<open>Once \<open>close\<close> has taken the list, at most one connection more gets into it: the one the accept thread
  had in hand.\<close>

definition in_hand_count :: "('re, 'k) RelayWorld \<Rightarrow> nat" where
  "in_hand_count w = (case rw_accept w of AGreets \<Rightarrow> 1 | AStarted i \<Rightarrow> 1 | _ \<Rightarrow> 0)"

definition closing_ok :: "('re, 'k) RelayWorld \<Rightarrow> bool" where
  "closing_ok w \<longleftrightarrow> (let s = rw_served w in
     (rw_closing w \<noteq> NotClosed \<longrightarrow> \<not> sv_running s \<and> length (sv_peers s) + in_hand_count w \<le> 1) \<and>
     (case rw_closing w of
        NotClosed \<Rightarrow> rw_reading w \<subseteq> set (sv_threads s) \<union> starting w
      | Joining ts \<Rightarrow> rw_reading w \<subseteq> set ts \<union> starting w \<union> set (sv_peers s)
      | CloseDone \<Rightarrow> rw_accept w = AEnded \<and> rw_reading w \<subseteq> set (sv_peers s)))"

lemma local_running [simp]:
  "sv_running (dispatch_local is_match at frame s) = sv_running s" "sv_threads (dispatch_local is_match at frame s) = sv_threads s"
  by (simp_all add: dispatch_local_def Let_def split: option.splits prod.splits)

lemma foldl_running [simp]:
  "sv_running (foldl (\<lambda>s i. change_peer i (f i) s) s is) = sv_running s"
  "sv_threads (foldl (\<lambda>s i. change_peer i (f i) s) s is) = sv_threads s"
  by (induction "is" arbitrary: s) simp_all

lemma dispatch_running [simp]:
  "sv_running (dispatch is_match woken at frame encoded s) = sv_running s"
  "sv_threads (dispatch is_match woken at frame encoded s) = sv_threads s"
  by (simp_all add: dispatch_def)

lemma item_running [simp]:
  "sv_running (peer_item compile is_match woken now i n asked s) = sv_running s"
  "sv_threads (peer_item compile is_match woken now i n asked s) = sv_threads s"
  by (simp_all add: peer_item_def split: Request.splits sum.splits)

lemma drop_running [simp]:
  "sv_running (drop_peer i s) = sv_running s" "sv_threads (drop_peer i s) = sv_threads s"
  by (simp_all add: drop_peer_def)

lemma shut_running [simp]: "sv_running (shut_peers s) = False" "sv_threads (shut_peers s) = []"
  by (simp_all add: shut_peers_def)

lemma closing_ok_same:
  assumes "closing_ok w" and "sv_peers s = sv_peers (rw_served w)" and "sv_threads s = sv_threads (rw_served w)"
    and "sv_running s = sv_running (rw_served w)"
  shows "closing_ok (w\<lparr>rw_served := s\<rparr>)"
  using assms by (simp add: closing_ok_def Let_def in_hand_count_def split: Closing.splits)

lemma leaves_closing: "closing_ok w \<Longrightarrow>
    closing_ok (w\<lparr>rw_served := drop_peer i (rw_served w), rw_reading := rw_reading w - {i}\<rparr>)"
proof -
  assume c: "closing_ok w"
  have len: "length (remove1 i (sv_peers (rw_served w))) \<le> length (sv_peers (rw_served w))" by (simp add: length_remove1)
  have keep: "j \<in> set (remove1 i (sv_peers (rw_served w)))" if "j \<in> set (sv_peers (rw_served w))" "j \<noteq> i" for j
    using that by simp
  show ?thesis using c len
    by (auto simp: closing_ok_def Let_def in_hand_count_def dest!: keep split: Closing.splits)
qed

lemma closing_step: "relay_step compile is_match w w' \<Longrightarrow> closing_ok w \<Longrightarrow> closing_ok w'"
proof (induction rule: relay_step.induct)
  case (asks i w woken now n asked) then show ?case by (intro closing_ok_same) simp_all
next
  case (leaves i w) then show ?case by (intro leaves_closing)
next
  case (speaks woken at frame w s)
  then obtain encoded where "s = dispatch is_match woken at frame encoded (rw_served w)"
    by (auto simp: publish_from_local_def and_then_eq_Inr)
  with speaks show ?case by (intro closing_ok_same) simp_all
next
  case (writes w i p q) then show ?case by (intro closing_ok_same) simp_all
next
  case (tears w i) then show ?case by (intro closing_ok_same) simp_all
next
  case (late w i woken ch encoded) then show ?case by (intro closing_ok_same) simp_all
qed (auto simp: closing_ok_def Let_def in_hand_count_def starting_def start_threads_def list_peer_def
       split: Closing.splits Accepting.splits)

interpretation closing: step_invariant "relay_step compile is_match" closing_ok
  by unfold_locales (rule closing_step)

lemmas relay_run_closing = closing.run_keeps

lemma relay_new_closing: "closing_ok (relay_new participant)"
  by (simp add: closing_ok_def relay_new_def served_new_def)

section \<open>Two races of the accept thread\<close>

text \<open>
  \<open>start_peer\<close> runs the reader before it lists the peer. A client that leaves at once is then dropped before
  it is listed, and stays in the list: no step but \<open>close\<close> takes it out.
\<close>

definition left_behind :: "nat \<Rightarrow> ('re, 'k) RelayWorld \<Rightarrow> bool" where
  "left_behind i w \<longleftrightarrow> i \<in> set (sv_peers (rw_served w)) \<and> i \<notin> rw_reading w \<and> i < sv_next_id (rw_served w)"

lemma left_behind_step:
  "relay_step compile is_match w w' \<Longrightarrow> left_behind i w \<Longrightarrow> sv_running (rw_served w') \<Longrightarrow> left_behind i w'"
proof (induction rule: relay_step.induct)
  case (asks j w woken now n asked)
  then show ?case by (simp add: left_behind_def)
     (simp add: peer_item_def dispatch_def split: Request.splits sum.splits)
next
  case (panics j w subs woken now n frame)
  then show ?case by (simp add: left_behind_def)
     (simp add: peer_item_def dispatch_def split: sum.splits)
next
  case (speaks woken at frame w s)
  then obtain encoded where "s = dispatch is_match woken at frame encoded (rw_served w)"
    by (auto simp: publish_from_local_def and_then_eq_Inr)
  with speaks show ?case by (simp add: left_behind_def dispatch_def)
next
  case (leaves j w)
  then have "j \<noteq> i" by (auto simp: left_behind_def)
  with leaves show ?case by (simp add: left_behind_def)
qed (auto simp: left_behind_def start_threads_def list_peer_def)

lemma running_step: "relay_step compile is_match w w' \<Longrightarrow> sv_running (rw_served w') \<Longrightarrow> sv_running (rw_served w)"
  by (induction rule: relay_step.induct)
     (auto simp: start_threads_def list_peer_def publish_from_local_def and_then_eq_Inr)

lemma left_behind_run:
  "relay_run compile is_match w w' \<Longrightarrow> left_behind i w \<Longrightarrow> sv_running (rw_served w') \<Longrightarrow> left_behind i w'"
  by (induction rule: rtranclp_induct) (auto intro: left_behind_step dest: running_step)

lemmas relay_one_more = one_more [where step = "relay_step compile is_match"] for compile is_match

lemma hello: "greet_peer None (Inr handshake) = Inr server_handshake"
  by (simp add: greet_peer_def check_client_handshake_eq handshake_fields)

lemma all_well: "start_peer (\<lambda>_. None) None (Inr handshake) = Started"
  by (simp add: start_peer_def hello)

text \<open>The first connection, with its threads running and the peer not yet in the list.\<close>

definition first_started :: "('re, 'k) RelayWorld" where
  "first_started = (relay_new None)\<lparr>rw_accept := AStarted 0, rw_served := start_threads (served_new None), rw_reading := {0}\<rparr>"

lemma first_started_reached: "relay_run compile is_match (relay_new None) (first_started :: ('re, 'k) RelayWorld)"
proof -
  let ?w0 = "relay_new None :: ('re, 'k) RelayWorld"
  have "relay_run compile is_match ?w0 (?w0\<lparr>rw_accept := AGreets\<rparr>)"
    by (rule relay_one_more [OF run_refl accepts refl]) (simp_all add: relay_new_def served_new_def)
  then show ?thesis
    by (rule relay_one_more [OF _ starts [OF _ refl all_well]]) (simp_all add: relay_new_def served_new_def first_started_def)
qed

definition dead_listed :: "('re, 'k) RelayWorld" where
  "dead_listed = first_started\<lparr>rw_accept := AWaits, rw_reading := {}, rw_served := list_peer 0 (start_threads (served_new None))\<rparr>"

lemma dead_listed_reached: "relay_run compile is_match (relay_new None) (dead_listed :: ('re, 'k) RelayWorld)"
proof -
  let ?w1 = "first_started :: ('re, 'k) RelayWorld"
  have "relay_run compile is_match (relay_new None) (?w1\<lparr>rw_served := drop_peer 0 (rw_served ?w1), rw_reading := {}\<rparr>)"
    by (rule relay_one_more [OF first_started_reached leaves [of 0]]) (simp_all add: first_started_def)
  then show ?thesis
    by (rule relay_one_more [OF _ lists [of _ 0]])
       (simp_all add: first_started_def dead_listed_def drop_peer_def start_threads_def served_new_def)
qed

text \<open>
  \<open>close\<close> takes the list, and waits for the accept thread after that. The connection the accept thread
  had in hand is listed behind it, and nothing shuts it.
\<close>

definition open_after_close :: "('re, 'k) RelayWorld" where
  "open_after_close = first_started\<lparr>rw_accept := AEnded, rw_closing := CloseDone, rw_reading := {},
     rw_served := list_peer 0 (shut_peers (start_threads (served_new None)))\<rparr>"

lemma open_after_close_reached: "relay_run compile is_match (relay_new None) (open_after_close :: ('re, 'k) RelayWorld)"
proof -
  let ?w1 = "first_started :: ('re, 'k) RelayWorld"
  let ?s1 = "shut_peers (rw_served ?w1)"
  let ?w2 = "?w1\<lparr>rw_served := ?s1, rw_closing := Joining []\<rparr>"
  let ?w3 = "?w2\<lparr>rw_reading := {}\<rparr>"
  let ?w4 = "?w3\<lparr>rw_accept := AWaits, rw_served := list_peer 0 ?s1\<rparr>"
  have "relay_run compile is_match (relay_new None) ?w2"
    by (rule relay_one_more [OF first_started_reached closes])
       (simp_all add: first_started_def relay_new_def served_new_def start_threads_def)
  then have "relay_run compile is_match (relay_new None) ?w3"
    by (rule relay_one_more [OF _ leaves [of 0]]) (simp_all add: first_started_def drop_peer_def)
  then have "relay_run compile is_match (relay_new None) ?w4"
    by (rule relay_one_more [OF _ lists [of _ 0]]) (simp_all add: first_started_def)
  then have "relay_run compile is_match (relay_new None) (?w4\<lparr>rw_accept := AEnded\<rparr>)"
    by (rule relay_one_more [OF _ stops refl]) simp
  then show ?thesis
    by (rule relay_one_more [OF _ joined [of _ "[]"]]) (simp_all add: first_started_def open_after_close_def)
qed

lemma open_after_close_open:
  "sv_peers (rw_served open_after_close) = [0]" "rw_closing open_after_close = CloseDone" "rw_reading open_after_close = {}"
  "sv_store (rw_served open_after_close) 0 = Some peer_new" "pe_stream_open peer_new" "qu_open (pe_outbox peer_new)"
  by (simp_all add: open_after_close_def list_peer_def shut_peers_def start_threads_def served_new_def peer_new_def outbox_new_def)

lemma dead_listed_left: "left_behind 0 dead_listed \<and> sv_running (rw_served dead_listed) \<and> peers (rw_served dead_listed) = 1"
  by (simp add: left_behind_def dead_listed_def list_peer_def start_threads_def served_new_def peers_def)

lemma peer_left_behind:
  "\<exists>w :: ('re, 'k) RelayWorld. relay_run compile is_match (relay_new None) w \<and> peers (rw_served w) = 1 \<and>
    sv_running (rw_served w) \<and> rw_reading w = {} \<and>
    (\<forall>w'. relay_run compile is_match w w' \<and> sv_running (rw_served w') \<longrightarrow> left_behind 0 w')"
proof (intro exI conjI allI impI)
  show "relay_run compile is_match (relay_new None) (dead_listed :: ('re, 'k) RelayWorld)" by (rule dead_listed_reached)
  show "peers (rw_served dead_listed) = 1" "sv_running (rw_served dead_listed)" by (simp_all add: dead_listed_left)
  show "rw_reading dead_listed = {}" by (simp add: dead_listed_def)
  show "left_behind 0 w'" if "relay_run compile is_match dead_listed w' \<and> sv_running (rw_served w')" for w' :: "('re, 'k) RelayWorld"
    using that left_behind_run dead_listed_left by blast
qed

lemma close_leaves_open:
  "\<exists>w :: ('re, 'k) RelayWorld. \<exists>p. relay_run compile is_match (relay_new None) w \<and> rw_closing w = CloseDone \<and>
    rw_reading w = {} \<and> sv_peers (rw_served w) = [0] \<and> sv_store (rw_served w) 0 = Some p \<and> pe_stream_open p \<and>
    qu_open (pe_outbox p)"
  using open_after_close_reached open_after_close_open by blast

section \<open>Two failures on the way\<close>

text \<open>
  Where the reader of a peer cannot be started, \<open>start_peer\<close> gives up with the writer running. That one has
  nothing to write and no list has the peer, so it keeps its connection, which nobody reads, until the relay ends.
\<close>

lemma half_stays_step:
  "relay_step compile is_match w w' \<Longrightarrow> i \<in> rw_halves w \<Longrightarrow> sv_running (rw_served w') \<Longrightarrow> i \<in> rw_halves w'"
  by (induction rule: relay_step.induct) auto

lemma half_stays:
  "relay_run compile is_match w w' \<Longrightarrow> i \<in> rw_halves w \<Longrightarrow> sv_running (rw_served w') \<Longrightarrow> i \<in> rw_halves w'"
  by (induction rule: rtranclp_induct) (auto intro: half_stays_step dest: running_step)

definition first_half :: "('re, 'k) RelayWorld" where
  "first_half = (relay_new None)\<lparr>rw_served := after_start (NoReader OutOfMemory) (served_new None), rw_halves := {0}\<rparr>"

lemma first_half_reached: "relay_run compile is_match (relay_new None) (first_half :: ('re, 'k) RelayWorld)"
proof -
  let ?w0 = "relay_new None :: ('re, 'k) RelayWorld"
  have half: "start_peer (\<lambda>n. if n = 8 then Some OutOfMemory else None) None (Inr handshake) = NoReader OutOfMemory"
    by (simp add: start_peer_def hello)
  have "relay_run compile is_match ?w0 (?w0\<lparr>rw_accept := AGreets\<rparr>)"
    by (rule relay_one_more [OF run_refl accepts refl]) (simp_all add: relay_new_def served_new_def)
  then show ?thesis
    by (rule relay_one_more [OF _ halves [OF _ refl half]]) (simp_all add: relay_new_def served_new_def first_half_def)
qed

lemma half_peer_stays_open:
  "\<exists>w :: ('re, 'k) RelayWorld. relay_run compile is_match (relay_new None) w \<and> sv_running (rw_served w) \<and> rw_reading w = {} \<and>
    (\<exists>p. sv_store (rw_served w) 0 = Some p \<and> pe_stream_open p) \<and>
    (\<forall>w'. relay_run compile is_match w w' \<and> sv_running (rw_served w') \<longrightarrow>
      0 \<in> rw_halves w' \<and> 0 \<notin> set (sv_peers (rw_served w')) \<and> 0 \<notin> rw_reading w')"
proof (intro exI [of _ first_half] conjI allI impI)
  let ?w = "first_half :: ('re, 'k) RelayWorld"
  show "relay_run compile is_match (relay_new None) ?w" by (rule first_half_reached)
  show "sv_running (rw_served ?w)" "rw_reading ?w = {}" "\<exists>p. sv_store (rw_served ?w) 0 = Some p \<and> pe_stream_open p"
    by (simp_all add: first_half_def start_threads_def relay_new_def served_new_def peer_new_def)
  fix w' :: "('re, 'k) RelayWorld" assume w': "relay_run compile is_match ?w w' \<and> sv_running (rw_served w')"
  have "0 \<in> rw_halves ?w" by (simp add: first_half_def)
  with w' show half: "0 \<in> rw_halves w'" using half_stays [of compile is_match ?w w' 0] by simp
  have "relay_run compile is_match (relay_new None) w'" by (rule rtranclp_trans [OF first_half_reached]) (use w' in simp)
  then have "relay_ok w'" by (rule relay_run_ok [OF _ relay_new_ok])
  from relay_okD(10) [OF this] half show "0 \<notin> set (sv_peers (rw_served w'))" "0 \<notin> rw_reading w'" by blast+
qed

text \<open>
  A handler that panics takes the reader thread of a peer with it, past the line that drops the peer: it stays in
  the list, and every publish that it subscribed to is put into its outbox for as long as the relay runs.
\<close>

definition one_listed :: "('re, 'k) RelayWorld" where
  "one_listed = (relay_new (Some subscriptions_new))\<lparr>rw_served := list_peer 0 (start_threads (served_new (Some subscriptions_new))),
     rw_reading := {0}\<rparr>"

lemma one_listed_reached: "relay_run compile is_match (relay_new (Some subscriptions_new)) (one_listed :: ('re, 'k) RelayWorld)"
proof -
  let ?w0 = "relay_new (Some subscriptions_new) :: ('re, 'k) RelayWorld"
  let ?w1 = "?w0\<lparr>rw_accept := AStarted 0, rw_served := start_threads (rw_served ?w0), rw_reading := {0}\<rparr>"
  have "relay_run compile is_match ?w0 (?w0\<lparr>rw_accept := AGreets\<rparr>)"
    by (rule relay_one_more [OF run_refl accepts refl]) (simp_all add: relay_new_def served_new_def)
  then have "relay_run compile is_match ?w0 ?w1"
    by (rule relay_one_more [OF _ starts [OF _ refl all_well]]) (simp_all add: relay_new_def served_new_def)
  then show ?thesis
    by (rule relay_one_more [OF _ lists [of _ 0]]) (simp_all add: relay_new_def served_new_def one_listed_def)
qed

lemma panic_leaves_listed:
  "\<exists>w :: ('re, 'k) RelayWorld. relay_run compile is_match (relay_new (Some subscriptions_new)) w \<and>
    rw_reading w = {} \<and> (\<forall>w'. relay_run compile is_match w w' \<and> sv_running (rw_served w') \<longrightarrow> left_behind 0 w')"
proof -
  let ?w = "one_listed :: ('re, 'k) RelayWorld"
  define w' where "w' = ?w\<lparr>rw_reading := rw_reading ?w - {0},
    rw_served := peer_item compile is_match (\<lambda>_ _. []) (\<lambda>_. 0) 0 0 (Publish \<lparr>channel = ''a'', payload = []\<rparr>) (rw_served ?w)\<rparr>"
  have listed: "0 \<in> rw_reading ?w" "sv_local (rw_served ?w) = Some subscriptions_new" "sv_peers (rw_served ?w) = [0]"
    "sv_next_id (rw_served ?w) = 1" "rw_reading ?w = {0}"
    by (simp_all add: one_listed_def list_peer_def start_threads_def served_new_def)
  have run: "relay_run compile is_match (relay_new (Some subscriptions_new)) w'"
    by (rule relay_one_more [OF one_listed_reached panics [OF listed(1,2)]]) (simp add: w'_def)
  have "left_behind 0 w'" using listed
    by (simp add: left_behind_def w'_def) (simp add: peer_item_def dispatch_def split: sum.split)
  moreover have "rw_reading w' = {}" using listed by (simp add: w'_def)
  ultimately show ?thesis using run left_behind_run [of compile is_match w' _ 0] by (intro exI [of _ w']) simp
qed

end
