(* ===== verification/ClientOps.thy ===== *)
theory ClientOps
  imports LogReader ServedRun
begin

text \<open>
  The operations of a \<open>Client\<close>: publish on every transport, subscribe and unsubscribe, flush, close, and
  what it says of itself. An operation is the call of one thread; what others do to an outbox while it
  waits, what the sockets and the file answer, and the clock are arguments, the record \<open>Outside\<close>.
\<close>

section \<open>The client\<close>

datatype ClientError = UrlError BadUrl | IoFailed IoError | HandshakeFailed WireError | PatternRefused BadPattern
  | WireFailed WireError | ReadOnly | PublishOnly | NotAFile | ConnectionClosed | NotARelay

text \<open>A log writer: what went into it so far, and the number of the next event.\<close>

record LogWriter =
  lw_file :: bytes
  lw_events :: i64

text \<open>The sending half of a udpm bus: what the kernel gave for datagrams to come, where it sends, and the
  number of its next message.\<close>

record UdpmSend =
  us_recv_buffer :: "nat option"
  us_destination :: "Ipv4Addr \<times> u16"
  us_sequence :: u32
  us_short_max :: nat

text \<open>A served relay also holds the address it listens on, of the type of socket addresses.\<close>

datatype ('re, 'k) Transport = TUdpm UdpmSend | TTcpq Queue | TLog LogWriter | TServe "('re, 'k) Served" 'k | TReplay

text \<open>On a served relay the subscriptions and the counters are those of the participant that serves, which
  the client shares; on the others they are its own.\<close>

record ('re, 'k) Client =
  cl_transport :: "('re, 'k) Transport"
  cl_receives :: bool
  cl_writable :: bool
  cl_running :: bool
  cl_subscriptions :: "'re Subscriptions"
  cl_counters :: Counters

definition held_subscriptions :: "('re, 'k) Client \<Rightarrow> 're Subscriptions" where
  "held_subscriptions c =
     (case cl_transport c of
        TServe s bound \<Rightarrow> (case sv_local s of Some subs \<Rightarrow> subs | None \<Rightarrow> cl_subscriptions c)
      | _ \<Rightarrow> cl_subscriptions c)"

definition hold_subscriptions :: "'re Subscriptions \<Rightarrow> ('re, 'k) Client \<Rightarrow> ('re, 'k) Client" where
  "hold_subscriptions subs c =
     (case cl_transport c of
        TServe s bound \<Rightarrow> (if sv_local s = None then c\<lparr>cl_subscriptions := subs\<rparr>
          else c\<lparr>cl_transport := TServe (s\<lparr>sv_local := Some subs\<rparr>) bound\<rparr>)
      | _ \<Rightarrow> c\<lparr>cl_subscriptions := subs\<rparr>)"

definition held_counters :: "('re, 'k) Client \<Rightarrow> Counters" where
  "held_counters c = (case cl_transport c of TServe s bound \<Rightarrow> fst (sv_seen s) | _ \<Rightarrow> cl_counters c)"

text \<open>\<open>now_micros\<close> of what the system clock gives since the epoch, in microseconds; it gives nothing where it is set
  before that. The cast to \<open>i64\<close> keeps the low bits.\<close>

definition now_micros :: "nat option \<Rightarrow> i64" where
  "now_micros since = (case since of None \<Rightarrow> 0 | Some micros \<Rightarrow> of_nat micros)"

text \<open>\<open>ou_sends n\<close> is the error of the send of datagram \<open>n\<close>, if it fails; \<open>ou_write\<close> the error of the write
  of an event with the number of its bytes that still went, and \<open>ou_flush\<close> the error of a flush.\<close>

record Outside =
  ou_woken :: "(Queue \<Rightarrow> Queue) list"
  ou_peers :: "nat \<Rightarrow> (Queue \<Rightarrow> Queue) list"
  ou_clock :: "nat option"
  ou_sends :: "nat \<Rightarrow> IoError option"
  ou_write :: "(IoError \<times> nat) option"
  ou_flush :: "IoError option"

fun refused :: "Refused + unit \<Rightarrow> ClientError + unit" where
  "refused (Inr _) = Inr ()"
| "refused (Inl TooSlow) = Inl (IoFailed TimedOut)"
| "refused (Inl Gone) = Inl ConnectionClosed"

definition must_receive :: "('re, 'k) Client \<Rightarrow> ClientError + unit" where
  "must_receive c = (if cl_receives c then Inr () else Inl PublishOnly)"

section \<open>Publish\<close>

fun send_all :: "(nat \<Rightarrow> IoError option) \<Rightarrow> nat \<Rightarrow> bytes list \<Rightarrow> IoError option \<times> bytes list" where
  "send_all sends n [] = (None, [])"
| "send_all sends n (d # ds) =
     (case sends n of
        Some e \<Rightarrow> (Some e, [])
      | None \<Rightarrow> (let (failed, sent) = send_all sends (n + 1) ds in (failed, d # sent)))"

definition to_relay :: "Outside \<Rightarrow> bool \<Rightarrow> Queue \<Rightarrow> bytes \<Rightarrow> (ClientError + unit) \<times> Queue" where
  "to_relay ou writable q frame =
     (if \<not> writable then (Inl ConnectionClosed, q)
      else let (q', r) = put_message (ou_woken ou) q frame in (refused r, q'))"

definition log_write :: "Outside \<Rightarrow> FrameRef \<Rightarrow> i64 option \<Rightarrow> bool \<Rightarrow> LogWriter \<Rightarrow> (ClientError + unit) \<times> bool \<times> LogWriter" where
  "log_write ou frame timestamp writable lw =
     (if \<not> writable then (Inl ConnectionClosed, writable, lw)
      else
        case log_encode \<lparr>ev_number = lw_events lw,
               ev_timestamp = (case timestamp of Some t \<Rightarrow> t | None \<Rightarrow> now_micros (ou_clock ou)), ev_frame = frame\<rparr> of
          Inl e \<Rightarrow> (Inl (WireFailed e), writable, lw)
        | Inr bytes \<Rightarrow>
            (case ou_write ou of
               Some (e, went) \<Rightarrow> (Inl (IoFailed e), False, lw\<lparr>lw_file := lw_file lw @ take went bytes\<rparr>)
             | None \<Rightarrow> (Inr (), writable, \<lparr>lw_file = lw_file lw @ bytes, lw_events = lw_events lw + 1\<rparr>)))"

text \<open>\<open>write\<close>: the answer, the client, and the datagrams that went. It is \<open>None\<close> where the code would panic.\<close>

definition client_write ::
    "('re \<Rightarrow> string \<Rightarrow> bool option) \<Rightarrow> Outside \<Rightarrow> FrameRef \<Rightarrow> i64 option \<Rightarrow> ('re, 'k) Client \<Rightarrow>
     ((ClientError + unit) \<times> ('re, 'k) Client \<times> bytes list) option" where
  "client_write is_match ou frame timestamp c =
     (if \<not> cl_writable c then Some (Inl ConnectionClosed, c, [])
      else
        case cl_transport c of
          TUdpm u \<Rightarrow>
            (let c = c\<lparr>cl_transport := TUdpm (u\<lparr>us_sequence := us_sequence u + 1\<rparr>)\<rparr> in
             case udpm_encode (us_sequence u) frame (us_short_max u) of
               None \<Rightarrow> None
             | Some (Inl e) \<Rightarrow> Some (Inl (WireFailed e), c, [])
             | Some (Inr ds) \<Rightarrow>
                 (let (failed, sent) = send_all (ou_sends ou) 0 ds in
                  Some (case failed of Some e \<Rightarrow> Inl (IoFailed e) | None \<Rightarrow> Inr (), c, sent)))
        | TTcpq q \<Rightarrow>
            Some (case publish frame of
               Inl e \<Rightarrow> (Inl (WireFailed e), c, [])
             | Inr bytes \<Rightarrow> (let (r, q') = to_relay ou (cl_writable c) q bytes in (r, c\<lparr>cl_transport := TTcpq q'\<rparr>, [])))
        | TServe s bound \<Rightarrow>
            Some (case publish_from_local is_match (ou_peers ou) (now_micros (ou_clock ou)) frame s of
               Inl e \<Rightarrow> (Inl (WireFailed e), c, [])
             | Inr s' \<Rightarrow> (Inr (), c\<lparr>cl_transport := TServe s' bound\<rparr>, []))
        | TLog lw \<Rightarrow>
            (let (r, writable, lw') = log_write ou frame timestamp (cl_writable c) lw in
             Some (r, c\<lparr>cl_transport := TLog lw', cl_writable := writable\<rparr>, []))
        | TReplay \<Rightarrow> Some (Inl ReadOnly, c, []))"

definition can_publish :: "('re, 'k) Client \<Rightarrow> bool" where
  "can_publish c = (case cl_transport c of TReplay \<Rightarrow> False | _ \<Rightarrow> True)"

section \<open>Subscribe and unsubscribe\<close>

fun control_wait :: "(Queue \<Rightarrow> Queue) list \<Rightarrow> Queue \<Rightarrow> bytes \<Rightarrow> Queue \<times> (Refused + unit)" where
  "control_wait [] q frame =
     (case put_control_turn q frame True of (q', Some r) \<Rightarrow> (q', r) | (q', None) \<Rightarrow> (q', Inl TooSlow))"
| "control_wait (meanwhile # rst) q frame =
     (case put_control_turn q frame False of
        (q', Some r) \<Rightarrow> (q', r)
      | (q', None) \<Rightarrow> control_wait rst (meanwhile q') frame)"

text \<open>\<open>tell_relay\<close>, with the frames that were let in, for the client that says them.\<close>

definition tell_relay :: "Outside \<Rightarrow> bytes \<Rightarrow> ('re, 'k) Client \<Rightarrow> (ClientError + unit) \<times> ('re, 'k) Client \<times> bytes list" where
  "tell_relay ou bytes c =
     (if \<not> cl_writable c then (Inl ConnectionClosed, c, [])
      else
        case cl_transport c of
          TTcpq q \<Rightarrow>
            (let (q', r) = control_wait (ou_woken ou) q bytes in
             (refused r, c\<lparr>cl_transport := TTcpq q'\<rparr>, case r of Inr _ \<Rightarrow> [bytes] | Inl _ \<Rightarrow> []))
        | _ \<Rightarrow> (Inr (), c, []))"

definition subscribe_with ::
    "Outside \<Rightarrow> (BadPattern + 're Rule) \<Rightarrow> bytes \<Rightarrow> ('re, 'k) Client \<Rightarrow> (ClientError + unit) \<times> ('re, 'k) Client \<times> bytes list" where
  "subscribe_with ou checked bytes c =
     (case must_receive c of
        Inl e \<Rightarrow> (Inl e, c, [])
      | Inr _ \<Rightarrow>
          (case checked of
             Inl e \<Rightarrow> (Inl (PatternRefused e), c, [])
           | Inr rule \<Rightarrow>
               (case tell_relay ou bytes c of
                  (Inl e, c', told) \<Rightarrow> (Inl e, c', told)
                | (Inr _, c', told) \<Rightarrow> (Inr (), hold_subscriptions (push (held_subscriptions c') rule) c', told))))"

definition subscribe_name where
  "subscribe_name ou ch c = subscribe_with ou (check_name ch) (subscribe (escaped ch)) c"

definition subscribe_pattern where
  "subscribe_pattern compile ou pattern c = subscribe_with ou (check_pattern compile pattern) (subscribe pattern) c"

definition unsubscribe_from :: "Outside \<Rightarrow> string \<Rightarrow> ('re, 'k) Client \<Rightarrow> (ClientError + bool) \<times> ('re, 'k) Client \<times> bytes list" where
  "unsubscribe_from ou sub c =
     (case must_receive c of
        Inl e \<Rightarrow> (Inl e, c, [])
      | Inr _ \<Rightarrow>
          (case find_rule (held_subscriptions c) sub of
             None \<Rightarrow> (Inr False, c, [])
           | Some held \<Rightarrow>
               (case tell_relay ou (unsubscribe held) c of
                  (Inl e, c', told) \<Rightarrow> (Inl e, c', told)
                | (Inr _, c', told) \<Rightarrow>
                    (let (gone, subs) = remove_rule (held_subscriptions c') sub in
                     (Inr (gone \<noteq> None), hold_subscriptions subs c', told)))))"

section \<open>Flush, close, and what a client says of itself\<close>

text \<open>\<open>flush\<close>; the wait on an outbox is given by what wakes it.\<close>

fun flush_wait :: "(Queue \<Rightarrow> Queue) list \<Rightarrow> Queue \<Rightarrow> nat \<Rightarrow> nat \<Rightarrow> Queue \<times> (Refused + unit)" where
  "flush_wait [] q wanted wanted_control =
     (q, case flush_turn q wanted wanted_control True of Some r \<Rightarrow> r | None \<Rightarrow> Inl TooSlow)"
| "flush_wait (meanwhile # rst) q wanted wanted_control =
     (case flush_turn q wanted wanted_control False of
        Some r \<Rightarrow> (q, r)
      | None \<Rightarrow> flush_wait rst (meanwhile q) wanted wanted_control)"

definition client_flush :: "Outside \<Rightarrow> ('re, 'k) Client \<Rightarrow> (ClientError + unit) \<times> ('re, 'k) Client" where
  "client_flush ou c =
     (case cl_transport c of
        TLog lw \<Rightarrow> (case ou_flush ou of Some e \<Rightarrow> (Inl (IoFailed e), c\<lparr>cl_writable := False\<rparr>) | None \<Rightarrow> (Inr (), c))
      | TTcpq q \<Rightarrow>
          (let (wanted, wanted_control) = flush_enter q; (q', r) = flush_wait (ou_woken ou) q wanted wanted_control in
           (refused r, c\<lparr>cl_transport := TTcpq q'\<rparr>))
      | _ \<Rightarrow> (Inr (), c))"

text \<open>\<open>close\<close>, without the waits for threads and the read of what a relay still sent.\<close>

definition client_close :: "Outside \<Rightarrow> ('re, 'k) Client \<Rightarrow> IoError option \<times> ('re, 'k) Client" where
  "client_close ou c =
     (let c = c\<lparr>cl_running := False, cl_writable := False\<rparr> in
      case cl_transport c of
        TTcpq q \<Rightarrow> (None, c\<lparr>cl_transport := TTcpq (outbox_shut q)\<rparr>)
      | TLog lw \<Rightarrow> (ou_flush ou, c)
      | TServe s bound \<Rightarrow> (None, c\<lparr>cl_transport := TServe (shut_peers s) bound\<rparr>)
      | _ \<Rightarrow> (None, c))"

definition is_connected :: "('re, 'k) Client \<Rightarrow> bool" where
  "is_connected c \<longleftrightarrow> cl_running c \<and> cl_writable c"

record Stats =
  st_counters :: Counters
  st_pattern_failures :: nat
  st_unsent :: nat

definition stats :: "('re, 'k) Client \<Rightarrow> Stats" where
  "stats c = \<lparr>st_counters = held_counters c, st_pattern_failures = failures (held_subscriptions c),
     st_unsent = (case cl_transport c of TTcpq q \<Rightarrow> lost_messages q | _ \<Rightarrow> 0)\<rparr>"

definition client_peers :: "('re, 'k) Client \<Rightarrow> nat" where
  "client_peers c = (case cl_transport c of TServe s bound \<Rightarrow> peers s | _ \<Rightarrow> 0)"

definition client_peer_patterns :: "('re, 'k) Client \<Rightarrow> nat" where
  "client_peer_patterns c = (case cl_transport c of TServe s bound \<Rightarrow> peer_patterns s | _ \<Rightarrow> 0)"

definition client_bound :: "('re, 'k) Client \<Rightarrow> 'k option" where
  "client_bound c = (case cl_transport c of TServe s bound \<Rightarrow> Some bound | _ \<Rightarrow> None)"

definition recv_buffer_size :: "('re, 'k) Client \<Rightarrow> nat option" where
  "recv_buffer_size c = (case cl_transport c of TUdpm u \<Rightarrow> us_recv_buffer u | _ \<Rightarrow> None)"

definition refused_peers :: "('re, 'k) Client \<Rightarrow> nat" where
  "refused_peers c = (case cl_transport c of TServe s bound \<Rightarrow> sv_refused s | _ \<Rightarrow> 0)"

text \<open>\<open>ReaderExit\<close>: what is left of the client when its reader thread ends, and what the handler is told.
  \<open>shares\<close> says that the reader and the writer share a socket.\<close>

definition reader_exit :: "bool \<Rightarrow> bool \<Rightarrow> Stop option \<Rightarrow> ('re, 'k) Client \<Rightarrow> ('re, 'k) Client \<times> Stop option" where
  "reader_exit shares panicked cause c =
     (let c = (if shares then c\<lparr>cl_writable := False\<rparr> else c) in
      (c\<lparr>cl_running := False\<rparr>,
       if cl_running c \<or> panicked then Some (case cause of Some s \<Rightarrow> s | None \<Rightarrow> Panicked) else None))"

section \<open>A log writer over many calls\<close>

fun log_calls :: "(Outside \<times> FrameRef \<times> i64 option) list \<Rightarrow> bool \<Rightarrow> LogWriter \<Rightarrow> (ClientError + unit) list \<times> bool \<times> LogWriter" where
  "log_calls [] writable lw = ([], writable, lw)"
| "log_calls ((ou, frame, t) # calls) writable lw =
     (let (r, writable, lw) = log_write ou frame t writable lw; (rs, writable, lw) = log_calls calls writable lw in
      (r # rs, writable, lw))"

text \<open>The events of the calls that were answered \<open>Ok\<close>, numbered from \<open>n\<close>.\<close>

fun recorded :: "i64 \<Rightarrow> (Outside \<times> FrameRef \<times> i64 option) list \<Rightarrow> (ClientError + unit) list \<Rightarrow> Event list" where
  "recorded n ((ou, frame, t) # calls) (Inr _ # rs) =
     \<lparr>ev_number = n, ev_timestamp = (case t of Some t \<Rightarrow> t | None \<Rightarrow> now_micros (ou_clock ou)), ev_frame = frame\<rparr> # recorded (n + 1) calls rs"
| "recorded n ((ou, frame, t) # calls) (Inl _ # rs) = recorded n calls rs"
| "recorded n _ _ = []"

lemma log_calls_dead:
  "log_calls calls False lw = (rs, writable, lw') \<Longrightarrow> lw' = lw \<and> \<not> writable \<and> recorded n calls rs = [] \<and> length rs = length calls
     \<and> (\<forall>r \<in> set rs. r = Inl ConnectionClosed)"
  by (induction calls arbitrary: rs n) (auto simp: log_write_def split: prod.splits)

lemma log_calls_file:
  assumes "log_calls calls True lw = (rs, writable, lw')" and "\<forall>(ou, f, t) \<in> set calls. is_str (channel f)"
  shows "\<exists>bss part. lw_file lw' = lw_file lw @ concat bss @ part \<and> list_all2 logged (recorded (lw_events lw) calls rs) bss \<and>
    length rs = length calls \<and> (writable \<longrightarrow> part = []) \<and> (\<exists>ev rst. part @ rst = log_bytes ev)"
  using assms
proof (induction calls arbitrary: lw rs)
  case Nil
  then show ?case by (auto intro: exI [of _ "log_bytes undefined"])
next
  case (Cons call calls)
  obtain ou f t where call: "call = (ou, f, t)" by (cases call)
  let ?ev = "\<lparr>ev_number = lw_events lw, ev_timestamp = (case t of Some t \<Rightarrow> t | None \<Rightarrow> now_micros (ou_clock ou)), ev_frame = f\<rparr>"
  have str: "is_str (channel f)" "\<forall>(ou, f, t) \<in> set calls. is_str (channel f)" using Cons.prems(2) by (auto simp: call)
  show ?case
  proof (cases "log_encode ?ev")
    case (Inl e)
    then have w: "log_write ou f t True lw = (Inl (WireFailed e), True, lw)" by (simp add: log_write_def)
    with Cons.prems(1) obtain rs1 where "log_calls calls True lw = (rs1, writable, lw')" "rs = Inl (WireFailed e) # rs1"
      by (auto simp: call split: prod.splits)
    with Cons.IH [OF this(1) str(2)] show ?thesis by (simp add: call)
  next
    case (Inr bytes)
    show ?thesis
    proof (cases "ou_write ou")
      case None
      let ?lw = "\<lparr>lw_file = lw_file lw @ bytes, lw_events = lw_events lw + 1\<rparr>"
      from Inr None have "log_write ou f t True lw = (Inr (), True, ?lw)" by (simp add: log_write_def)
      with Cons.prems(1) obtain rs1 where 1: "log_calls calls True ?lw = (rs1, writable, lw')" "rs = Inr () # rs1"
        by (auto simp: call split: prod.splits)
      from Cons.IH [OF 1(1) str(2)] obtain bss part where
        "lw_file lw' = lw_file ?lw @ concat bss @ part" "list_all2 logged (recorded (lw_events ?lw) calls rs1) bss"
        "length rs1 = length calls" "writable \<longrightarrow> part = []" "\<exists>ev rst. part @ rst = log_bytes ev" by blast
      moreover have "logged ?ev bytes" using Inr str(1) by (simp add: logged_def)
      ultimately show ?thesis using 1(2) by (intro exI [of _ "bytes # bss"] exI [of _ part]) (simp add: call)
    next
      case (Some failure)
      obtain e went where f: "failure = (e, went)" by (cases failure)
      let ?lw = "lw\<lparr>lw_file := lw_file lw @ take went bytes\<rparr>"
      from Inr Some f have "log_write ou f t True lw = (Inl (IoFailed e), False, ?lw)" by (simp add: log_write_def)
      with Cons.prems(1) obtain rs1 where 1: "log_calls calls False ?lw = (rs1, writable, lw')" "rs = Inl (IoFailed e) # rs1"
        by (auto simp: call split: prod.splits)
      from log_calls_dead [OF 1(1)] have "lw' = ?lw" "\<not> writable" "recorded (lw_events lw) calls rs1 = []" "length rs1 = length calls"
        by simp_all
      moreover have "take went bytes @ drop went bytes = log_bytes ?ev" using Inr by (simp add: log_encode_Inr)
      then have "\<exists>ev rst. take went bytes @ rst = log_bytes ev" by blast
      ultimately show ?thesis using 1(2)
        by (intro exI [of _ "[]"] exI [of _ "take went bytes"]) (simp add: call)
    qed
  qed
qed

text \<open>The same over the calls of a client.\<close>

fun client_calls ::
    "('re \<Rightarrow> string \<Rightarrow> bool option) \<Rightarrow> (Outside \<times> FrameRef \<times> i64 option) list \<Rightarrow> ('re, 'k) Client \<Rightarrow>
     ((ClientError + unit) list \<times> ('re, 'k) Client) option" where
  "client_calls is_match [] c = Some ([], c)"
| "client_calls is_match ((ou, frame, t) # calls) c =
     Option.bind (client_write is_match ou frame t c) (\<lambda>(r, c, _).
       map_option (\<lambda>(rs, c). (r # rs, c)) (client_calls is_match calls c))"

lemma client_calls_log:
  assumes "cl_transport c = TLog lw"
  shows "\<exists>rs writable lw' c'. log_calls calls (cl_writable c) lw = (rs, writable, lw') \<and>
    client_calls is_match calls c = Some (rs, c') \<and> cl_transport c' = TLog lw' \<and> cl_writable c' = writable"
  using assms
proof (induction calls arbitrary: c lw)
  case Nil then show ?case by simp
next
  case (Cons call calls)
  obtain ou f t where call: "call = (ou, f, t)" by (cases call)
  obtain r writable lw1 where w: "log_write ou f t (cl_writable c) lw = (r, writable, lw1)" by (cases "log_write ou f t (cl_writable c) lw") auto
  let ?c = "if cl_writable c then c\<lparr>cl_transport := TLog lw1, cl_writable := writable\<rparr> else c"
  have c: "client_write is_match ou f t c = Some (r, ?c, [])" "cl_transport ?c = TLog lw1" "cl_writable ?c = writable"
  proof -
    have dead: "r = Inl ConnectionClosed \<and> \<not> writable \<and> lw1 = lw" if "\<not> cl_writable c"
      using w that by (simp add: log_write_def)
    have live: "log_write ou f t True lw = (r, writable, lw1)" if "cl_writable c" using w that by simp
    show "client_write is_match ou f t c = Some (r, ?c, [])" using Cons.prems dead live
      by (cases "cl_writable c") (simp_all add: client_write_def)
    show "cl_transport ?c = TLog lw1" "cl_writable ?c = writable" using Cons.prems dead by simp_all
  qed
  from Cons.IH [OF c(2)] w show ?case by (auto simp: call c)
qed

end
