(* ===== verification/Agreement.thy ===== *)
theory Agreement
  imports ClientOps
begin

text \<open>
  A client of a relay changes its subscriptions, and the frames it is let put on the wire for that change those
  the relay keeps for it: after any calls, whatever refused some of them, the two select the same channels.
\<close>

section \<open>A client and its relay hold the same subscriptions\<close>

text \<open>The regex engine takes an escaped name for the name.\<close>

definition literal :: "(string \<Rightarrow> string + 're) \<Rightarrow> ('re \<Rightarrow> string \<Rightarrow> bool option) \<Rightarrow> bool" where
  "literal compile is_match \<longleftrightarrow> (\<forall>name. check_channel name NAME_MAX = Inr () \<longrightarrow>
     (\<exists>x. compile (anchored (escaped name)) = Inr x \<and> (\<forall>ch. is_match x ch = Some (ch = name))))"

fun rule_sound :: "(string \<Rightarrow> string + 're) \<Rightarrow> 're Rule \<Rightarrow> bool" where
  "rule_sound compile (Name name) \<longleftrightarrow> check_channel name NAME_MAX = Inr ()"
| "rule_sound compile (Pattern t x) \<longleftrightarrow> compile (anchored t) = Inr x"

definition told_text :: "(string \<Rightarrow> string + 're) \<Rightarrow> ('re \<Rightarrow> string \<Rightarrow> bool option) \<Rightarrow> string \<Rightarrow> string \<Rightarrow> bool" where
  "told_text compile is_match ch t \<longleftrightarrow> (\<exists>x. compile (anchored t) = Inr x \<and> is_match x ch = Some True)"

lemma selects_told:
  "literal compile is_match \<Longrightarrow> rule_sound compile r \<Longrightarrow>
    selects is_match ch r \<longleftrightarrow> told_text compile is_match ch (rule_for_a_relay r)"
  by (cases r) (force simp: literal_def told_text_def)+

text \<open>What a relay makes of a request to change the subscriptions of a peer.\<close>

definition told_by :: "(string \<Rightarrow> string + 're) \<Rightarrow> 're Subscriptions \<Rightarrow> Request \<Rightarrow> 're Subscriptions" where
  "told_by compile subs q =
     (case q of
        Subscribe t \<Rightarrow> (case add_pattern compile subs t of Inl _ \<Rightarrow> subs | Inr subs' \<Rightarrow> subs')
      | Unsubscribe t \<Rightarrow> snd (remove_rule subs t)
      | Publish f \<Rightarrow> subs)"

definition is_control :: "Request \<Rightarrow> bool" where
  "is_control q \<longleftrightarrow> (case q of Publish f \<Rightarrow> False | _ \<Rightarrow> True)"

lemma peer_items_told:
  assumes "sv_store s i = Some p" and "\<forall>q \<in> set qs. is_control q" and "length ns = length qs"
  shows "\<exists>p'. sv_store (handle_all (peer_item compile is_match woken now i) skip ns (map Some qs) s) i = Some p' \<and>
    pe_subscriptions p' = foldl (told_by compile) (pe_subscriptions p) qs"
  using assms
proof (induction qs arbitrary: s p ns)
  case Nil then show ?case by simp
next
  case (Cons q qs)
  from Cons.prems(3) obtain n ns' where ns: "ns = n # ns'" "length ns' = length qs" by (cases ns) auto
  have "\<exists>p1. sv_store (peer_item compile is_match woken now i n q s) i = Some p1 \<and> pe_subscriptions p1 = told_by compile (pe_subscriptions p) q"
    using Cons.prems(1,2) by (cases q) (auto simp: peer_item_def told_by_def is_control_def split: sum.splits)
  then obtain p1 where "sv_store (peer_item compile is_match woken now i n q s) i = Some p1"
    "pe_subscriptions p1 = told_by compile (pe_subscriptions p) q" by blast
  with Cons.IH [OF this(1) _ ns(2)] Cons.prems(2) ns show ?case by simp
qed

text \<open>A relay rule is a pattern of the text it was told.\<close>

definition relay_rules :: "(string \<Rightarrow> string + 're) \<Rightarrow> 're Subscriptions \<Rightarrow> bool" where
  "relay_rules compile subs \<longleftrightarrow> (\<forall>r \<in> set (su_rules subs). rule_sound compile r \<and> rule_for_a_relay r = rule_text r)"

definition in_step :: "(string \<Rightarrow> string + 're) \<Rightarrow> 're Subscriptions \<Rightarrow> 're Subscriptions \<Rightarrow> bool" where
  "in_step compile client relay \<longleftrightarrow> agrees client relay \<and> (\<forall>r \<in> set (su_rules client). rule_sound compile r) \<and> relay_rules compile relay"

lemma in_step_same:
  assumes "literal compile is_match" and "in_step compile client relay"
  shows "list_ex (selects is_match ch) (su_rules relay) = list_ex (selects is_match ch) (su_rules client)"
proof -
  have told: "list_ex (selects is_match ch) (su_rules subs) \<longleftrightarrow>
      (\<exists>t \<in># mset (map rule_for_a_relay (su_rules subs)). told_text compile is_match ch t)"
    if "\<forall>r \<in> set (su_rules subs). rule_sound compile r" for subs
    using selects_told [OF assms(1)] that by (auto simp: list_ex_iff)
  have texts: "map rule_for_a_relay (su_rules relay) = map rule_text (su_rules relay)"
    using assms(2) by (simp add: in_step_def relay_rules_def)
  have same: "mset (map rule_for_a_relay (su_rules relay)) = mset (map rule_for_a_relay (su_rules client))"
    unfolding texts using assms(2) by (simp add: in_step_def agrees_def for_a_relay_def del: mset_map)
  have sound: "\<forall>r \<in> set (su_rules relay). rule_sound compile r" "\<forall>r \<in> set (su_rules client). rule_sound compile r"
    using assms(2) by (simp_all add: in_step_def relay_rules_def)
  show ?thesis unfolding told [OF sound(1)] told [OF sound(2)] same ..
qed

lemma told_subscribe:
  assumes "literal compile is_match" and "in_step compile client relay" and "rule_sound compile r"
  shows "in_step compile (push client r) (told_by compile relay (Subscribe (rule_for_a_relay r)))"
proof -
  have "\<exists>x. compile (anchored (rule_for_a_relay r)) = Inr x"
  proof (cases r)
    case (Name name)
    with assms(1,3) show ?thesis unfolding literal_def by auto
  next
    case (Pattern t x) with assms(3) show ?thesis by simp
  qed
  then obtain x where x: "compile (anchored (rule_for_a_relay r)) = Inr x" by blast
  let ?p = "Pattern (rule_for_a_relay r) x"
  have "told_by compile relay (Subscribe (rule_for_a_relay r)) = push relay ?p"
    by (simp add: told_by_def add_pattern_def check_pattern_def x)
  moreover have "agrees (push client r) (push relay ?p)"
    using assms(2) by (intro agrees_push) (simp_all add: in_step_def)
  ultimately show ?thesis using assms(2,3) x by (auto simp: in_step_def relay_rules_def push_def)
qed

lemma told_unsubscribe:
  assumes "in_step compile client relay" and rem: "remove_rule client sub = (Some held, client')"
  shows "in_step compile client' (told_by compile relay (Unsubscribe held))"
proof -
  have ag: "agrees client relay" using assms(1) by (simp add: in_step_def)
  from agrees_remove [OF ag rem] obtain told' relay' where
    r: "remove_rule relay held = (Some told', relay')" and ag': "agrees client' relay'" by blast
  from r have sub: "set (su_rules relay') \<subseteq> set (su_rules relay)" by (rule remove_rule_Some) auto
  from rem have sub': "set (su_rules client') \<subseteq> set (su_rules client)" by (rule remove_rule_Some) auto
  from ag' sub sub' assms(1) r show ?thesis by (auto simp: in_step_def relay_rules_def told_by_def)
qed

text \<open>The calls of a client of a relay that change its subscriptions.\<close>

datatype SubCall = ByName string | ByPattern string | Without string

definition sub_call ::
    "(string \<Rightarrow> string + 're) \<Rightarrow> Outside \<Rightarrow> SubCall \<Rightarrow> ('re, 'k) Client \<Rightarrow> ('re, 'k) Client \<times> bytes list" where
  "sub_call compile ou call c =
     (case call of
        ByName ch \<Rightarrow> snd (subscribe_name ou ch c)
      | ByPattern pattern \<Rightarrow> snd (subscribe_pattern compile ou pattern c)
      | Without sub \<Rightarrow> snd (unsubscribe_from ou sub c))"

fun sub_calls ::
    "(string \<Rightarrow> string + 're) \<Rightarrow> (Outside \<times> SubCall) list \<Rightarrow> ('re, 'k) Client \<Rightarrow> ('re, 'k) Client \<times> bytes list" where
  "sub_calls compile [] c = (c, [])"
| "sub_calls compile ((ou, call) # calls) c =
     (let (c, told) = sub_call compile ou call c; (c, told') = sub_calls compile calls c in (c, told @ told'))"

definition dials :: "('re, 'k) Client \<Rightarrow> bool" where
  "dials c \<longleftrightarrow> (\<exists>q. cl_transport c = TTcpq q)"

lemma dials_held [simp]:
  "dials c \<Longrightarrow> held_subscriptions c = cl_subscriptions c"
  "dials c \<Longrightarrow> hold_subscriptions subs c = c\<lparr>cl_subscriptions := subs\<rparr>"
  "dials c \<Longrightarrow> dials (c\<lparr>cl_subscriptions := subs\<rparr>)"
  by (auto simp: dials_def held_subscriptions_def hold_subscriptions_def)

lemma tell_relay_dials:
  assumes "dials c" and "tell_relay ou bytes c = (r, c', told)"
  shows "dials c' \<and> cl_subscriptions c' = cl_subscriptions c \<and> told = (case r of Inr _ \<Rightarrow> [bytes] | Inl _ \<Rightarrow> [])"
proof (cases "cl_writable c")
  case True
  obtain q where q: "cl_transport c = TTcpq q" using assms(1) by (auto simp: dials_def)
  obtain q' answer where w: "control_wait (ou_woken ou) q bytes = (q', answer)" by (cases "control_wait (ou_woken ou) q bytes")
  have "r = refused answer" "c' = c\<lparr>cl_transport := TTcpq q'\<rparr>" "told = (case answer of Inr _ \<Rightarrow> [bytes] | Inl _ \<Rightarrow> [])"
    using assms(2) by (simp_all add: tell_relay_def True q w)
  then show ?thesis by (cases answer rule: refused.cases) (simp_all add: dials_def)
next
  case False with assms show ?thesis by (auto simp: tell_relay_def)
qed

definition requests_of :: "Request list \<Rightarrow> bytes list \<Rightarrow> bool" where
  "requests_of qs told \<longleftrightarrow> list_all2 (\<lambda>q bs. is_control q \<and> request_bytes q = Inr bs) qs told"

lemma requests_of_simps [simp]:
  "requests_of [] []" "requests_of [q] [bs] \<longleftrightarrow> is_control q \<and> request_bytes q = Inr bs"
  by (simp_all add: requests_of_def)

lemma subscribe_in_step:
  assumes lit: "literal compile is_match" and step: "in_step compile (cl_subscriptions c) relay" and "dials c"
    and call: "subscribe_with ou checked (subscribe t) c = (r, c', told)"
    and checked: "\<And>rule. checked = Inr rule \<Longrightarrow> rule_sound compile rule \<and> rule_for_a_relay rule = t"
  shows "\<exists>qs. requests_of qs told \<and> in_step compile (cl_subscriptions c') (foldl (told_by compile) relay qs) \<and> dials c'"
proof (cases "cl_receives c")
  case True
  show ?thesis
  proof (cases checked)
    case (Inl e)
    with call True step assms(3) show ?thesis by (auto simp: subscribe_with_def must_receive_def intro: exI [of _ "[]"])
  next
    case (Inr rule)
    obtain answer c1 told1 where tell: "tell_relay ou (subscribe t) c = (answer, c1, told1)" by (cases "tell_relay ou (subscribe t) c") auto
    note T = tell_relay_dials [OF assms(3) tell]
    show ?thesis
    proof (cases answer)
      case Inl
      with call True \<open>checked = Inr rule\<close> tell T step show ?thesis
        by (intro exI [of _ "[]"]) (auto simp: subscribe_with_def must_receive_def)
    next
      case Inr2: (Inr u)
      with call True \<open>checked = Inr rule\<close> tell T have c': "c' = c1\<lparr>cl_subscriptions := push (cl_subscriptions c) rule\<rparr>" "told = [subscribe t]"
        by (auto simp: subscribe_with_def must_receive_def)
      from told_subscribe [OF lit step, of rule] checked [OF Inr]
      have "in_step compile (push (cl_subscriptions c) rule) (told_by compile relay (Subscribe t))" by simp
      with c' T show ?thesis by (intro exI [of _ "[Subscribe t]"]) (simp add: is_control_def)
    qed
  qed
next
  case False
  with call step assms(3) show ?thesis by (auto simp: subscribe_with_def must_receive_def intro: exI [of _ "[]"])
qed

lemma unsubscribe_in_step:
  assumes step: "in_step compile (cl_subscriptions c) relay" and "dials c"
    and call: "unsubscribe_from ou sub c = (r, c', told)"
  shows "\<exists>qs. requests_of qs told \<and> in_step compile (cl_subscriptions c') (foldl (told_by compile) relay qs) \<and> dials c'"
proof (cases "cl_receives c \<and> find_rule (cl_subscriptions c) sub \<noteq> None")
  case True
  then obtain held where held: "find_rule (cl_subscriptions c) sub = Some held" by auto
  obtain answer c1 told1 where tell: "tell_relay ou (unsubscribe held) c = (answer, c1, told1)" by (cases "tell_relay ou (unsubscribe held) c") auto
  note T = tell_relay_dials [OF assms(2) tell]
  show ?thesis
  proof (cases answer)
    case Inl
    with call True held tell T step assms(2) show ?thesis
      by (intro exI [of _ "[]"]) (auto simp: unsubscribe_from_def must_receive_def)
  next
    case (Inr u)
    obtain subs where rem: "remove_rule (cl_subscriptions c) sub = (Some held, subs)"
      using held by (cases "remove_rule (cl_subscriptions c) sub") (simp add: find_is_remove)
    from call True held tell T Inr assms(2) rem have c': "c' = c1\<lparr>cl_subscriptions := subs\<rparr>" "told = [unsubscribe held]"
      by (auto simp: unsubscribe_from_def must_receive_def)
    from told_unsubscribe [OF step rem] c' T show ?thesis
      by (intro exI [of _ "[Unsubscribe held]"]) (simp add: is_control_def)
  qed
next
  case False
  with call assms(2) have "c' = c \<and> told = []"
    by (cases "cl_receives c") (simp_all add: unsubscribe_from_def must_receive_def)
  with step assms(2) show ?thesis by (intro exI [of _ "[]"]) simp
qed

lemma check_name_Inr: "check_name ch = Inr r \<longleftrightarrow> r = Name ch \<and> check_channel ch NAME_MAX = Inr ()"
  by (auto simp: check_name_def split: sum.splits)

lemma check_pattern_Inr: "check_pattern compile t = Inr r \<longleftrightarrow> (\<exists>x. r = Pattern t x \<and> compile (anchored t) = Inr x)"
  by (auto simp: check_pattern_def split: sum.splits)

lemma sub_call_in_step:
  assumes "literal compile is_match" and "in_step compile (cl_subscriptions c) relay" and "dials c"
    and "sub_call compile ou call c = (c', told)"
  shows "\<exists>qs. requests_of qs told \<and> in_step compile (cl_subscriptions c') (foldl (told_by compile) relay qs) \<and> dials c'"
proof (cases call)
  case (ByName ch)
  obtain r where "subscribe_with ou (check_name ch) (subscribe (escaped ch)) c = (r, c', told)"
    using assms(4) by (cases "subscribe_name ou ch c") (auto simp: sub_call_def ByName subscribe_name_def)
  then show ?thesis by (rule subscribe_in_step [OF assms(1-3)]) (auto simp: check_name_Inr)
next
  case (ByPattern t)
  obtain r where "subscribe_with ou (check_pattern compile t) (subscribe t) c = (r, c', told)"
    using assms(4) by (cases "subscribe_pattern compile ou t c") (auto simp: sub_call_def ByPattern subscribe_pattern_def)
  then show ?thesis by (rule subscribe_in_step [OF assms(1-3)]) (auto simp: check_pattern_Inr)
next
  case (Without sub)
  obtain r where "unsubscribe_from ou sub c = (r, c', told)"
    using assms(4) by (cases "unsubscribe_from ou sub c") (auto simp: sub_call_def Without)
  then show ?thesis by (rule unsubscribe_in_step [OF assms(2,3)])
qed

lemma sub_calls_in_step:
  assumes "literal compile is_match" and "in_step compile (cl_subscriptions c) relay" and "dials c"
    and "sub_calls compile calls c = (c', told)"
  shows "\<exists>qs. requests_of qs told \<and> in_step compile (cl_subscriptions c') (foldl (told_by compile) relay qs) \<and> dials c'"
  using assms(2-4)
proof (induction calls arbitrary: c relay told)
  case Nil then show ?case by (auto intro: exI [of _ "[]"])
next
  case (Cons x calls)
  obtain ou call where x: "x = (ou, call)" by (cases x)
  obtain c1 told1 where 1: "sub_call compile ou call c = (c1, told1)" by (cases "sub_call compile ou call c")
  obtain told2 where 2: "sub_calls compile calls c1 = (c', told2)" "told = told1 @ told2"
    using Cons.prems(3) by (auto simp: x 1 split: prod.splits)
  from sub_call_in_step [OF assms(1) Cons.prems(1,2) 1] obtain qs1 where
    q1: "requests_of qs1 told1" "in_step compile (cl_subscriptions c1) (foldl (told_by compile) relay qs1)" "dials c1" by blast
  from Cons.IH [OF q1(2,3) 2(1)] obtain qs2 where
    "requests_of qs2 told2" "in_step compile (cl_subscriptions c') (foldl (told_by compile) (foldl (told_by compile) relay qs1) qs2)" "dials c'" by blast
  with q1(1) 2(2) show ?case
    by (intro exI [of _ "qs1 @ qs2"]) (auto simp: requests_of_def intro: list_all2_appendI)
qed

text \<open>The subscriptions a client is opened with, which it writes before any other frame.\<close>

lemma opening_in_step:
  assumes "literal compile is_match" and "\<forall>r \<in> set (su_rules subs). rule_sound compile r"
  shows "in_step compile subs (foldl (told_by compile) subscriptions_new (map Subscribe (for_a_relay subs)))"
proof -
  have "in_step compile (subs\<lparr>su_rules := rs\<rparr>)
      (foldl (told_by compile) subscriptions_new (map Subscribe (for_a_relay (subs\<lparr>su_rules := rs\<rparr>))))"
    if "\<forall>r \<in> set rs. rule_sound compile r" for rs
    using that
  proof (induction rs rule: rev_induct)
    case Nil then show ?case by (simp add: in_step_def agrees_def for_a_relay_def relay_rules_def subscriptions_new_def)
  next
    case (snoc r rs)
    then have "in_step compile (subs\<lparr>su_rules := rs\<rparr>)
      (foldl (told_by compile) subscriptions_new (map Subscribe (for_a_relay (subs\<lparr>su_rules := rs\<rparr>))))" by simp
    from told_subscribe [OF assms(1) this, of r] snoc.prems show ?case by (simp add: for_a_relay_def push_def)
  qed
  from this [of "su_rules subs"] assms(2) show ?thesis by simp
qed

section \<open>A name the relay will not read\<close>

text \<open>
  \<open>subscribe_name\<close> takes a name of up to 999 bytes, and \<open>escaped\<close> can double it, above the longest pattern
  \<open>decode_request\<close> reads. The call is answered \<open>Ok\<close>, and its frame ends the stream at the relay.
\<close>

lemma long_name_ends_stream:
  assumes "cl_transport c = TTcpq outbox_new" and "cl_receives c" and "cl_writable c"
  shows "fst (subscribe_name ou (replicate 600 CHR ''.'') c) = Inr ()"
    and "snd (snd (subscribe_name ou (replicate 600 CHR ''.'') c)) = [subscribe (escaped (replicate 600 CHR ''.''))]"
    and "decode_request (subscribe (escaped (replicate 600 CHR ''.'')) @ e) = Inl (ChannelTooLong 1200)"
proof -
  have "put_control_turn outbox_new frame late = (outbox_new\<lparr>qu_control_waiting := length frame + FRAME_COST,
      qu_control := [frame], qu_control_sent := let_in sent_new\<rparr>, Some (Inr ()))" for frame late
    by (simp add: put_control_turn_def outbox_new_def OUTBOX_CONTROL_BYTES_def)
  then have put: "\<exists>q. control_wait woken outbox_new frame = (q, Inr ())" for woken frame by (cases woken) simp_all
  have "(0::u8) \<notin> set (as_bytes (replicate n CHR ''.''))" for n by (simp add: as_bytes_def byte_of_char_def)
  then have name: "check_name (replicate 600 CHR ''.'') = Inr (Name (replicate 600 CHR ''.'') :: 'a Rule)"
    by (simp add: check_name_Inr check_channel_Inr_iff NAME_MAX_def)
  from put [of "ou_woken ou" "subscribe (escaped (replicate 600 CHR ''.''))"] name assms
  show "fst (subscribe_name ou (replicate 600 CHR ''.'') c) = Inr ()"
    "snd (snd (subscribe_name ou (replicate 600 CHR ''.'') c)) = [subscribe (escaped (replicate 600 CHR ''.''))]"
    by (auto simp: subscribe_name_def subscribe_with_def must_receive_def tell_relay_def)
  have "CHR ''.'' \<in> set metachars" by (simp add: metachars_def)
  then have "length (escaped (replicate n CHR ''.'')) = 2 * n" for n
    by (induction n) (simp_all add: escaped_Cons escaped_def [of "[]"])
  then have "length (escaped (replicate 600 CHR ''.'')) = 1200" by simp
  then show "decode_request (subscribe (escaped (replicate 600 CHR ''.'')) @ e) = Inl (ChannelTooLong 1200)"
    using decode_request_too_long [of MESSAGE_TYPE_SUBSCRIBE "escaped (replicate 600 CHR ''.'')" e]
    by (simp add: subscribe_def CHANNEL_READ_MAX_def)
qed

end
