(* ===== verification/Opening.thy ===== *)
theory Opening
  imports Agreement
begin

text \<open>
  How a client dials a relay: the addresses of a name, each with its share of the time, the two greetings,
  and the subscriptions it opens with, all before one deadline. The clock is what it reads at each turn; a
  list of turns that is over stands for a clock past the deadline.
\<close>

section \<open>Bytes before a deadline\<close>

text \<open>A turn of \<open>write_by\<close>: the time, and what the write answers.\<close>

fun write_by :: "nat \<Rightarrow> (nat \<times> (IoError + nat)) list \<Rightarrow> bytes \<Rightarrow> IoError option \<times> bytes" where
  "write_by deadline turns [] = (None, [])"
| "write_by deadline [] rst = (Some TimedOut, [])"
| "write_by deadline ((at, answer) # turns) rst =
     (if deadline \<le> at then (Some TimedOut, [])
      else case answer of
          Inr 0 \<Rightarrow> (Some WriteZero, [])
        | Inr k \<Rightarrow> (let (failed, bs) = write_by deadline turns (drop k rst) in (failed, take k rst @ bs))
        | Inl e \<Rightarrow> if is_timeout e then write_by deadline turns rst else (Some e, []))"

text \<open>\<open>read_by\<close> into so many bytes: what it read, and what is left of the socket.\<close>

fun read_by :: "nat \<Rightarrow> nat list \<Rightarrow> script \<Rightarrow> nat \<Rightarrow> (IoError + bytes) \<times> script" where
  "read_by deadline ats script 0 = (Inr [], script)"
| "read_by deadline [] script (Suc n) = (Inl TimedOut, script)"
| "read_by deadline (at # ats) script (Suc n) =
     (if deadline \<le> at then (Inl TimedOut, script)
      else case read_once (Suc n) script of
          (Inr [], script') \<Rightarrow> (Inl UnexpectedEof, script')
        | (Inr bs, script') \<Rightarrow>
            (let (r, left) = read_by deadline ats script' (Suc n - length bs) in
             (and_then r (\<lambda>more. Inr (bs @ more)), left))
        | (Inl e, script') \<Rightarrow> if is_timeout e then read_by deadline ats script' (Suc n) else (Inl e, script'))"

section \<open>The addresses\<close>

text \<open>\<open>clock i\<close> is the time at which the address \<open>i\<close> is tried, and \<open>connect i share\<close> what that gives.\<close>

definition share_of :: "nat \<Rightarrow> (nat \<Rightarrow> nat) \<Rightarrow> nat \<Rightarrow> nat \<Rightarrow> nat" where
  "share_of deadline clock addrs i = (deadline - clock i) div (addrs - i)"

fun connect_from ::
    "nat \<Rightarrow> (nat \<Rightarrow> nat) \<Rightarrow> (nat \<Rightarrow> nat \<Rightarrow> IoError + 's) \<Rightarrow> nat \<Rightarrow> nat \<Rightarrow> nat \<Rightarrow> IoError option \<Rightarrow> IoError + 's" where
  "connect_from deadline clock connect addrs i 0 refusal = Inl (case refusal of Some e \<Rightarrow> e | None \<Rightarrow> TimedOut)"
| "connect_from deadline clock connect addrs i (Suc n) refusal =
     (let share = share_of deadline clock addrs i in
      if share = 0 then Inl (case refusal of Some e \<Rightarrow> e | None \<Rightarrow> TimedOut)
      else case connect i share of
          Inr stream \<Rightarrow> Inr stream
        | Inl e \<Rightarrow> connect_from deadline clock connect addrs (i + 1) n (Some e))"

definition connect_within :: "nat \<Rightarrow> (nat \<Rightarrow> nat) \<Rightarrow> (nat \<Rightarrow> nat \<Rightarrow> IoError + 's) \<Rightarrow> nat \<Rightarrow> IoError + 's" where
  "connect_within deadline clock connect addrs = connect_from deadline clock connect addrs 0 addrs None"

section \<open>The opening\<close>

text \<open>The writes of the opening subscriptions, one after the other.\<close>

fun write_patterns :: "nat \<Rightarrow> (nat \<times> (IoError + nat)) list list \<Rightarrow> string list \<Rightarrow> IoError option \<times> bytes" where
  "write_patterns deadline turns [] = (None, [])"
| "write_patterns deadline [] (pattern # rst) = (Some TimedOut, [])"
| "write_patterns deadline (ts # turns) (pattern # rst) =
     (case write_by deadline ts (subscribe pattern) of
        (Some e, bs) \<Rightarrow> (Some e, bs)
      | (None, bs) \<Rightarrow> (let (failed, bs') = write_patterns deadline turns rst in (failed, bs @ bs')))"

text \<open>\<open>open_tcpq\<close> from the connection to the start of the threads: the failure if any, the bytes written,
  and what is left of the socket. \<open>poll\<close> is the error of the change of the read timeout, if it fails.\<close>

definition open_relay ::
    "nat \<Rightarrow> (nat \<times> (IoError + nat)) list \<Rightarrow> nat list \<Rightarrow> IoError option \<Rightarrow> (nat \<times> (IoError + nat)) list list \<Rightarrow> script \<Rightarrow>
     're Subscriptions \<Rightarrow> (ClientError + script) \<times> bytes" where
  "open_relay deadline hello_turns ats poll turns script subs =
     (case write_by deadline hello_turns handshake of
        (Some e, bs) \<Rightarrow> (Inl (IoFailed e), bs)
      | (None, bs) \<Rightarrow>
          (case read_by deadline ats script 8 of
             (Inl e, _) \<Rightarrow> (Inl (IoFailed e), bs)
           | (Inr reply, left) \<Rightarrow>
               (case check_handshake reply of
                  Inl e \<Rightarrow> (Inl (HandshakeFailed e), bs)
                | Inr _ \<Rightarrow>
                    (case poll of
                       Some e \<Rightarrow> (Inl (IoFailed e), bs)
                     | None \<Rightarrow>
                         (case write_patterns deadline turns (for_a_relay subs) of
                            (Some e, bs') \<Rightarrow> (Inl (IoFailed e), bs @ bs')
                          | (None, bs') \<Rightarrow> (Inr left, bs @ bs'))))))"

section \<open>What they do\<close>

lemma write_by_bytes: "write_by deadline turns rst = (failed, bs) \<Longrightarrow> \<exists>left. rst = bs @ left \<and> (failed = None \<longleftrightarrow> left = [])"
proof (induction deadline turns rst arbitrary: bs rule: write_by.induct)
  case (3 deadline at answer turns b bs0)
  let ?r = "b # bs0"
  show ?case
  proof (cases "deadline \<le> at")
    case True with 3(3) show ?thesis by auto
  next
    case late: False
    show ?thesis
    proof (cases answer)
      case (Inl e)
      with 3(1) [OF late Inl] 3(3) late show ?thesis by (cases "is_timeout e") auto
    next
      case (Inr k)
      show ?thesis
      proof (cases k)
        case 0 with 3(3) late Inr show ?thesis by auto
      next
        case (Suc j)
        obtain bs1 where 1: "write_by deadline turns (drop k ?r) = (failed, bs1)" "bs = take k ?r @ bs1"
          using 3(3) late Inr Suc by (auto simp del: take_Suc_Cons drop_Suc_Cons split: prod.splits)
        from 3(2) [OF late Inr Suc] 1(1) Suc obtain left where "drop k ?r = bs1 @ left" "failed = None \<longleftrightarrow> left = []" by blast
        with 1(2) show ?thesis by (metis append.assoc append_take_drop_id)
      qed
    qed
  qed
qed auto

lemma write_patterns_bytes:
  "write_patterns deadline turns ps = (None, bs) \<Longrightarrow> bs = concat (map subscribe ps)"
proof (induction deadline turns ps arbitrary: bs rule: write_patterns.induct)
  case (3 deadline ts turns p rst)
  obtain failed bs1 where w: "write_by deadline ts (subscribe p) = (failed, bs1)" by (cases "write_by deadline ts (subscribe p)")
  with 3(2) have none: "failed = None" by (auto split: option.splits)
  with write_by_bytes [OF w] have "bs1 = subscribe p" by simp
  moreover obtain bs2 where "write_patterns deadline turns rst = (None, bs2)" "bs = bs1 @ bs2"
    using 3(2) w none by (auto split: prod.splits)
  ultimately show ?case using 3(1) [OF w [symmetric] none] by simp
qed simp_all

lemma read_by_bytes:
  "read_by deadline ats script n = (Inr bs, left) \<Longrightarrow> script_ok script \<Longrightarrow>
    length bs = n \<and> script_bytes script = bs @ script_bytes left \<and> script_ok left"
proof (induction deadline ats script n arbitrary: bs rule: read_by.induct)
  case (3 deadline at ats script n)
  have early: "\<not> deadline \<le> at" using 3(3) by (auto split: if_splits)
  obtain r script' where r: "read_once (Suc n) script = (r, script')" by (cases "read_once (Suc n) script")
  have B: "case read_once (Suc n) script of
      (Inl e, script') \<Rightarrow> script_ok script' \<and> script_bytes script' = script_bytes script \<and>
        script_size script' < script_size script \<and> SError e \<in> set script
    | (Inr bs, script') \<Rightarrow> script_ok script' \<and> bs @ script_bytes script' = script_bytes script \<and>
        (if bs = [] then script = [] else script_size script' + length bs \<le> script_size script)"
    by (rule read_once_bytes [OF 3(4)]) simp
  show ?case
  proof (cases r)
    case (Inl e)
    with 3(3) early r have "is_timeout e" "read_by deadline ats script' (Suc n) = (Inr bs, left)" by (auto split: if_splits)
    with 3(1) [OF early r [symmetric] Inl] B r Inl show ?thesis by auto
  next
    case (Inr bs1)
    with 3(3) early r have ne: "bs1 \<noteq> []" by auto
    have short: "length bs1 \<le> Suc n" using r Inr by (cases script rule: script_bytes.cases) auto
    obtain b bs1' where bs1: "bs1 = b # bs1'" using ne by (cases bs1) auto
    obtain r2 left2 where r2: "read_by deadline ats script' (Suc n - length bs1) = (r2, left2)" by (cases "read_by deadline ats script' (Suc n - length bs1)")
    with 3(3) early r Inr bs1 obtain bs2 where 2: "r2 = Inr bs2" "bs = bs1 @ bs2" "left2 = left"
      by (cases r2) auto
    have "script_ok script'" "bs1 @ script_bytes script' = script_bytes script" using B r Inr ne by simp_all
    with 3(2) [OF early r [symmetric] Inr bs1, of bs2] r2 2 bs1 short show ?thesis by auto
  qed
qed auto

text \<open>The share of an address is no less than that of the one before it, where a try ends with its share.\<close>

lemma share_grows:
  assumes "clock (i + 1) \<le> clock i + share_of deadline clock addrs i" and "i + 1 < addrs"
  shows "share_of deadline clock addrs i \<le> share_of deadline clock addrs (i + 1)"
proof -
  define k where "k = addrs - (i + 1)"
  have k: "addrs - i = Suc k" "0 < k" using assms(2) by (simp_all add: k_def)
  define l s where "l = deadline - clock i" and "s = share_of deadline clock addrs i"
  have s: "s = l div Suc k" by (simp add: s_def l_def share_of_def k(1))
  then have "s * Suc k \<le> l" by (metis div_times_less_eq_dividend)
  then have "s * k \<le> l - s" by (simp add: algebra_simps)
  also have "\<dots> \<le> deadline - clock (i + 1)" using assms(1) by (simp add: l_def s_def)
  finally have "s \<le> (deadline - clock (i + 1)) div k" using k(2) by (simp add: less_eq_div_iff_mult_less_eq)
  then show ?thesis by (simp add: s_def share_of_def k_def)
qed

lemma share_first:
  assumes "\<forall>j. clock (j + 1) \<le> clock j + share_of deadline clock addrs j" and "i < addrs"
  shows "share_of deadline clock addrs 0 \<le> share_of deadline clock addrs i"
  using assms(2)
proof (induction i)
  case (Suc i)
  then have "share_of deadline clock addrs 0 \<le> share_of deadline clock addrs i" by simp
  also have "\<dots> \<le> share_of deadline clock addrs (Suc i)"
    using share_grows [of clock i deadline addrs] assms(1) Suc.prems by simp
  finally show ?case .
qed simp

lemma connect_from_reaches:
  assumes "\<forall>j < k. \<forall>share. \<exists>e. connect j share = Inl e" and "\<forall>share \<ge> first. connect k share = Inr stream"
    and "\<forall>j < addrs. first \<le> share_of deadline clock addrs j" and "0 < first" and "k < addrs"
  shows "i \<le> k \<Longrightarrow> i + n = addrs \<Longrightarrow> connect_from deadline clock connect addrs i n refusal = Inr stream"
proof (induction n arbitrary: i refusal)
  case 0 with assms(5) show ?case by simp
next
  case (Suc n)
  have first: "first \<le> share_of deadline clock addrs i" using assms(3) Suc.prems by simp
  show ?case
  proof (cases "i = k")
    case True
    with first assms(2,4) show ?thesis by (simp add: Let_def)
  next
    case False
    with Suc.prems assms(1) obtain e where "connect i (share_of deadline clock addrs i) = Inl e" by (metis le_neq_implies_less)
    with Suc.IH [of "i + 1" "Some e"] Suc.prems False first assms(4) show ?thesis by (simp add: Let_def)
  qed
qed

lemma open_relay_wire:
  assumes "open_relay deadline hello_turns ats poll turns script subs = (Inr left, wire)" and "script_ok script"
  shows "wire = handshake @ concat (map subscribe (for_a_relay subs)) \<and>
    (\<exists>reply v. check_handshake reply = Inr v \<and> length reply = 8 \<and> script_bytes script = reply @ script_bytes left) \<and> script_ok left"
proof -
  obtain f1 bs1 where w: "write_by deadline hello_turns handshake = (f1, bs1)" by (cases "write_by deadline hello_turns handshake")
  obtain r left1 where r: "read_by deadline ats script 8 = (r, left1)" by (cases "read_by deadline ats script 8")
  obtain f2 bs2 where p: "write_patterns deadline turns (for_a_relay subs) = (f2, bs2)"
    by (cases "write_patterns deadline turns (for_a_relay subs)")
  from assms(1) w r p obtain reply v where o: "f1 = None" "r = Inr reply" "check_handshake reply = Inr v" "f2 = None"
    "left1 = left" "wire = bs1 @ bs2"
    by (auto simp: open_relay_def split: option.splits sum.splits)
  have "bs1 = handshake" using write_by_bytes [OF w] o(1) by simp
  moreover have "bs2 = concat (map subscribe (for_a_relay subs))" using write_patterns_bytes p o(4) by blast
  ultimately show ?thesis using o read_by_bytes [of deadline ats script 8 reply left] r assms(2) by auto
qed

end
