(* ===== verification/Deliveries.thy ===== *)
theory Deliveries
  imports ClientReaders
begin

text \<open>
  The messages of a client through a channel: the bounded channel of the standard library, the handler
  \<open>ToChannel\<close> that puts each delivery into it without waiting and counts what it cannot take, and
  \<open>Deliveries\<close>, from which the caller reads. The reader thread, the caller and the end of the client
  interleave in any order.
\<close>

section \<open>The channel\<close>

text \<open>\<open>sync_channel\<close>: what it holds, the most of it, and whether either end is still there; and the count
  that \<open>ToChannel\<close> and \<open>Deliveries\<close> share.\<close>

record 'a Channel =
  cn_bound :: nat
  cn_held :: "'a list"
  cn_sender :: bool
  cn_receiver :: bool
  cn_dropped :: nat

definition DEEPEST_CHANNEL :: nat where "DEEPEST_CHANNEL = 2 ^ 20"

definition clamp :: "nat \<Rightarrow> nat \<Rightarrow> nat \<Rightarrow> nat" where
  "clamp lo hi x = (if x < lo then lo else if hi < x then hi else x)"

definition channel_new :: "nat \<Rightarrow> 'a Channel" where
  "channel_new depth = \<lparr>cn_bound = clamp 1 DEEPEST_CHANNEL depth, cn_held = [], cn_sender = True,
     cn_receiver = True, cn_dropped = 0\<rparr>"

datatype TrySendError = Full | NoReceiver
datatype TryRecvError = Nothing | NoSender

definition try_send :: "'a Channel \<Rightarrow> 'a \<Rightarrow> (TrySendError + unit) \<times> 'a Channel" where
  "try_send ch d =
     (if \<not> cn_receiver ch then (Inl NoReceiver, ch)
      else if cn_bound ch \<le> length (cn_held ch) then (Inl Full, ch)
      else (Inr (), ch\<lparr>cn_held := cn_held ch @ [d]\<rparr>))"

definition try_recv :: "'a Channel \<Rightarrow> (TryRecvError + 'a) \<times> 'a Channel" where
  "try_recv ch =
     (case cn_held ch of
        d # ds \<Rightarrow> (Inr d, ch\<lparr>cn_held := ds\<rparr>)
      | [] \<Rightarrow> (Inl (if cn_sender ch then Nothing else NoSender), ch))"

text \<open>\<open>ToChannel::on_delivery\<close>.\<close>

definition to_channel :: "'a Channel \<Rightarrow> 'a \<Rightarrow> 'a Channel" where
  "to_channel ch d =
     (case try_send ch d of
        (Inl _, ch') \<Rightarrow> ch'\<lparr>cn_dropped := cn_dropped ch' + 1\<rparr>
      | (Inr _, ch') \<Rightarrow> ch')"

text \<open>The two ends going away: the client, with its reader and the handler; and \<open>Deliveries\<close>, with what
  the channel held.\<close>

definition drop_sender :: "'a Channel \<Rightarrow> 'a Channel" where
  "drop_sender ch = ch\<lparr>cn_sender := False\<rparr>"

definition drop_receiver :: "'a Channel \<Rightarrow> 'a Channel" where
  "drop_receiver ch = ch\<lparr>cn_receiver := False, cn_held := []\<rparr>"

text \<open>A receive that waits, by what happens to the channel each time it wakes. Where that list ends
  \<open>recv_timeout\<close> has timed out, which is \<open>Nothing\<close>, and \<open>recv\<close> waits on.\<close>

fun recv_wait :: "('a Channel \<Rightarrow> 'a Channel) list \<Rightarrow> 'a Channel \<Rightarrow> (TryRecvError + 'a) \<times> 'a Channel" where
  "recv_wait [] ch = try_recv ch"
| "recv_wait (meanwhile # rst) ch =
     (case try_recv ch of
        (Inl Nothing, ch') \<Rightarrow> recv_wait rst (meanwhile ch')
      | (r, ch') \<Rightarrow> (r, ch'))"

text \<open>\<open>Iterator::next\<close> of \<open>Deliveries\<close>: \<open>None\<close> where it still waits, and \<open>Some None\<close> at the end.\<close>

definition deliveries_next :: "('a Channel \<Rightarrow> 'a Channel) list \<Rightarrow> 'a Channel \<Rightarrow> 'a option option \<times> 'a Channel" where
  "deliveries_next woken ch =
     (case recv_wait woken ch of
        (Inr d, ch') \<Rightarrow> (Some (Some d), ch')
      | (Inl NoSender, ch') \<Rightarrow> (Some None, ch')
      | (Inl Nothing, ch') \<Rightarrow> (None, ch'))"

section \<open>Interleavings\<close>

text \<open>The channel, and what an observer of both ends has seen: each delivery the handler was given, with
  whether the channel took it; what the caller read; what the channel held when the caller went; and whether
  some delivery came when the caller had gone, or was as many behind as the channel is deep.\<close>

record 'a ChannelWorld =
  cw_channel :: "'a Channel"
  cw_offered :: "('a \<times> bool) list"
  cw_taken :: "'a list"
  cw_left :: "'a list"
  cw_late :: bool

definition channel_world :: "nat \<Rightarrow> 'a ChannelWorld" where
  "channel_world depth = \<lparr>cw_channel = channel_new depth, cw_offered = [], cw_taken = [], cw_left = [], cw_late = False\<rparr>"

definition behind :: "'a ChannelWorld \<Rightarrow> bool" where
  "behind w \<longleftrightarrow> \<not> cn_receiver (cw_channel w) \<or> cn_bound (cw_channel w) \<le> length (cw_offered w) - length (cw_taken w)"

inductive channel_step :: "'a ChannelWorld \<Rightarrow> 'a ChannelWorld \<Rightarrow> bool" where
  offer: "cn_sender (cw_channel w) \<Longrightarrow>
    channel_step w (w\<lparr>cw_channel := to_channel (cw_channel w) d,
      cw_offered := cw_offered w @ [(d, cn_dropped (to_channel (cw_channel w) d) = cn_dropped (cw_channel w))],
      cw_late := cw_late w \<or> behind w\<rparr>)"
| read_one: "cn_receiver (cw_channel w) \<Longrightarrow> try_recv (cw_channel w) = (Inr d, ch) \<Longrightarrow>
    channel_step w (w\<lparr>cw_channel := ch, cw_taken := cw_taken w @ [d]\<rparr>)"
| client_stops: "channel_step w (w\<lparr>cw_channel := drop_sender (cw_channel w)\<rparr>)"
| caller_goes: "cn_receiver (cw_channel w) \<Longrightarrow>
    channel_step w (w\<lparr>cw_channel := drop_receiver (cw_channel w), cw_left := cn_held (cw_channel w)\<rparr>)"

abbreviation channel_run :: "'a ChannelWorld \<Rightarrow> 'a ChannelWorld \<Rightarrow> bool" where
  "channel_run \<equiv> rtranclp channel_step"

definition kept :: "('a \<times> bool) list \<Rightarrow> 'a list" where
  "kept offered = map fst (filter snd offered)"

definition missed :: "('a \<times> bool) list \<Rightarrow> 'a list" where
  "missed offered = map fst (filter (Not \<circ> snd) offered)"

lemma kept_simps [simp]:
  "kept [] = []" "kept (xs @ ys) = kept xs @ kept ys" "kept [(d, b)] = (if b then [d] else [])"
  "missed [] = []" "missed (xs @ ys) = missed xs @ missed ys" "missed [(d, b)] = (if b then [] else [d])"
  by (simp_all add: kept_def missed_def)

lemma kept_missed: "length (kept offered) + length (missed offered) = length offered"
  by (simp add: kept_def missed_def sum_length_filter_compl comp_def)

lemma missed_none: "missed offered = [] \<Longrightarrow> kept offered = map fst offered"
  by (simp add: kept_def missed_def filter_empty_conv filter_id_conv)

text \<open>Nothing is given twice, out of order or uncounted; and while the caller keeps up, nothing is lost.\<close>

definition channel_ok :: "nat \<Rightarrow> 'a ChannelWorld \<Rightarrow> bool" where
  "channel_ok depth w \<longleftrightarrow>
     (let ch = cw_channel w in
      cn_bound ch = clamp 1 DEEPEST_CHANNEL depth \<and> length (cn_held ch) \<le> cn_bound ch \<and>
      cw_taken w @ cn_held ch @ cw_left w = kept (cw_offered w) \<and>
      cn_dropped ch = length (missed (cw_offered w)) \<and>
      (if cn_receiver ch then cw_left w = [] else cn_held ch = []) \<and>
      (\<not> cw_late w \<longrightarrow> missed (cw_offered w) = []))"

lemma channel_ok_new: "channel_ok depth (channel_world depth)"
  by (simp add: channel_ok_def channel_world_def channel_new_def Let_def)

lemma to_channel_cases:
  "to_channel ch d =
     (if cn_receiver ch \<and> length (cn_held ch) < cn_bound ch then ch\<lparr>cn_held := cn_held ch @ [d]\<rparr>
      else ch\<lparr>cn_dropped := cn_dropped ch + 1\<rparr>)"
  by (simp add: to_channel_def try_send_def)

lemma channel_step_ok:
  assumes "channel_step w w'" and ok: "channel_ok depth w"
  shows "channel_ok depth w'"
  using assms(1)
proof cases
  case (offer d)
  let ?ch = "cw_channel w"
  show ?thesis
  proof (cases "cn_receiver ?ch \<and> length (cn_held ?ch) < cn_bound ?ch")
    case True
    with ok offer show ?thesis by (auto simp: channel_ok_def Let_def to_channel_cases)
  next
    case False
    have "behind w" if "\<not> cw_late w"
    proof (rule ccontr)
      assume "\<not> behind w"
      then have r: "cn_receiver ?ch" "length (cw_offered w) - length (cw_taken w) < cn_bound ?ch" by (simp_all add: behind_def)
      from ok that have "missed (cw_offered w) = []" by (simp add: channel_ok_def Let_def)
      with kept_missed [of "cw_offered w"] have "length (kept (cw_offered w)) = length (cw_offered w)" by simp
      moreover from ok r(1) have "cw_taken w @ cn_held ?ch = kept (cw_offered w)" by (auto simp: channel_ok_def Let_def)
      from arg_cong [OF this, of length] have "length (cw_taken w) + length (cn_held ?ch) = length (kept (cw_offered w))" by simp
      ultimately show False using r False by simp
    qed
    with ok offer False show ?thesis by (auto simp: channel_ok_def Let_def to_channel_cases)
  qed
next
  case (read_one d ch)
  with ok show ?thesis by (auto simp: channel_ok_def Let_def try_recv_def split: list.splits)
qed (use ok in \<open>auto simp: channel_ok_def Let_def drop_sender_def drop_receiver_def\<close>)

interpretation channels: step_invariant channel_step "channel_ok depth"
  by unfold_locales (rule channel_step_ok)

lemmas channel_run_ok = channels.run_keeps

section \<open>The end\<close>

text \<open>The loop of a caller over \<open>Deliveries\<close>, so many turns of it, with what happens in each.\<close>

fun deliveries_loop :: "('a Channel \<Rightarrow> 'a Channel) list list \<Rightarrow> 'a Channel \<Rightarrow> 'a list \<times> bool \<times> 'a Channel" where
  "deliveries_loop [] ch = ([], False, ch)"
| "deliveries_loop (woken # turns) ch =
     (case deliveries_next woken ch of
        (Some (Some d), ch') \<Rightarrow> (let (ds, over, ch'') = deliveries_loop turns ch' in (d # ds, over, ch''))
      | (Some None, ch') \<Rightarrow> ([], True, ch')
      | (None, ch') \<Rightarrow> ([], False, ch'))"

text \<open>Once the client has stopped, the loop gives what the channel held, in order, and ends; no turn waits.\<close>

lemma recv_stopped: "\<not> cn_sender ch \<Longrightarrow> recv_wait woken ch = try_recv ch"
  by (cases woken) (simp_all add: try_recv_def split: list.splits)

lemma deliveries_loop_ends:
  "\<not> cn_sender ch \<Longrightarrow> length (cn_held ch) < length turns \<Longrightarrow>
    deliveries_loop turns ch = (cn_held ch, True, ch\<lparr>cn_held := []\<rparr>)"
proof (induction turns arbitrary: ch)
  case (Cons woken turns)
  show ?case
  proof (cases "cn_held ch")
    case Nil
    with Cons.prems show ?thesis by (simp add: deliveries_next_def recv_stopped try_recv_def)
  next
    case (Cons d ds)
    with Cons.IH [of "ch\<lparr>cn_held := ds\<rparr>"] Cons.prems show ?thesis
      by (simp add: deliveries_next_def recv_stopped try_recv_def)
  qed
qed simp

text \<open>A receive wakes with the oldest message there is, whatever came in meanwhile.\<close>

lemma recv_wait_oldest:
  assumes "recv_wait woken ch = (Inr d, ch')"
  shows "\<exists>ch1. cn_held ch1 = d # cn_held ch' \<and> (cn_held ch \<noteq> [] \<longrightarrow> ch1 = ch)"
  using assms
proof (induction woken arbitrary: ch)
  case Nil then show ?case by (intro exI [of _ ch]) (auto simp: try_recv_def split: list.splits)
next
  case (Cons m ms)
  show ?case
  proof (cases "cn_held ch")
    case Nil with Cons show ?thesis by (auto simp: try_recv_def split: if_splits)
  next
    case (Cons d' ds)
    with Cons.prems show ?thesis by (intro exI [of _ ch]) (auto simp: try_recv_def)
  qed
qed

end
