(* ===== verification/Buses.thy ===== *)
theory Buses
  imports Opening Deliveries
begin

text \<open>
  How a client comes to be: \<open>connect\<close>, \<open>publisher\<close>, \<open>connect_channel\<close> and \<open>serve\<close> from a URL to the client,
  through the opening of each kind of bus. The operating system is the record \<open>Os\<close> of what it answers:
  a call on a socket is made with its arguments, in the order of the code, and answered with an error or not.
  Files are a map from paths to what is there.
\<close>

section \<open>The operating system\<close>

record Platform =
  pf_unix :: bool
  pf_windows :: bool
  pf_macos :: bool

datatype Socket = Receiver | Sender

datatype SysCall =
    NewSocket | SetReuseAddress | SetReusePort | SetRecvBufferSize nat | BindTo Ipv4Addr u16
  | JoinMulticast Ipv4Addr Ipv4Addr | SetMulticastTtl u8 | SetMulticastLoop | SetMulticastIf Ipv4Addr
  | SetNodelay | SetKeepalive | SetReadTimeout | SetWriteTimeout | CloneStream
  | BindListener string | SetNonblocking | SpawnReader | SpawnWriter | SpawnAccept

datatype FileNode = Regular bytes | Special

type_synonym files = "string \<Rightarrow> FileNode option"

text \<open>What dialling meets, with the time in nanoseconds: the addresses a name has, the clock and the connection of each, and then the turns
  of the writes and reads of the opening.\<close>

record Dial =
  dl_found :: "string \<Rightarrow> IoError + nat"
  dl_now :: nat
  dl_clock :: "nat \<Rightarrow> nat"
  dl_connect :: "nat \<Rightarrow> nat \<Rightarrow> IoError + script"
  dl_hello_turns :: "(nat \<times> (IoError + nat)) list"
  dl_ats :: "nat list"
  dl_turns :: "(nat \<times> (IoError + nat)) list list"

record 'k Os =
  os_platform :: Platform
  os_call :: "Socket \<times> SysCall \<Rightarrow> IoError option"
  os_recv_buffer :: "nat option"
  os_dial :: Dial
  os_open :: "string \<Rightarrow> IoError option"
  os_metadata :: "string \<Rightarrow> IoError option"
  os_local_addr :: "IoError + 'k"

text \<open>Calls in a row, each with whether its error is returned or ignored: the error that ended them, and the
  calls that were made.\<close>

fun make_calls ::
    "(Socket \<times> SysCall \<Rightarrow> IoError option) \<Rightarrow> (bool \<times> Socket \<times> SysCall) list \<Rightarrow> IoError option \<times> (Socket \<times> SysCall) list" where
  "make_calls answer [] = (None, [])"
| "make_calls answer ((needed, call) # calls) =
     (if needed \<and> answer call \<noteq> None then (answer call, [call])
      else let (failed, made) = make_calls answer calls in (failed, call # made))"

section \<open>What every opening gives\<close>

definition RECV_BUFFER_BYTES :: nat where "RECV_BUFFER_BYTES = 8 * 1024 * 1024"
definition CONNECT_TIMEOUT :: nat where "CONNECT_TIMEOUT = 10 * 10 ^ 9"
definition UNSPECIFIED :: Ipv4Addr where "UNSPECIFIED = Ipv4Addr 0 0 0 0"

text \<open>\<open>Receiving::subscriptions\<close>: a publisher keeps an empty set.\<close>

definition receiving_subscriptions :: "'re Subscriptions option \<Rightarrow> 're Subscriptions" where
  "receiving_subscriptions receiving = (case receiving of Some subs \<Rightarrow> subs | None \<Rightarrow> subscriptions_new)"

definition client_new :: "('re, 'k) Transport \<Rightarrow> bool \<Rightarrow> 're Subscriptions option \<Rightarrow> ('re, 'k) Client" where
  "client_new tr receives receiving = \<lparr>cl_transport = tr, cl_receives = receives, cl_writable = True,
     cl_running = True, cl_subscriptions = receiving_subscriptions receiving, cl_counters = counters_new\<rparr>"

section \<open>A multicast bus\<close>

definition listen_calls :: "Platform \<Rightarrow> MulticastBus \<Rightarrow> Ipv4Addr \<Rightarrow> (bool \<times> Socket \<times> SysCall) list" where
  "listen_calls pf bus local =
     [(True, Receiver, NewSocket), (True, Receiver, SetReuseAddress)]
     @ (if pf_unix pf then [(True, Receiver, SetReusePort)] else [])
     @ [(False, Receiver, SetRecvBufferSize (case mb_recv_buf_size bus of Some n \<Rightarrow> n | None \<Rightarrow> RECV_BUFFER_BYTES)),
        (True, Receiver, BindTo (if pf_windows pf then UNSPECIFIED else mb_group bus) (mb_port bus)),
        (True, Receiver, JoinMulticast (mb_group bus) local)]"

definition send_calls :: "MulticastBus \<Rightarrow> Ipv4Addr \<Rightarrow> (bool \<times> Socket \<times> SysCall) list" where
  "send_calls bus local =
     [(True, Sender, NewSocket), (True, Sender, SetMulticastTtl (mb_ttl bus)), (True, Sender, SetMulticastLoop),
      (False, Sender, JoinMulticast (mb_group bus) local)]
     @ (if mb_interface bus \<noteq> None then [(True, Sender, SetMulticastIf local)] else [])"

definition open_udpm ::
    "'k Os \<Rightarrow> MulticastBus \<Rightarrow> 're Subscriptions option \<Rightarrow> (ClientError + ('re, 'k) Client) \<times> (Socket \<times> SysCall) list" where
  "open_udpm os bus receiving =
     (let local = (case mb_interface bus of Some ip \<Rightarrow> ip | None \<Rightarrow> UNSPECIFIED); receives = (receiving \<noteq> None);
          calls = (if receives then listen_calls (os_platform os) bus local else []) @ send_calls bus local
            @ (if receives then [(True, Receiver, SpawnReader)] else []);
          (failed, made) = make_calls (os_call os) calls in
      (case failed of
         Some e \<Rightarrow> Inl (IoFailed e)
       | None \<Rightarrow> Inr (client_new (TUdpm \<lparr>
            us_recv_buffer = (if receives then Some (case os_recv_buffer os of Some n \<Rightarrow> n | None \<Rightarrow> 0) else None),
            us_destination = (mb_group bus, mb_port bus), us_sequence = 0,
            us_short_max = (case mb_short_max bus of Some n \<Rightarrow> n | None \<Rightarrow> SHORT_MESSAGE_MAX (pf_macos (os_platform os)))\<rparr>)
            receives receiving),
       made))"

section \<open>A relay to dial\<close>

definition addresses_of :: "Dial \<Rightarrow> string \<Rightarrow> IoError + nat \<times> nat" where
  "addresses_of dl address =
     (case dl_found dl address of
        Inl e \<Rightarrow> Inl e
      | Inr n \<Rightarrow> if n = 0 then Inl AddrNotAvailable else Inr (n, dl_now dl + CONNECT_TIMEOUT))"

text \<open>\<open>open_tcpq\<close>: the client and what is still to be read on its socket, and the bytes it wrote. The two
  changes of the read timeout are told apart by the half of the socket they are named with, the second one
  being for the reader.\<close>

definition open_tcpq ::
    "'k Os \<Rightarrow> string \<Rightarrow> 're Subscriptions option \<Rightarrow> (ClientError + ('re, 'k) Client \<times> script) \<times> bytes" where
  "open_tcpq os address receiving =
     (let dl = os_dial os; call = (\<lambda>calls. fst (make_calls (os_call os) calls)) in
      case addresses_of dl address of
        Inl e \<Rightarrow> (Inl (IoFailed e), [])
      | Inr (n, deadline) \<Rightarrow>
          (case connect_within deadline (dl_clock dl) (dl_connect dl) n of
             Inl e \<Rightarrow> (Inl (IoFailed e), [])
           | Inr script \<Rightarrow>
               (case call [(True, Sender, SetNodelay), (False, Sender, SetKeepalive), (True, Sender, SetReadTimeout),
                   (True, Sender, SetWriteTimeout)] of
                  Some e \<Rightarrow> (Inl (IoFailed e), [])
                | None \<Rightarrow>
                    (case open_relay deadline (dl_hello_turns dl) (dl_ats dl) (os_call os (Receiver, SetReadTimeout))
                        (dl_turns dl) script (receiving_subscriptions receiving) of
                       (Inl e, wire) \<Rightarrow> (Inl e, wire)
                     | (Inr left, wire) \<Rightarrow>
                         (case call ([(True, Sender, CloneStream), (True, Sender, SpawnWriter)]
                             @ (if receiving \<noteq> None then [(True, Receiver, CloneStream), (True, Receiver, SpawnReader)] else [])) of
                            Some e \<Rightarrow> (Inl (IoFailed e), wire)
                          | None \<Rightarrow> (Inr (client_new (TTcpq outbox_new) (receiving \<noteq> None) receiving, left), wire))))))"

section \<open>A log\<close>

definition open_to_replay :: "'k Os \<Rightarrow> files \<Rightarrow> string \<Rightarrow> ClientError + bytes" where
  "open_to_replay os fs path =
     (case os_open os path of
        Some e \<Rightarrow> Inl (IoFailed e)
      | None \<Rightarrow>
          (case fs path of
             None \<Rightarrow> Inl (IoFailed IoError.NotFound)
           | Some node \<Rightarrow>
               (case os_metadata os path of
                  Some e \<Rightarrow> Inl (IoFailed e)
                | None \<Rightarrow> (case node of Regular bs \<Rightarrow> Inr bs | Special \<Rightarrow> Inl NotAFile))))"

text \<open>An open to write makes the file where there is none, and empties it or not.\<close>

definition opened_to_write :: "LogMode \<Rightarrow> FileNode option \<Rightarrow> FileNode" where
  "opened_to_write mode node =
     (case node of
        None \<Rightarrow> Regular []
      | Some (Regular bs) \<Rightarrow> Regular (if mode = Write then [] else bs)
      | Some Special \<Rightarrow> Special)"

definition open_log ::
    "'k Os \<Rightarrow> files \<Rightarrow> 'f LogFile \<Rightarrow> 're Subscriptions option \<Rightarrow> (ClientError + ('re, 'k) Client) \<times> files" where
  "open_log os fs log receiving =
     (let path = lf_path log in
      case (lf_mode log, receiving) of
        (Read, Some subs) \<Rightarrow>
          (and_then (open_to_replay os fs path) (\<lambda>_.
             case os_call os (Receiver, SpawnReader) of
               Some e \<Rightarrow> Inl (IoFailed e)
             | None \<Rightarrow> Inr (client_new TReplay True receiving)), fs)
      | (Read, None) \<Rightarrow> (Inl ReadOnly, fs)
      | (mode, _) \<Rightarrow>
          (case os_open os path of
             Some e \<Rightarrow> (Inl (IoFailed e), fs)
           | None \<Rightarrow>
               (let node = opened_to_write mode (fs path) in
                (case os_metadata os path of
                   Some e \<Rightarrow> Inl (IoFailed e)
                 | None \<Rightarrow> (case node of
                      Special \<Rightarrow> Inl NotAFile
                    | Regular _ \<Rightarrow> Inr (client_new (TLog \<lparr>lw_file = [], lw_events = 0\<rparr>) False receiving)),
                 fs(path \<mapsto> node)))))"

text \<open>The file once a writer has flushed all that went into it.\<close>

definition on_disk :: "files \<Rightarrow> string \<Rightarrow> LogWriter \<Rightarrow> files" where
  "on_disk fs path lw = (case fs path of Some (Regular bs) \<Rightarrow> fs(path \<mapsto> Regular (bs @ lw_file lw)) | _ \<Rightarrow> fs)"

section \<open>A relay to serve\<close>

definition serve_tcpq :: "'k Os \<Rightarrow> string \<Rightarrow> 're Subscriptions option \<Rightarrow> ClientError + ('re, 'k) Client" where
  "serve_tcpq os address receiving =
     (case fst (make_calls (os_call os) [(True, Receiver, BindListener address), (True, Receiver, SetNonblocking)]) of
        Some e \<Rightarrow> Inl (IoFailed e)
      | None \<Rightarrow>
          (case os_local_addr os of
             Inl e \<Rightarrow> Inl (IoFailed e)
           | Inr bound \<Rightarrow>
               (case os_call os (Receiver, SpawnAccept) of
                  Some e \<Rightarrow> Inl (IoFailed e)
                | None \<Rightarrow> Inr (client_new (TServe (served_new receiving) bound) True receiving))))"

section \<open>From a URL\<close>

definition client_start ::
    "'k Os \<Rightarrow> files \<Rightarrow> 'f BusUrl \<Rightarrow> 're Subscriptions option \<Rightarrow> (ClientError + ('re, 'k) Client) \<times> files" where
  "client_start os fs url receiving =
     (case url of
        BusUdpm bus \<Rightarrow> (fst (open_udpm os bus receiving), fs)
      | BusTcpq relay \<Rightarrow> (and_then (fst (open_tcpq os (show_relay relay) receiving)) (\<lambda>(c, _). Inr c), fs)
      | BusFile log \<Rightarrow> open_log os fs log receiving)"

definition parsed :: "'f Float \<Rightarrow> string \<Rightarrow> ClientError + 'f BusUrl" where
  "parsed fl url = (case parse_url fl url of Inl e \<Rightarrow> Inl (UrlError e) | Inr bus \<Rightarrow> Inr bus)"

definition client_open ::
    "'k Os \<Rightarrow> files \<Rightarrow> 'f BusUrl \<Rightarrow> 're Subscriptions \<Rightarrow> (ClientError + ('re, 'k) Client) \<times> files" where
  "client_open os fs url subs = client_start os fs url (Some subs)"

definition client_connect ::
    "'f Float \<Rightarrow> 'k Os \<Rightarrow> files \<Rightarrow> string \<Rightarrow> 're Subscriptions \<Rightarrow> (ClientError + ('re, 'k) Client) \<times> files" where
  "client_connect fl os fs url subs =
     (case parsed fl url of Inl e \<Rightarrow> (Inl e, fs) | Inr bus \<Rightarrow> client_open os fs bus subs)"

definition open_publisher :: "'k Os \<Rightarrow> files \<Rightarrow> 'f BusUrl \<Rightarrow> (ClientError + ('re, 'k) Client) \<times> files" where
  "open_publisher os fs url =
     (case url of
        BusFile log \<Rightarrow> if lf_mode log = Read then (Inl ReadOnly, fs) else client_start os fs url None
      | _ \<Rightarrow> client_start os fs url None)"

definition client_publisher ::
    "'f Float \<Rightarrow> 'k Os \<Rightarrow> files \<Rightarrow> string \<Rightarrow> (ClientError + ('re, 'k) Client) \<times> files" where
  "client_publisher fl os fs url = (case parsed fl url of Inl e \<Rightarrow> (Inl e, fs) | Inr bus \<Rightarrow> open_publisher os fs bus)"

definition client_serve :: "'f Float \<Rightarrow> 'k Os \<Rightarrow> string \<Rightarrow> 're Subscriptions \<Rightarrow> ClientError + ('re, 'k) Client" where
  "client_serve fl os url subs =
     and_then (parsed fl url) (\<lambda>bus.
       case bus of BusTcpq relay \<Rightarrow> serve_tcpq os (bind_address url relay) (Some subs) | _ \<Rightarrow> Inl NotARelay)"

text \<open>\<open>connect_channel\<close>. A client with no reader drops its handler, and with it the one sender.\<close>

definition connect_channel ::
    "'f Float \<Rightarrow> 'k Os \<Rightarrow> files \<Rightarrow> string \<Rightarrow> 're Subscriptions \<Rightarrow> nat \<Rightarrow>
     (ClientError + ('re, 'k) Client \<times> 'k Delivery Channel) \<times> files" where
  "connect_channel fl os fs url subs depth =
     (let (r, fs') = client_connect fl os fs url subs in
      (and_then r (\<lambda>c. Inr (c, if cl_receives c then channel_new depth else drop_sender (channel_new depth))), fs'))"

text \<open>
  A client that has no reader, such as one of a log to write, drops its handler as it opens: its channel is at
  an end at once, while the client itself is open and takes messages.
\<close>

lemma unread_channel_ends:
  assumes "connect_channel fl os fs url subs depth = (Inr (c, ch), fs')" and "\<not> cl_receives c"
  shows "deliveries_next woken ch = (Some None, ch)"
proof -
  obtain r fs1 where r: "client_connect fl os fs url subs = (r, fs1)" by (cases "client_connect fl os fs url subs")
  with assms have "ch = drop_sender (channel_new depth)"
    by (cases r) (auto simp: connect_channel_def)
  then show ?thesis by (simp add: deliveries_next_def recv_stopped drop_sender_def try_recv_def channel_new_def)
qed

end
