(* ===== verification/ClientLife.thy ===== *)
theory ClientLife
  imports Buses
begin

text \<open>
  The life of a client: any of its operations in any order, with the end of its reader and what other threads
  do to its outbox or its relay between them; what stays the same all along; and when the handler is told that
  the client stopped.
\<close>

section \<open>Any operations in any order\<close>

datatype ClientCall = Publishes FrameRef "i64 option" | Change SubCall | Flush | Close

text \<open>What befalls a client: a call of the user, the end of the reader, or other threads at work.\<close>

datatype ('re, 'k) Happening = Calls ClientCall | ReaderEnds bool bool "Stop option"
  | Elsewhere "Queue \<Rightarrow> Queue" "('re, 'k) Served \<Rightarrow> ('re, 'k) Served"

type_synonym ('re, 'k) outcome = "(ClientError + bool) \<times> ('re, 'k) Client \<times> bytes list"

definition answered :: "(ClientError + unit) \<times> ('re, 'k) Client \<times> bytes list \<Rightarrow> ('re, 'k) outcome" where
  "answered x = (case x of (r, c, bs) \<Rightarrow> (and_then r (\<lambda>_. Inr True), c, bs))"

definition change_call ::
    "(string \<Rightarrow> string + 're) \<Rightarrow> Outside \<Rightarrow> SubCall \<Rightarrow> ('re, 'k) Client \<Rightarrow> ('re, 'k) outcome" where
  "change_call compile ou call c =
     (case call of
        ByName ch \<Rightarrow> answered (subscribe_name ou ch c)
      | ByPattern pattern \<Rightarrow> answered (subscribe_pattern compile ou pattern c)
      | Without sub \<Rightarrow> unsubscribe_from ou sub c)"

text \<open>A call, its answer, the client after it, and the datagrams that went out. It is \<open>None\<close> for a panic.\<close>

definition client_call ::
    "(string \<Rightarrow> string + 're) \<Rightarrow> ('re \<Rightarrow> string \<Rightarrow> bool option) \<Rightarrow> Outside \<Rightarrow> ClientCall \<Rightarrow> ('re, 'k) Client \<Rightarrow>
     ('re, 'k) outcome option" where
  "client_call compile is_match ou call c =
     (case call of
        Publishes frame t \<Rightarrow> map_option answered (client_write is_match ou frame t c)
      | Change sub \<Rightarrow> (let (r, c', _) = change_call compile ou sub c in Some (r, c', []))
      | Flush \<Rightarrow> (let (r, c') = client_flush ou c in Some (answered (r, c', [])))
      | Close \<Rightarrow> (let (e, c') = client_close ou c in
          Some (case e of None \<Rightarrow> Inr True | Some e \<Rightarrow> Inl (IoFailed e), c', [])))"

definition elsewhere :: "(Queue \<Rightarrow> Queue) \<Rightarrow> (('re, 'k) Served \<Rightarrow> ('re, 'k) Served) \<Rightarrow> ('re, 'k) Client \<Rightarrow> ('re, 'k) Client" where
  "elsewhere f g c =
     (case cl_transport c of
        TTcpq q \<Rightarrow> c\<lparr>cl_transport := TTcpq (f q)\<rparr>
      | TServe s bound \<Rightarrow> c\<lparr>cl_transport := TServe (g s) bound\<rparr>
      | _ \<Rightarrow> c)"

text \<open>The answers to the calls, each with its call; the client; and every datagram that went out.\<close>

fun happenings ::
    "(string \<Rightarrow> string + 're) \<Rightarrow> ('re \<Rightarrow> string \<Rightarrow> bool option) \<Rightarrow> (Outside \<times> ('re, 'k) Happening) list \<Rightarrow>
     ('re, 'k) Client \<Rightarrow> ((ClientCall \<times> (ClientError + bool)) list \<times> ('re, 'k) Client \<times> bytes list) option" where
  "happenings compile is_match [] c = Some ([], c, [])"
| "happenings compile is_match ((ou, Calls call) # rst) c =
     Option.bind (client_call compile is_match ou call c) (\<lambda>(r, c, bs).
       map_option (\<lambda>(rs, c, bs'). ((call, r) # rs, c, bs @ bs')) (happenings compile is_match rst c))"
| "happenings compile is_match ((ou, ReaderEnds shares panicked cause) # rst) c =
     happenings compile is_match rst (fst (reader_exit shares panicked cause c))"
| "happenings compile is_match ((ou, Elsewhere f g) # rst) c = happenings compile is_match rst (elsewhere f g c)"

section \<open>What stays\<close>

datatype Kind = KUdpm "Ipv4Addr \<times> u16" nat | KTcpq | KLog | KServe | KReplay

definition kind_of :: "('re, 'k) Client \<Rightarrow> Kind \<times> bool" where
  "kind_of c = (case cl_transport c of
       TUdpm u \<Rightarrow> KUdpm (us_destination u) (us_short_max u) | TTcpq q \<Rightarrow> KTcpq | TLog lw \<Rightarrow> KLog
     | TServe s b \<Rightarrow> KServe | TReplay \<Rightarrow> KReplay, cl_receives c)"

lemma kind_of_simps [simp]:
  "kind_of (c\<lparr>cl_writable := b\<rparr>) = kind_of c" "kind_of (c\<lparr>cl_running := b\<rparr>) = kind_of c"
  "kind_of (c\<lparr>cl_subscriptions := subs\<rparr>) = kind_of c"
  by (simp_all add: kind_of_def)

text \<open>The answers a call of such a client can get.\<close>

fun answer_fits :: "Kind \<times> bool \<Rightarrow> ClientCall \<times> (ClientError + bool) \<Rightarrow> bool" where
  "answer_fits k (call, Inr b) \<longleftrightarrow> (case call of Publishes f t \<Rightarrow> fst k \<noteq> KReplay \<and> b | Change sub \<Rightarrow> snd k | _ \<Rightarrow> b)"
| "answer_fits k (call, Inl ReadOnly) \<longleftrightarrow> (case call of Publishes f t \<Rightarrow> fst k = KReplay | _ \<Rightarrow> False)"
| "answer_fits k (call, Inl PublishOnly) \<longleftrightarrow> (case call of Change sub \<Rightarrow> \<not> snd k | _ \<Rightarrow> False)"
| "answer_fits k (call, Inl (PatternRefused e)) \<longleftrightarrow> (case call of Change sub \<Rightarrow> snd k | _ \<Rightarrow> False)"
| "answer_fits k (call, Inl (WireFailed e)) \<longleftrightarrow> (case call of Publishes f t \<Rightarrow> fst k \<noteq> KReplay | _ \<Rightarrow> False)"
| "answer_fits k (call, Inl ConnectionClosed) \<longleftrightarrow> call \<noteq> Close"
| "answer_fits k (call, Inl (IoFailed e)) \<longleftrightarrow> fst k \<noteq> KReplay"
| "answer_fits k (call, Inl _) \<longleftrightarrow> False"

definition datagrams_fit :: "Kind \<times> bool \<Rightarrow> bytes list \<Rightarrow> bool" where
  "datagrams_fit k bs \<longleftrightarrow> (case fst k of KUdpm dest short_max \<Rightarrow> \<forall>d \<in> set bs. length d \<le> HEADER_SHORT + short_max | _ \<Rightarrow> bs = [])"

text \<open>The same kind, and not open again.\<close>

definition stays :: "('re, 'k) Client \<Rightarrow> ('re, 'k) Client \<Rightarrow> bool" where
  "stays c c' \<longleftrightarrow> kind_of c' = kind_of c \<and> (cl_writable c' \<longrightarrow> cl_writable c) \<and> (cl_running c' \<longrightarrow> cl_running c)"

lemma stays_refl [simp]: "stays c c"
  by (simp add: stays_def)

lemma stays_trans: "stays c c' \<Longrightarrow> stays c' c'' \<Longrightarrow> stays c c''"
  by (auto simp: stays_def)

lemma hold_subscriptions_stays [simp]: "stays c (hold_subscriptions subs c)"
  by (auto simp: stays_def hold_subscriptions_def kind_of_def split: Transport.splits)

lemma tell_relay_stays:
  assumes "tell_relay ou bytes c = (r, c', told)"
  shows "stays c c' \<and> (\<forall>e. r = Inl e \<longrightarrow> e = ConnectionClosed \<or> fst (kind_of c) = KTcpq \<and> (\<exists>io. e = IoFailed io))"
proof (cases "cl_writable c")
  case True
  show ?thesis
  proof (cases "cl_transport c")
    case (TTcpq q)
    obtain q' answer where "control_wait (ou_woken ou) q bytes = (q', answer)" by (cases "control_wait (ou_woken ou) q bytes")
    with assms True TTcpq show ?thesis
      by (cases answer rule: refused.cases) (auto simp: tell_relay_def stays_def kind_of_def)
  qed (use assms True in \<open>auto simp: tell_relay_def\<close>)
qed (use assms in \<open>auto simp: tell_relay_def\<close>)

text \<open>An outcome of a call that is no publish.\<close>

definition change_fits :: "('re, 'k) Client \<Rightarrow> SubCall \<Rightarrow> ('re, 'k) outcome \<Rightarrow> bool" where
  "change_fits c sub x \<longleftrightarrow> stays c (fst (snd x)) \<and> answer_fits (kind_of c) (Change sub, fst x)"

lemma subscribe_with_fits: "change_fits c sub (answered (subscribe_with ou checked bytes c))"
proof (cases "cl_receives c")
  case True
  show ?thesis
  proof (cases checked)
    case (Inr rule)
    obtain r c' told where t: "tell_relay ou bytes c = (r, c', told)" by (cases "tell_relay ou bytes c")
    from tell_relay_stays [OF t] True Inr t show ?thesis
      by (cases r) (auto simp: change_fits_def answered_def subscribe_with_def must_receive_def kind_of_def
          intro: stays_trans [OF _ hold_subscriptions_stays])
  qed (simp add: change_fits_def answered_def subscribe_with_def must_receive_def True kind_of_def)
qed (simp add: change_fits_def answered_def subscribe_with_def must_receive_def kind_of_def)

lemma unsubscribe_from_fits: "change_fits c s (unsubscribe_from ou sub c)"
proof (cases "cl_receives c")
  case True
  show ?thesis
  proof (cases "find_rule (held_subscriptions c) sub")
    case (Some held)
    obtain r c' told where t: "tell_relay ou (unsubscribe held) c = (r, c', told)" by (cases "tell_relay ou (unsubscribe held) c")
    from tell_relay_stays [OF t] True Some t show ?thesis
      by (cases r) (auto simp: change_fits_def unsubscribe_from_def must_receive_def kind_of_def
          intro: stays_trans [OF _ hold_subscriptions_stays] split: prod.splits)
  qed (simp add: change_fits_def unsubscribe_from_def must_receive_def True kind_of_def)
qed (simp add: change_fits_def unsubscribe_from_def must_receive_def kind_of_def)

lemma change_call_fits: "change_fits c sub (change_call compile ou sub c)"
  by (cases sub) (simp_all add: change_call_def subscribe_name_def subscribe_pattern_def subscribe_with_fits
      unsubscribe_from_fits)

definition call_fits :: "('re, 'k) Client \<Rightarrow> ClientCall \<Rightarrow> ('re, 'k) outcome \<Rightarrow> bool" where
  "call_fits c call x \<longleftrightarrow> stays c (fst (snd x)) \<and> answer_fits (kind_of c) (call, fst x) \<and> datagrams_fit (kind_of c) (snd (snd x))"

lemma send_all_prefix: "send_all sends n ds = (failed, sent) \<Longrightarrow> set sent \<subseteq> set ds"
  by (induction sends n ds arbitrary: failed sent rule: send_all.induct) (auto split: option.splits prod.splits)

lemma encode_total: "udpm_encode sequence frame short_max \<noteq> None"
  by (simp add: udpm_encode_eq)

lemma encode_fits:
  assumes "udpm_encode sequence frame short_max = Some (Inr ds)" and "d \<in> set ds"
  shows "length d \<le> HEADER_SHORT + short_max"
proof -
  from assms(1) obtain f where f: "fragments sequence frame short_max = Inr f" "ds = map (datagram f) [0..<fs_count f]"
    by (rule udpm_encode_Inr)
  with assms(2) length_datagram [OF f(1)] show ?thesis by auto
qed

lemma publish_fits_udpm:
  assumes "cl_transport c = TUdpm u" and "cl_writable c"
  shows "\<exists>x. client_write is_match ou frame t c = Some x \<and> call_fits c (Publishes frame t) (answered x)"
proof -
  let ?c = "c\<lparr>cl_transport := TUdpm (u\<lparr>us_sequence := us_sequence u + 1\<rparr>)\<rparr>"
  have same: "stays c ?c" "kind_of c = (KUdpm (us_destination u) (us_short_max u), cl_receives c)"
    using assms(1) by (simp_all add: stays_def kind_of_def)
  obtain r where enc: "udpm_encode (us_sequence u) frame (us_short_max u) = Some r"
    using encode_total by blast
  show ?thesis
  proof (cases r)
    case (Inl e)
    with enc assms same show ?thesis by (auto simp: client_write_def Let_def call_fits_def answered_def datagrams_fit_def)
  next
    case (Inr ds)
    obtain failed sent where send: "send_all (ou_sends ou) 0 ds = (failed, sent)" by (cases "send_all (ou_sends ou) 0 ds")
    have "\<forall>d \<in> set sent. length d \<le> HEADER_SHORT + us_short_max u"
      using send_all_prefix [OF send] encode_fits enc Inr by blast
    with enc Inr send assms same show ?thesis
      by (cases failed) (auto simp: client_write_def Let_def call_fits_def answered_def datagrams_fit_def)
  qed
qed

lemma publish_fits:
  "\<exists>x. client_write is_match ou frame t c = Some x \<and> call_fits c (Publishes frame t) (answered x)"
proof (cases "cl_writable c")
  case False
  then show ?thesis by (auto simp: client_write_def call_fits_def answered_def datagrams_fit_def split: Kind.splits)
next
  case True
  show ?thesis
  proof (cases "cl_transport c")
    case (TUdpm u) then show ?thesis using True by (rule publish_fits_udpm)
  next
    case (TTcpq q)
    show ?thesis
    proof (cases "publish frame")
      case (Inr bytes)
      obtain q' answer where p: "put_message (ou_woken ou) q bytes = (q', answer)" by (cases "put_message (ou_woken ou) q bytes")
      then show ?thesis using TTcpq True Inr
        by (cases answer rule: refused.cases)
          (simp_all add: client_write_def to_relay_def call_fits_def answered_def datagrams_fit_def stays_def kind_of_def)
    qed (use TTcpq True in \<open>simp add: client_write_def call_fits_def answered_def datagrams_fit_def kind_of_def\<close>)
  next
    case (TLog lw)
    let ?ev = "\<lparr>ev_number = lw_events lw, ev_timestamp = (case t of Some t \<Rightarrow> t | None \<Rightarrow> now_micros (ou_clock ou)), ev_frame = frame\<rparr>"
    show ?thesis using TLog True
      by (cases "log_encode ?ev"; cases "ou_write ou")
        (auto simp: client_write_def log_write_def call_fits_def answered_def datagrams_fit_def stays_def kind_of_def)
  next
    case (TServe s bound)
    show ?thesis using TServe True
      by (cases "publish_from_local is_match (ou_peers ou) (now_micros (ou_clock ou)) frame s")
        (auto simp: client_write_def call_fits_def answered_def datagrams_fit_def stays_def kind_of_def)
  next
    case TReplay
    with True show ?thesis by (auto simp: client_write_def call_fits_def answered_def datagrams_fit_def kind_of_def)
  qed
qed

lemma flush_fits: "client_flush ou c = (r, c') \<Longrightarrow> call_fits c Flush (answered (r, c', []))"
proof (cases "cl_transport c")
  case (TTcpq q)
  obtain wanted wanted_control where e: "flush_enter q = (wanted, wanted_control)" by (cases "flush_enter q")
  obtain q' answer where w: "flush_wait (ou_woken ou) q wanted wanted_control = (q', answer)"
    by (cases "flush_wait (ou_woken ou) q wanted wanted_control")
  assume "client_flush ou c = (r, c')"
  with e w TTcpq show ?thesis
    by (cases answer rule: refused.cases)
      (auto simp: client_flush_def call_fits_def answered_def datagrams_fit_def stays_def kind_of_def)
qed (auto simp: client_flush_def call_fits_def answered_def datagrams_fit_def stays_def kind_of_def split: option.splits)

lemma close_fits:
  assumes "client_close ou c = (e, c')"
  shows "call_fits c Close (case e of None \<Rightarrow> Inr True | Some e \<Rightarrow> Inl (IoFailed e), c', [])" and "\<not> cl_writable c'" "\<not> cl_running c'"
  using assms
  by (cases "cl_transport c"; cases e;
      auto simp: client_close_def call_fits_def datagrams_fit_def stays_def kind_of_def)+

lemma client_call_fits:
  "\<exists>x. client_call compile is_match ou call c = Some x \<and> call_fits c call x"
proof (cases call)
  case (Publishes frame t)
  obtain x where "client_write is_match ou frame t c = Some x" "call_fits c (Publishes frame t) (answered x)"
    using publish_fits by blast
  with Publishes show ?thesis by (intro exI [of _ "answered x"]) (simp add: client_call_def)
next
  case (Change sub)
  with change_call_fits [of c sub compile ou] show ?thesis
    by (cases "change_call compile ou sub c")
      (simp add: client_call_def change_fits_def call_fits_def datagrams_fit_def split: Kind.splits)
next
  case Flush
  with flush_fits show ?thesis by (cases "client_flush ou c") (auto simp: client_call_def)
next
  case Close
  with close_fits(1) show ?thesis by (cases "client_close ou c") (auto simp: client_call_def)
qed

lemma elsewhere_stays: "stays c (elsewhere f g c)"
  by (simp add: elsewhere_def stays_def kind_of_def split: Transport.splits)

lemma reader_exit_stays: "stays c (fst (reader_exit shares panicked cause c))"
  by (simp add: reader_exit_def stays_def Let_def)

lemma datagrams_fit_append: "datagrams_fit k bs \<Longrightarrow> datagrams_fit k bs' \<Longrightarrow> datagrams_fit k (bs @ bs')"
  by (auto simp: datagrams_fit_def split: Kind.splits)

text \<open>Any happenings: no panic, the same kind of client, answers that fit it, and never open again.\<close>

lemma happenings_fit:
  "\<exists>rs c' bs. happenings compile is_match hs c = Some (rs, c', bs) \<and> stays c c' \<and>
    (\<forall>r \<in> set rs. answer_fits (kind_of c) r) \<and> datagrams_fit (kind_of c) bs \<and>
    map fst rs = concat (map (\<lambda>h. case snd h of Calls call \<Rightarrow> [call] | _ \<Rightarrow> []) hs)"
proof (induction hs arbitrary: c)
  case Nil
  show ?case by (simp add: datagrams_fit_def split: Kind.splits)
next
  case (Cons h hs)
  obtain ou what where h: "h = (ou, what)" by (cases h)
  have later: ?case if "happenings compile is_match ((ou, what) # hs) c = happenings compile is_match hs c1"
    "stays c c1" "\<forall>call. what \<noteq> Calls call" for c1
    using Cons.IH [of c1] that by (cases what) (auto simp: h stays_def)
  show ?case
  proof (cases what)
    case (Calls call)
    obtain r c1 bs1 where 1: "client_call compile is_match ou call c = Some (r, c1, bs1)" "call_fits c call (r, c1, bs1)"
      using client_call_fits [of compile is_match ou call c] by auto
    obtain rs c' bs where 2: "happenings compile is_match hs c1 = Some (rs, c', bs)" "stays c1 c'"
      "\<forall>r \<in> set rs. answer_fits (kind_of c1) r" "datagrams_fit (kind_of c1) bs"
      "map fst rs = concat (map (\<lambda>h. case snd h of Calls call \<Rightarrow> [call] | _ \<Rightarrow> []) hs)" using Cons.IH [of c1] by blast
    have "kind_of c1 = kind_of c" using 1(2) by (simp add: call_fits_def stays_def)
    with 1 2 show ?thesis
      by (auto simp: h Calls call_fits_def intro: datagrams_fit_append stays_trans)
  next
    case (ReaderEnds shares panicked cause)
    with later [OF _ reader_exit_stays] show ?thesis by simp
  next
    case (Elsewhere f g)
    with later [OF _ elsewhere_stays] show ?thesis by simp
  qed
qed

section \<open>When the handler is told\<close>

text \<open>The reader thread: in its loop, past it with what \<open>ReaderExit\<close> holds (whether it panics, and the cause),
  and ended. The other threads are \<open>close\<close>, further calls, and the writer of a relay, which clears \<open>writable\<close>.\<close>

datatype ReaderThread = RReads | RLeft bool "Stop option" | REnded

record ('re, 'k) Life =
  li_client :: "('re, 'k) Client"
  li_shares :: bool
  li_reader :: ReaderThread
  li_left :: "(bool \<times> Stop option) option"
  li_told :: "Stop list"
  li_closed :: bool

definition life_new :: "bool \<Rightarrow> ('re, 'k) Client \<Rightarrow> ('re, 'k) Life" where
  "life_new shares c = \<lparr>li_client = c, li_shares = shares, li_reader = RReads, li_left = None, li_told = [], li_closed = False\<rparr>"

definition reader_leaves :: "bool \<Rightarrow> Stop option \<Rightarrow> ('re, 'k) Life \<Rightarrow> ('re, 'k) Life" where
  "reader_leaves panicked cause w = w\<lparr>li_reader := RLeft panicked cause, li_left := Some (panicked, cause)\<rparr>"

text \<open>A loop that gives no cause has read \<open>running\<close> as clear; one that panics leaves the cause it started with.\<close>

inductive life_step ::
    "(string \<Rightarrow> string + 're) \<Rightarrow> ('re \<Rightarrow> string \<Rightarrow> bool option) \<Rightarrow> ('re, 'k) Life \<Rightarrow> ('re, 'k) Life \<Rightarrow> bool"
  for compile is_match where
  user_closes: "client_close ou (li_client w) = (e, c) \<Longrightarrow>
    life_step compile is_match w (w\<lparr>li_client := c, li_closed := True\<rparr>)"
| user_calls: "call \<noteq> Close \<Longrightarrow> client_call compile is_match ou call (li_client w) = Some (r, c, bs) \<Longrightarrow>
    life_step compile is_match w (w\<lparr>li_client := c\<rparr>)"
| writer_works: "life_step compile is_match w (w\<lparr>li_client := elsewhere f g (li_client w)\<rparr>)"
| writer_tears: "li_shares w \<Longrightarrow> life_step compile is_match w (w\<lparr>li_client := (li_client w)\<lparr>cl_writable := False\<rparr>\<rparr>)"
| reader_asked: "li_reader w = RReads \<Longrightarrow> \<not> cl_running (li_client w) \<Longrightarrow> life_step compile is_match w (reader_leaves False None w)"
| reader_stops: "li_reader w = RReads \<Longrightarrow> life_step compile is_match w (reader_leaves False (Some stop) w)"
| reader_panics: "li_reader w = RReads \<Longrightarrow> life_step compile is_match w (reader_leaves True (Some Panicked) w)"
| reader_exits: "li_reader w = RLeft panicked cause \<Longrightarrow> reader_exit (li_shares w) panicked cause (li_client w) = (c, told) \<Longrightarrow>
    life_step compile is_match w (w\<lparr>li_client := c, li_reader := REnded,
      li_told := li_told w @ (case told of Some stop \<Rightarrow> [stop] | None \<Rightarrow> [])\<rparr>)"

abbreviation life_run where
  "life_run compile is_match \<equiv> rtranclp (life_step compile is_match)"

text \<open>The flag is cleared by \<open>close\<close> and by the exit of the reader, and by nothing else.\<close>

definition life_ok :: "('re, 'k) Life \<Rightarrow> bool" where
  "life_ok w \<longleftrightarrow>
     (cl_running (li_client w) \<longleftrightarrow> \<not> li_closed w \<and> li_reader w \<noteq> REnded) \<and>
     (li_closed w \<longrightarrow> \<not> cl_writable (li_client w)) \<and>
     (case li_reader w of
        RReads \<Rightarrow> li_left w = None \<and> li_told w = []
      | RLeft panicked cause \<Rightarrow> li_left w = Some (panicked, cause) \<and> li_told w = [] \<and>
          (cause = None \<longrightarrow> li_closed w \<and> \<not> panicked) \<and> (panicked \<longrightarrow> cause = Some Panicked)
      | REnded \<Rightarrow> (li_shares w \<longrightarrow> \<not> cl_writable (li_client w)) \<and>
          (\<exists>panicked cause. li_left w = Some (panicked, cause) \<and> (panicked \<longrightarrow> cause = Some Panicked) \<and>
            (\<exists>stop. cause = Some stop \<and> li_told w = [stop] \<or> li_closed w \<and> \<not> panicked \<and> li_told w = [])))"

lemma life_ok_new: "cl_running c \<Longrightarrow> life_ok (life_new shares c)"
  by (simp add: life_ok_def life_new_def)

lemma call_keeps_running:
  assumes "client_call compile is_match ou call c = Some (r, c', bs)" and "call \<noteq> Close"
  shows "cl_running c' = cl_running c" "cl_writable c' \<longrightarrow> cl_writable c"
proof -
  have tell: "cl_running c2 = cl_running c1" if "tell_relay ou bs1 c1 = (r1, c2, told)" for c1 c2 r1 told bs1
    using that by (auto simp: tell_relay_def split: if_splits Transport.splits prod.splits)
  have hold: "cl_running (hold_subscriptions subs c1) = cl_running c1" for subs and c1 :: "('a, 'b) Client"
    by (simp add: hold_subscriptions_def split: Transport.split)
  have sub: "cl_running c1 = cl_running c" if "subscribe_with ou checked bs1 c = (r1, c1, told)" for checked bs1 c1 r1 told
    using that by (auto simp: subscribe_with_def hold split: sum.splits prod.splits dest: tell)
  have unsub: "cl_running c1 = cl_running c" if "unsubscribe_from ou s c = (r1, c1, told)" for s c1 r1 told
    using that by (auto simp: unsubscribe_from_def hold split: sum.splits prod.splits option.splits dest: tell)
  show "cl_running c' = cl_running c"
  proof (cases call)
    case (Publishes frame t)
    with assms(1) show ?thesis
      by (auto simp: client_call_def answered_def client_write_def Let_def
          split: if_splits Transport.splits option.splits sum.splits prod.splits)
  next
    case (Change s)
    with assms(1) sub unsub show ?thesis
      by (cases s) (auto simp: client_call_def change_call_def answered_def subscribe_name_def subscribe_pattern_def
          split: prod.splits dest: sub unsub)
  next
    case Flush
    with assms(1) show ?thesis
      by (auto simp: client_call_def client_flush_def answered_def split: prod.splits Transport.splits option.splits)
  qed (use assms(2) in simp)
  from client_call_fits [of compile is_match ou call c] assms(1) show "cl_writable c' \<longrightarrow> cl_writable c"
    by (auto simp: call_fits_def stays_def)
qed

lemma life_ok_client:
  assumes "life_ok w" and "cl_running c = cl_running (li_client w)" and "cl_writable c \<longrightarrow> cl_writable (li_client w)"
  shows "life_ok (w\<lparr>li_client := c\<rparr>)"
  using assms by (cases "li_reader w") (simp_all add: life_ok_def, blast+)

lemma life_ok_closed:
  assumes "life_ok w" and "\<not> cl_running c" and "\<not> cl_writable c"
  shows "life_ok (w\<lparr>li_client := c, li_closed := True\<rparr>)"
  using assms by (cases "li_reader w") (simp_all add: life_ok_def, blast+)

lemma life_ok_leaves:
  assumes "life_ok w" and "li_reader w = RReads" and "cause = None \<longrightarrow> \<not> cl_running (li_client w) \<and> \<not> panicked"
    and "panicked \<longrightarrow> cause = Some Panicked"
  shows "life_ok (reader_leaves panicked cause w)"
  using assms by (auto simp: life_ok_def reader_leaves_def)

lemma reader_exitD:
  assumes "reader_exit shares panicked cause c = (c', told)"
  shows "\<not> cl_running c'" and "cl_writable c' \<longleftrightarrow> cl_writable c \<and> \<not> shares"
    and "told = (if cl_running c \<or> panicked then Some (case cause of Some s \<Rightarrow> s | None \<Rightarrow> Panicked) else None)"
  using assms by (cases shares; auto simp: reader_exit_def Let_def)+

lemma life_ok_exits:
  assumes ok: "life_ok w" and left: "li_reader w = RLeft panicked cause"
    and exit: "reader_exit (li_shares w) panicked cause (li_client w) = (c, told)"
  shows "life_ok (w\<lparr>li_client := c, li_reader := REnded,
      li_told := li_told w @ (case told of Some stop \<Rightarrow> [stop] | None \<Rightarrow> [])\<rparr>)"
proof -
  note ex = reader_exitD [OF exit]
  from ok left have o: "cl_running (li_client w) \<longleftrightarrow> \<not> li_closed w" "li_closed w \<longrightarrow> \<not> cl_writable (li_client w)"
    "li_left w = Some (panicked, cause)" "li_told w = []" "cause = None \<longrightarrow> li_closed w \<and> \<not> panicked"
    "panicked \<longrightarrow> cause = Some Panicked" by (simp_all add: life_ok_def)
  show ?thesis
  proof (cases "li_closed w \<and> \<not> panicked")
    case True
    with o ex show ?thesis by (auto simp: life_ok_def)
  next
    case False
    with o obtain stop where stop: "cause = Some stop" by (cases cause) auto
    from False o(1) ex(3) stop have "told = Some stop" by auto
    with o ex(1,2) stop show ?thesis by (simp add: life_ok_def)
  qed
qed

lemma life_step_ok:
  assumes "life_step compile is_match w w'" and ok: "life_ok w"
  shows "life_ok w'"
  using assms(1)
proof cases
  case (user_closes ou e c)
  with life_ok_closed [OF ok close_fits(3,2) [OF user_closes(2)]] show ?thesis by simp
next
  case (user_calls call ou r c bs)
  with life_ok_client [OF ok call_keeps_running [OF user_calls(3,2)]] show ?thesis by simp
next
  case (writer_works f g)
  have "cl_running (elsewhere f g (li_client w)) = cl_running (li_client w)"
    "cl_writable (elsewhere f g (li_client w)) \<longrightarrow> cl_writable (li_client w)"
    by (simp_all add: elsewhere_def split: Transport.split)
  with writer_works life_ok_client [OF ok] show ?thesis by simp
next
  case writer_tears
  with life_ok_client [OF ok, of "(li_client w)\<lparr>cl_writable := False\<rparr>"] show ?thesis by simp
next
  case (reader_exits panicked cause c told)
  with life_ok_exits [OF ok reader_exits(2,3)] show ?thesis by simp
qed (simp_all add: life_ok_leaves [OF ok])

interpretation life: step_invariant "life_step compile is_match" life_ok
  by unfold_locales (rule life_step_ok)

lemmas life_run_ok = life.run_keeps

section \<open>A client that was opened\<close>

text \<open>\<open>connect\<close>, \<open>publisher\<close> or \<open>serve\<close> gave this client for the URL.\<close>

definition opened_by :: "'f Float \<Rightarrow> 'k Os \<Rightarrow> files \<Rightarrow> string \<Rightarrow> ('re, 'k) Client \<Rightarrow> bool" where
  "opened_by fl os fs url c \<longleftrightarrow>
     (\<exists>subs fs'. client_connect fl os fs url subs = (Inr c, fs')) \<or>
     (\<exists>fs'. client_publisher fl os fs url = (Inr c, fs')) \<or>
     (\<exists>subs. client_serve fl os url subs = Inr c)"

definition opened_ok :: "('re, 'k) Client \<Rightarrow> bool" where
  "opened_ok c \<longleftrightarrow> cl_running c \<and> cl_writable c \<and>
     (case cl_transport c of TUdpm u \<Rightarrow> MIN_SHORT_MAX \<le> us_short_max u \<and> us_short_max u \<le> MAX_SHORT_MAX | _ \<Rightarrow> True)"

lemma client_new_opened: "opened_ok (client_new tr receives receiving) \<longleftrightarrow>
    (case tr of TUdpm u \<Rightarrow> MIN_SHORT_MAX \<le> us_short_max u \<and> us_short_max u \<le> MAX_SHORT_MAX | _ \<Rightarrow> True)"
  by (simp add: opened_ok_def client_new_def)

lemma open_udpm_opened:
  assumes "multicast_ok bus" and "open_udpm os bus receiving = (Inr c, calls)"
  shows "opened_ok c"
proof -
  let ?max = "case mb_short_max bus of Some n \<Rightarrow> n | None \<Rightarrow> SHORT_MESSAGE_MAX (pf_macos (os_platform os))"
  have "MIN_SHORT_MAX \<le> ?max \<and> ?max \<le> MAX_SHORT_MAX"
    using assms(1) by (auto simp: multicast_ok_def SHORT_MESSAGE_MAX_def SHORT_MESSAGE_MAX_APPLE_def MIN_SHORT_MAX_def
        MAX_SHORT_MAX_def MAX_UDP_PAYLOAD_def split: option.splits)
  moreover from assms(2) obtain u receives where "c = client_new (TUdpm u) receives receiving" "us_short_max u = ?max"
    by (auto simp: open_udpm_def Let_def split: prod.splits option.splits)
  ultimately show ?thesis by (simp add: client_new_opened)
qed

lemma open_tcpq_opened:
  assumes "open_tcpq os address receiving = (Inr (c, left), wire)"
  shows "opened_ok c"
proof -
  from assms have "c = client_new (TTcpq outbox_new) (receiving \<noteq> None) receiving"
    unfolding open_tcpq_def Let_def by (auto split: sum.splits option.splits prod.splits if_splits simp del: make_calls.simps)
  then show ?thesis by (simp add: client_new_opened)
qed

lemma open_log_opened: "open_log os fs log receiving = (Inr c, fs') \<Longrightarrow> opened_ok c"
  by (cases "lf_mode log"; cases receiving; cases "open_to_replay os fs (lf_path log)")
    (auto simp: open_log_def Let_def client_new_opened split: option.splits FileNode.splits)

lemma client_start_opened:
  assumes "bus_ok fl bus" and "client_start os fs bus receiving = (Inr c, fs')"
  shows "opened_ok c"
proof (cases bus)
  case (BusUdpm b)
  with assms open_udpm_opened [of b os receiving c] show ?thesis
    by (cases "open_udpm os b receiving") (simp add: client_start_def)
next
  case (BusTcpq relay)
  obtain r wire where o: "open_tcpq os (show_relay relay) receiving = (r, wire)" by (cases "open_tcpq os (show_relay relay) receiving")
  with assms(2) BusTcpq obtain left where "r = Inr (c, left)"
    by (cases r) (auto simp: client_start_def)
  with o open_tcpq_opened show ?thesis by blast
next
  case (BusFile log)
  with assms(2) open_log_opened show ?thesis by (auto simp: client_start_def)
qed

lemma opened_by_ok:
  assumes fl: "float_laws fl" and opened: "opened_by fl os fs url c"
  shows "opened_ok c"
proof -
  have start: "opened_ok c" if "parse_url fl url = Inr bus" "client_start os fs bus receiving = (Inr c, fs')" for bus receiving fs'
    using client_start_opened [OF parse_url_ok [OF fl that(1)] that(2)] .
  show ?thesis
  proof (cases "parse_url fl url")
    case (Inl e)
    with opened show ?thesis
      by (simp add: opened_by_def client_connect_def client_publisher_def client_serve_def parsed_def)
  next
    case (Inr bus)
    from opened show ?thesis unfolding opened_by_def
    proof (elim disjE exE)
      fix subs fs' assume "client_connect fl os fs url subs = (Inr c, fs')"
      with Inr start [OF Inr] show ?thesis by (simp add: client_connect_def parsed_def client_open_def)
    next
      fix fs' assume "client_publisher fl os fs url = (Inr c, fs')"
      with Inr start [OF Inr] show ?thesis
        by (cases bus) (auto simp: client_publisher_def parsed_def open_publisher_def split: if_splits)
    next
      fix subs assume s: "client_serve fl os url subs = Inr c"
      with Inr obtain relay where bus: "bus = BusTcpq relay"
        by (cases bus) (simp_all add: client_serve_def parsed_def)
      with s Inr obtain bound where "c = client_new (TServe (served_new (Some subs)) bound) True (Some subs)"
        by (auto simp: client_serve_def parsed_def serve_tcpq_def simp del: make_calls.simps split: option.splits sum.splits)
      then show ?thesis by (simp add: client_new_opened)
    qed
  qed
qed

text \<open>A closed client stays closed.\<close>

lemma happenings_closed:
  assumes "happenings compile is_match hs c = Some (rs, c', sent)" and "Calls Close \<in> snd ` set hs"
  shows "\<not> is_connected c'"
  using assms
proof (induction hs arbitrary: c rs sent)
  case Nil
  then show ?case by simp
next
  case (Cons h hs)
  obtain ou what where h: "h = (ou, what)" by (cases h)
  show ?case
  proof (cases what)
    case (Calls call)
    with Cons.prems(1) h obtain r c1 bs rs1 sent1 where 1: "client_call compile is_match ou call c = Some (r, c1, bs)"
      "happenings compile is_match hs c1 = Some (rs1, c', sent1)" by (auto simp: bind_eq_Some_conv)
    show ?thesis
    proof (cases "call = Close")
      case True
      with 1(1) close_fits(2,3) have "\<not> cl_writable c1" by (auto simp: client_call_def split: prod.splits)
      with happenings_fit [of compile is_match hs c1] 1(2) show ?thesis by (auto simp: stays_def is_connected_def)
    next
      case False
      with Cons.IH [OF 1(2)] Cons.prems(2) h Calls show ?thesis by auto
    qed
  qed (use Cons h in auto)
qed

end
