(* ===== verification/Leaving.thy ===== *)
theory Leaving
  imports ClientLife
begin

text \<open>
  \<open>Client::close\<close> with the calls it makes in their order: the threads it waits for, on whatever thread it is
  called, and the read that takes away what a relay still sent.
\<close>

section \<open>Reading away what a relay sent\<close>

definition LINGER :: nat where "LINGER = 250"
definition EMPTY_ENOUGH :: nat where "EMPTY_ENOUGH = 20"
definition LEFTOVER :: nat where "LEFTOVER = 16 * 1024"

text \<open>The clock at each turn of the loop; a list of turns that is over stands for a clock past the deadline.\<close>

fun close_drain :: "nat \<Rightarrow> nat list \<Rightarrow> script \<Rightarrow> script" where
  "close_drain leaving [] script = script"
| "close_drain leaving (at # ats) script =
     (if leaving \<le> at then script
      else case read_once LEFTOVER script of
          (Inr [], script') \<Rightarrow> script'
        | (Inr (b # bs), script') \<Rightarrow> close_drain leaving ats script'
        | (Inl e, script') \<Rightarrow> if e = Interrupted then close_drain leaving ats script' else script')"

text \<open>The turns before the deadline.\<close>

definition turns_before :: "nat \<Rightarrow> nat list \<Rightarrow> nat" where
  "turns_before leaving ats = length (takeWhile (\<lambda>at. at < leaving) ats)"

lemma turns_before_simps [simp]:
  "turns_before leaving [] = 0"
  "turns_before leaving (at # ats) = (if at < leaving then Suc (turns_before leaving ats) else 0)"
  by (simp_all add: turns_before_def)

text \<open>What is still to come at the first read that finds nothing, and the number of reads up to that one.\<close>

fun after_quiet :: "script \<Rightarrow> script" where
  "after_quiet [] = []"
| "after_quiet (SError e # rst) = (if e = Interrupted then after_quiet rst else rst)"
| "after_quiet (SBytes bs # rst) = (if bs = [] then rst else after_quiet rst)"

fun reads_to_quiet :: "script \<Rightarrow> nat" where
  "reads_to_quiet [] = 1"
| "reads_to_quiet (SError e # rst) = (if e = Interrupted then 1 + reads_to_quiet rst else 1)"
| "reads_to_quiet (SBytes bs # rst) =
     (if bs = [] then 1 else (length bs + (LEFTOVER - 1)) div LEFTOVER + reads_to_quiet rst)"

lemma room_pos: "0 < LEFTOVER"
  by (simp add: LEFTOVER_def)

lemma reads_rest:
  assumes "LEFTOVER < length bs"
  shows "reads_to_quiet (SBytes bs # rst) = Suc (reads_to_quiet (SBytes (drop LEFTOVER bs) # rst))"
proof -
  have "length bs + (LEFTOVER - 1) = (length bs - LEFTOVER + (LEFTOVER - 1)) + LEFTOVER" using assms by simp
  then have "(length bs + (LEFTOVER - 1)) div LEFTOVER = Suc ((length bs - LEFTOVER + (LEFTOVER - 1)) div LEFTOVER)"
    using room_pos by (metis div_add_self2 less_not_refl Suc_eq_plus1)
  with assms show ?thesis by auto
qed

lemma reads_one:
  assumes "bs \<noteq> []" and "length bs \<le> LEFTOVER"
  shows "reads_to_quiet (SBytes bs # rst) = Suc (reads_to_quiet rst)"
proof -
  have "1 \<le> length bs" using assms(1) by (cases bs) simp_all
  then have "(length bs + (LEFTOVER - 1)) div LEFTOVER = 1"
    using assms(2) room_pos by (intro div_nat_eqI) simp_all
  with assms show ?thesis by simp
qed

lemma reads_pos: "0 < reads_to_quiet script"
  by (induction script rule: reads_to_quiet.induct) simp_all

lemma close_drain_bytes:
  assumes "bs \<noteq> []" and "at < leaving"
  shows "close_drain leaving (at # ats) (SBytes bs # rst) =
    close_drain leaving ats (if length bs \<le> LEFTOVER then rst else SBytes (drop LEFTOVER bs) # rst)"
proof -
  from assms(1) room_pos obtain b bs' where "take LEFTOVER bs = b # bs'" by (cases "take LEFTOVER bs") auto
  with assms(2) show ?thesis by simp
qed

text \<open>With the time for it, the loop takes away all that is there, and nothing that comes after.\<close>

lemma close_drain_quiet:
  "reads_to_quiet script \<le> turns_before leaving ats \<Longrightarrow> close_drain leaving ats script = after_quiet script"
proof (induction ats arbitrary: script)
  case Nil
  with reads_pos [of script] show ?case by simp
next
  case (Cons at ats)
  have early: "at < leaving" using Cons.prems reads_pos [of script] by (simp split: if_splits)
  show ?case
  proof (cases script rule: reads_to_quiet.cases)
    case (3 bs rst)
    show ?thesis
    proof (cases "bs = []")
      case False
      show ?thesis
      proof (cases "length bs \<le> LEFTOVER")
        case True
        with Cons.prems 3 False early reads_one [OF False True] have "reads_to_quiet rst \<le> turns_before leaving ats" by simp
        from Cons.IH [OF this] show ?thesis by (simp only: 3 close_drain_bytes [OF False early] True if_True) (simp add: False)
      next
        case long: False
        with Cons.prems 3 early reads_rest [of bs rst]
        have "reads_to_quiet (SBytes (drop LEFTOVER bs) # rst) \<le> turns_before leaving ats" by simp
        from Cons.IH [OF this] show ?thesis using long
          by (simp only: 3 close_drain_bytes [OF False early] if_False) (simp add: False)
      qed
    qed (use 3 early in simp)
  qed (use Cons early in \<open>auto split: if_splits\<close>)
qed

text \<open>However the time goes, what it takes is a beginning, and no more than its reads can hold.\<close>

lemma close_drain_takes:
  "\<exists>gone. script_bytes script = gone @ script_bytes (close_drain leaving ats script) \<and>
    length gone \<le> turns_before leaving ats * LEFTOVER"
proof (induction ats arbitrary: script)
  case (Cons at ats)
  show ?case
  proof (cases "at < leaving")
    case early: True
    show ?thesis
    proof (cases script rule: reads_to_quiet.cases)
      case (2 e rst)
      show ?thesis
      proof (cases "e = Interrupted")
        case True
        with Cons.IH [of rst] 2 early show ?thesis by (auto intro: trans_le_add2)
      qed (use 2 early in simp)
    next
      case (3 bs rst)
      show ?thesis
      proof (cases "bs = []")
        case False
        let ?script = "if length bs \<le> LEFTOVER then rst else SBytes (drop LEFTOVER bs) # rst"
        from Cons.IH [of ?script] obtain gone where
          g: "script_bytes ?script = gone @ script_bytes (close_drain leaving ats ?script)"
            "length gone \<le> turns_before leaving ats * LEFTOVER" by blast
        have "script_bytes script = take LEFTOVER bs @ script_bytes ?script" by (simp add: 3)
        then have "script_bytes script = (take LEFTOVER bs @ gone) @ script_bytes (close_drain leaving (at # ats) script)"
          unfolding 3 close_drain_bytes [OF False early] using g(1) by simp
        moreover have "length (take LEFTOVER bs @ gone) \<le> turns_before leaving (at # ats) * LEFTOVER"
          using g(2) early by simp
        ultimately show ?thesis by blast
      qed (use 3 early in simp)
    qed (use early in simp)
  qed simp
qed simp

section \<open>The threads\<close>

text \<open>A thread that calls \<open>close\<close>, or is waited for in it. A handler runs on the reader of its client; that of a
  served relay runs on the reader of the peer that published, or on the thread of a user that did.\<close>

datatype Thread = User nat | ClientReader | ClientWriter | AcceptLoop | PeerWriter nat | PeerReader nat

text \<open>Whether the handle of a thread is still there to be taken.\<close>

record Handles =
  ha_reader :: bool
  ha_writer :: bool
  ha_accept :: bool

datatype CloseCall = ShutsSending | Joins Thread | SetsReadTimeout nat | ReadsAway | FlushesFile | CutsPeer nat

definition peer_threads :: "('re, 'k) Served \<Rightarrow> Thread list" where
  "peer_threads s = concat (map (\<lambda>i. [PeerWriter i, PeerReader i]) (sv_threads s))"

definition close_calls :: "Thread \<Rightarrow> Handles \<Rightarrow> ('re, 'k) Client \<Rightarrow> CloseCall list" where
  "close_calls me h c =
     (case cl_transport c of
        TTcpq q \<Rightarrow> ShutsSending # (if ha_writer h then [Joins ClientWriter] else []) @ [SetsReadTimeout EMPTY_ENOUGH, ReadsAway]
      | TLog lw \<Rightarrow> [FlushesFile]
      | TServe s bound \<Rightarrow>
          map CutsPeer (sv_peers s) @ map Joins (peer_threads s) @ (if ha_accept h then [Joins AcceptLoop] else [])
      | _ \<Rightarrow> []) @
     (if ha_reader h \<and> me \<noteq> ClientReader then [Joins ClientReader] else [])"

text \<open>
  A thread that joins itself gets no further: the standard library panics there, or waits for ever. So the calls
  made are those before that one, and the answer is \<open>None\<close>. A handle is taken just before its join, those of
  the threads of peers all at once.
\<close>

definition handles_after :: "Thread \<Rightarrow> Handles \<Rightarrow> ('re, 'k) Client \<Rightarrow> Handles" where
  "handles_after me h c =
     \<lparr>ha_reader = ha_reader h \<and> (me = ClientReader \<or> Joins me \<in> set (close_calls me h c)),
      ha_writer = (case cl_transport c of TTcpq q \<Rightarrow> False | _ \<Rightarrow> ha_writer h),
      ha_accept = (case cl_transport c of TServe s bound \<Rightarrow> ha_accept h \<and> me \<in> set (peer_threads s) | _ \<Rightarrow> ha_accept h)\<rparr>"

definition close_on ::
    "Thread \<Rightarrow> nat \<Rightarrow> nat list \<Rightarrow> script \<Rightarrow> Outside \<Rightarrow> Handles \<Rightarrow> ('re, 'k) Client \<Rightarrow>
     IoError option option \<times> ('re, 'k) Client \<times> Handles \<times> CloseCall list \<times> script" where
  "close_on me start ats script ou h c =
     (let (flushed, c') = client_close ou c; calls = close_calls me h c;
          made = takeWhile (\<lambda>x. x \<noteq> Joins me) calls in
      (if Joins me \<in> set calls then None else Some flushed, c', handles_after me h c, made,
       if ReadsAway \<in> set made then close_drain (start + LINGER) ats script else script))"

text \<open>The threads that are still to be waited for.\<close>

definition held_threads :: "Handles \<Rightarrow> ('re, 'k) Client \<Rightarrow> Thread list" where
  "held_threads h c =
     (if ha_writer h then [ClientWriter] else []) @
     (case cl_transport c of TServe s bound \<Rightarrow> peer_threads s | _ \<Rightarrow> []) @
     (if ha_accept h then [AcceptLoop] else []) @ (if ha_reader h then [ClientReader] else [])"

definition handles_fit :: "Handles \<Rightarrow> ('re, 'k) Client \<Rightarrow> bool" where
  "handles_fit h c \<longleftrightarrow> (ha_writer h \<longrightarrow> (\<exists>q. cl_transport c = TTcpq q)) \<and>
     (ha_accept h \<longrightarrow> (\<exists>s bound. cl_transport c = TServe s bound)) \<and>
     (ha_reader h \<longrightarrow> (\<forall>s bound. cl_transport c \<noteq> TServe s bound))"

text \<open>The handles of a client that was just opened.\<close>

definition handles_new :: "('re, 'k) Client \<Rightarrow> Handles" where
  "handles_new c =
     (case cl_transport c of
        TTcpq q \<Rightarrow> \<lparr>ha_reader = cl_receives c, ha_writer = True, ha_accept = False\<rparr>
      | TServe s bound \<Rightarrow> \<lparr>ha_reader = False, ha_writer = False, ha_accept = True\<rparr>
      | _ \<Rightarrow> \<lparr>ha_reader = cl_receives c, ha_writer = False, ha_accept = False\<rparr>)"

lemma handles_new_fit: "handles_fit (handles_new c) c"
  by (cases "cl_transport c") (simp_all add: handles_fit_def handles_new_def)

fun joined_by :: "CloseCall list \<Rightarrow> Thread list" where
  "joined_by [] = []"
| "joined_by (Joins t # rst) = t # joined_by rst"
| "joined_by (_ # rst) = joined_by rst"

lemma joined_by_append [simp]: "joined_by (xs @ ys) = joined_by xs @ joined_by ys"
  by (induction xs rule: joined_by.induct) simp_all

lemma joined_by_Joins [simp]: "joined_by (map Joins ts) = ts" "joined_by (map CutsPeer is) = []"
  by (induction ts) (simp_all, induction "is", simp_all)

lemma in_joined_by [simp]: "t \<in> set (joined_by xs) \<longleftrightarrow> Joins t \<in> set xs"
  by (induction xs rule: joined_by.induct) auto

text \<open>What \<open>close\<close> waits for is what is held, less the reader where that is the caller.\<close>

lemma joined_by_close:
  assumes "handles_fit h c"
  shows "joined_by (close_calls me h c) = filter (\<lambda>t. \<not> (t = ClientReader \<and> me = ClientReader)) (held_threads h c)"
  using assms
  by (cases "cl_transport c")
    (auto simp: close_calls_def held_threads_def handles_fit_def peer_threads_def filter_concat o_def)

lemma close_answers:
  assumes "handles_fit h c"
  shows "Joins me \<in> set (close_calls me h c) \<longleftrightarrow> me \<in> set (held_threads h c) \<and> me \<noteq> ClientReader"
  by (auto simp: in_joined_by [symmetric] joined_by_close [OF assms] simp del: in_joined_by)

lemma close_on_ends:
  assumes fit: "handles_fit h c" and on: "close_on me start ats script ou h c = (r, c', h', made, left)"
    and others: "me = ClientReader \<or> me \<notin> set (held_threads h c)"
  shows "r = Some (fst (client_close ou c))" "c' = snd (client_close ou c)"
    "made = close_calls me h c" "handles_fit h' c'"
    "held_threads h' c' = filter (\<lambda>t. t = ClientReader \<and> me = ClientReader) (held_threads h c)"
proof -
  from others have go: "Joins me \<notin> set (close_calls me h c)" by (auto simp: close_answers [OF fit])
  then have all: "takeWhile (\<lambda>x. x \<noteq> Joins me) (close_calls me h c) = close_calls me h c"
    by (auto simp: takeWhile_eq_all_conv)
  from on go all show "r = Some (fst (client_close ou c))" "c' = snd (client_close ou c)" "made = close_calls me h c"
    by (auto simp: close_on_def Let_def split: prod.splits)
  from on have h': "h' = handles_after me h c" by (simp add: close_on_def Let_def split: prod.splits)
  show "handles_fit h' c'" "held_threads h' c' = filter (\<lambda>t. t = ClientReader \<and> me = ClientReader) (held_threads h c)"
    using fit go others
    by (cases "cl_transport c"; auto simp: h' \<open>c' = _\<close> handles_fit_def handles_after_def client_close_def held_threads_def
        peer_threads_def shut_running split: if_splits)+
qed

section \<open>Close, over and over\<close>

text \<open>Each close with its thread, the time it starts, its clock, its socket and its file.\<close>

fun closes ::
    "(Thread \<times> nat \<times> nat list \<times> script \<times> Outside) list \<Rightarrow> Handles \<Rightarrow> ('re, 'k) Client \<Rightarrow>
     IoError option option list \<times> ('re, 'k) Client \<times> Handles \<times> CloseCall list" where
  "closes [] h c = ([], c, h, [])"
| "closes ((me, start, ats, script, ou) # rst) h c =
     (let (r, c, h, made, left) = close_on me start ats script ou h c; (rs, c, h, made') = closes rst h c in
      (r # rs, c, h, made @ made'))"

lemma joined_and_held:
  assumes "handles_fit h c" and "close_on me start ats script ou h c = (r, c', h', made, left)"
    and "me = ClientReader \<or> me \<notin> set (held_threads h c)"
  shows "mset (joined_by made) + mset (held_threads h' c') = mset (held_threads h c)"
  using multiset_partition [of "mset (held_threads h c)" "\<lambda>t. t = ClientReader \<and> me = ClientReader"]
  by (simp only: close_on_ends(3,5) [OF assms] joined_by_close [OF assms(1)] mset_filter add.commute)

lemma close_shuts:
  assumes "client_close ou c = (e, c')"
  shows "\<not> cl_running c' \<and> \<not> cl_writable c' \<and> kind_of c' = kind_of c"
  using close_fits [OF assms] by (simp add: call_fits_def stays_def)

lemma closes_end:
  "handles_fit h c \<Longrightarrow> closes cs h c = (rs, c', h', made) \<Longrightarrow>
    \<forall>x \<in> set cs. fst x = ClientReader \<or> fst x \<notin> set (held_threads h c) \<Longrightarrow>
    None \<notin> set rs \<and> length rs = length cs \<and> kind_of c' = kind_of c \<and>
    (cs \<noteq> [] \<longrightarrow> \<not> cl_running c' \<and> \<not> cl_writable c') \<and>
    mset (joined_by made) + mset (held_threads h' c') = mset (held_threads h c) \<and>
    (cs \<noteq> [] \<longrightarrow> held_threads h' c' =
      filter (\<lambda>t. t = ClientReader \<and> (\<forall>x \<in> set cs. fst x = ClientReader)) (held_threads h c))"
proof (induction cs arbitrary: h c rs made)
  case (Cons x cs)
  obtain me start ats script ou where x: "x = (me, start, ats, script, ou)" by (cases x) auto
  obtain r c1 h1 made1 left where on: "close_on me start ats script ou h c = (r, c1, h1, made1, left)"
    by (cases "close_on me start ats script ou h c") auto
  obtain rs2 c2 h2 made2 where run: "closes cs h1 c1 = (rs2, c2, h2, made2)" by (cases "closes cs h1 c1") auto
  from Cons.prems(2) x on run have res: "rs = r # rs2" "c' = c2" "h' = h2" "made = made1 @ made2" by auto
  from Cons.prems(3) x have mine: "me = ClientReader \<or> me \<notin> set (held_threads h c)" by simp
  note ends = close_on_ends [OF Cons.prems(1) on mine]
  obtain e where close: "client_close ou c = (e, c1)" using ends(2) by (cases "client_close ou c") auto
  have later: "\<forall>x \<in> set cs. fst x = ClientReader \<or> fst x \<notin> set (held_threads h1 c1)"
    using Cons.prems(3) by (auto simp: ends(5))
  from Cons.IH [OF ends(4) run [folded res(2,3)] later] close_shuts [OF close] joined_and_held [OF Cons.prems(1) on mine]
    ends(1,5) res x run close
  show ?case
    by (cases "cs = []") (auto simp: add.assoc filter_filter intro!: filter_cong)
qed simp

text \<open>The calls of a close of a connection to a relay, from a thread other than its writer.\<close>

lemma close_relay_calls:
  assumes "cl_transport c = TTcpq q" and "me \<noteq> ClientWriter"
    and "close_on me start ats script ou h c = (r, c', h', made, left)"
  shows "cl_transport c' = TTcpq (outbox_shut q) \<and> made = [ShutsSending] @ map Joins (if ha_writer h then [ClientWriter] else []) @
      [SetsReadTimeout EMPTY_ENOUGH, ReadsAway] @ map Joins (if ha_reader h \<and> me \<noteq> ClientReader then [ClientReader] else []) \<and>
    left = close_drain (start + LINGER) ats script"
  using assms by (auto simp: close_on_def close_calls_def client_close_def Let_def split: if_splits)

text \<open>A handler of a served relay that runs on the thread of a peer never comes back from a close of its relay.\<close>

lemma relay_handler_stuck:
  assumes "cl_transport c = TServe s bound" and "i \<in> set (sv_threads s)" and "handles_fit h c"
    and "close_on (PeerReader i) start ats script ou h c = (r, c', h', made, left)"
  shows "r = None \<and> ha_accept h' = ha_accept h"
proof -
  have "PeerReader i \<in> set (peer_threads s)" using assms(2) by (auto simp: peer_threads_def)
  with assms close_answers [OF assms(3), of "PeerReader i"] show ?thesis
    by (auto simp: close_on_def held_threads_def Let_def handles_after_def split: prod.splits)
qed

end
