(* ===== verification/OutboxRun.thy ===== *)
theory OutboxRun
  imports Outbox
begin

text \<open>
  The threads around one outbox, as a step relation: publishers that wait in line, callers of \<open>subscribe\<close>,
  the writer thread, and \<open>close\<close>. One step is what one thread does under the lock, or one write of a frame;
  which thread is next, whether a deadline is over, and what the socket answers are free. The world keeps
  what was let in, what reached the wire and the bytes of the stream, so that conservation can be said.
\<close>

section \<open>Steps\<close>

text \<open>\<open>WLeaving\<close> is the writer past its loop, \<open>WShut\<close> after \<open>shut\<close> and \<open>WEnded\<close> after \<open>abandon\<close>, the two
  calls of its \<open>Drop\<close>.\<close>

datatype Writer = WIdle | WHolds Lane bytes | WLeaving | WShut | WEnded

record World =
  wo_queue :: Queue
  wo_callers :: "(nat \<times> bytes) list"
  wo_writer :: Writer
  wo_put :: "bytes list"
  wo_told :: "bytes list"
  wo_wire :: "(Lane \<times> bytes) list"
  wo_stream :: bytes

definition world_new :: World where
  "world_new = \<lparr>wo_queue = outbox_new, wo_callers = [], wo_writer = WIdle, wo_put = [], wo_told = [],
     wo_wire = [], wo_stream = []\<rparr>"

text \<open>What an answer does to the list of the frames let in.\<close>

definition noted :: "(Refused + unit) option \<Rightarrow> bytes \<Rightarrow> bytes list \<Rightarrow> bytes list" where
  "noted ans frame fs = (if ans = Some (Inr ()) then fs @ [frame] else fs)"

inductive outbox_step :: "World \<Rightarrow> World \<Rightarrow> bool" where
  publish: "put_enter (wo_queue w) = (ticket, q) \<Longrightarrow> put_turn q ticket frame expired = (q', ans) \<Longrightarrow>
    outbox_step w (w\<lparr>wo_queue := q', wo_put := noted ans frame (wo_put w),
      wo_callers := (if ans = None then wo_callers w @ [(ticket, frame)] else wo_callers w)\<rparr>)"
| wake: "(ticket, frame) \<in> set (wo_callers w) \<Longrightarrow>
    put_turn (wo_queue w) ticket frame expired = (q', ans) \<Longrightarrow>
    outbox_step w (w\<lparr>wo_queue := q', wo_put := noted ans frame (wo_put w),
      wo_callers := (if ans = None then wo_callers w
        else filter (\<lambda>c. fst c \<noteq> ticket) (wo_callers w))\<rparr>)"
| subscribe: "put_control_turn (wo_queue w) frame expired = (q', ans) \<Longrightarrow>
    outbox_step w (w\<lparr>wo_queue := q', wo_told := noted ans frame (wo_told w)\<rparr>)"
| take_frame: "wo_writer w = WIdle \<Longrightarrow> take_turn (wo_queue w) = (Some (lane, frame), q') \<Longrightarrow>
    outbox_step w (w\<lparr>wo_queue := q', wo_writer := WHolds lane frame\<rparr>)"
| wrote: "wo_writer w = WHolds lane frame \<Longrightarrow> write_loop clock writes n frame moved = (None, bs) \<Longrightarrow>
    outbox_step w (w\<lparr>wo_queue := outbox_done (wo_queue w) True, wo_writer := WIdle,
      wo_wire := wo_wire w @ [(lane, frame)], wo_stream := wo_stream w @ bs\<rparr>)"
| tore: "wo_writer w = WHolds lane frame \<Longrightarrow> write_loop clock writes n frame moved = (Some e, bs) \<Longrightarrow>
    outbox_step w (w\<lparr>wo_queue := outbox_done (wo_queue w) False, wo_writer := WLeaving,
      wo_stream := wo_stream w @ bs\<rparr>)"
| panicked: "wo_writer w = WHolds lane frame \<Longrightarrow> frame = bs @ rst \<Longrightarrow>
    outbox_step w (w\<lparr>wo_writer := WLeaving, wo_stream := wo_stream w @ bs\<rparr>)"
| stopped: "wo_writer w = WIdle \<Longrightarrow> outbox_step w (w\<lparr>wo_writer := WLeaving\<rparr>)"
| exit_shut: "wo_writer w = WLeaving \<Longrightarrow>
    outbox_step w (w\<lparr>wo_queue := outbox_shut (wo_queue w), wo_writer := WShut\<rparr>)"
| exit_abandon: "wo_writer w = WShut \<Longrightarrow>
    outbox_step w (w\<lparr>wo_queue := outbox_abandon (wo_queue w), wo_writer := WEnded\<rparr>)"
| close: "outbox_step w (w\<lparr>wo_queue := outbox_shut (wo_queue w)\<rparr>)"

abbreviation outbox_run :: "World \<Rightarrow> World \<Rightarrow> bool" where
  "outbox_run \<equiv> rtranclp outbox_step"

section \<open>Invariants\<close>

fun lane_queue :: "Lane \<Rightarrow> Queue \<Rightarrow> bytes list" where
  "lane_queue Message q = qu_messages q" | "lane_queue Control q = qu_control q"

fun lane_sent :: "Lane \<Rightarrow> Queue \<Rightarrow> Sent" where
  "lane_sent Message q = qu_sent q" | "lane_sent Control q = qu_control_sent q"

fun lane_in :: "Lane \<Rightarrow> World \<Rightarrow> bytes list" where
  "lane_in Message w = wo_put w" | "lane_in Control w = wo_told w"

definition lane_wire :: "Lane \<Rightarrow> World \<Rightarrow> bytes list" where
  "lane_wire lane w = map snd (filter (\<lambda>x. fst x = lane) (wo_wire w))"

definition lane_held :: "Lane \<Rightarrow> World \<Rightarrow> bytes list" where
  "lane_held lane w = (case wo_writer w of WHolds l f \<Rightarrow> if l = lane then [f] else [] | _ \<Rightarrow> [])"

definition alive :: "World \<Rightarrow> bool" where
  "alive w \<longleftrightarrow> (case wo_writer w of WIdle \<Rightarrow> True | WHolds l f \<Rightarrow> True | _ \<Rightarrow> False)"

definition frames_cost :: "bytes list \<Rightarrow> nat" where
  "frames_cost fs = (\<Sum>f\<leftarrow>fs. length f + FRAME_COST)"

lemma frames_cost_simps [simp]:
  "frames_cost [] = 0" "frames_cost (f # fs) = length f + FRAME_COST + frames_cost fs"
  "frames_cost (fs @ gs) = frames_cost fs + frames_cost gs"
  by (simp_all add: frames_cost_def)

text \<open>The counts of a line, and what of it is where.\<close>

definition counts_ok :: "World \<Rightarrow> Lane \<Rightarrow> bool" where
  "counts_ok w lane \<longleftrightarrow> (let q = wo_queue w; s = lane_sent lane q in
     se_taken s = length (lane_in lane w) \<and> se_wrote s = length (lane_wire lane w) \<and>
     se_taken s = se_wrote s + se_lost s + length (lane_queue lane q)
       + (if qu_in_hand q = Some lane then 1 else 0))"

definition order_ok :: "World \<Rightarrow> Lane \<Rightarrow> bool" where
  "order_ok w lane \<longleftrightarrow> (\<exists>rst. lane_in lane w = lane_wire lane w @ rst \<and>
     (alive w \<longrightarrow> (\<exists>dropped. rst = lane_held lane w @ lane_queue lane (wo_queue w) @ dropped \<and>
        (qu_open (wo_queue w) \<longrightarrow> dropped = []))))"

definition queue_ok :: "World \<Rightarrow> bool" where
  "queue_ok w \<longleftrightarrow> (let q = wo_queue w in
     qu_waiting q = frames_cost (qu_messages q) \<and> qu_control_waiting q = frames_cost (qu_control q) \<and>
     (qu_open q \<or> qu_messages q = [] \<and> qu_control q = []) \<and>
     (case wo_writer w of
        WIdle \<Rightarrow> qu_in_hand q = None
      | WHolds lane f \<Rightarrow> qu_in_hand q = Some lane
      | WLeaving \<Rightarrow> True
      | WShut \<Rightarrow> \<not> qu_open q
      | WEnded \<Rightarrow> \<not> qu_open q \<and> qu_in_hand q = None))"

definition line_ok :: "World \<Rightarrow> bool" where
  "line_ok w \<longleftrightarrow> (let q = wo_queue w in
     sorted_wrt (<) (qu_line q) \<and> (\<forall>t \<in> set (qu_line q). t < qu_next_ticket q) \<and>
     map fst (wo_callers w) = qu_line q)"

definition stream_ok :: "World \<Rightarrow> bool" where
  "stream_ok w \<longleftrightarrow> (\<exists>part. wo_stream w = concat (map snd (wo_wire w)) @ part \<and> (alive w \<longrightarrow> part = []))"

definition outbox_ok :: "World \<Rightarrow> bool" where
  "outbox_ok w \<longleftrightarrow> (\<forall>lane. counts_ok w lane \<and> order_ok w lane) \<and> queue_ok w \<and> line_ok w \<and> stream_ok w"

lemmas queue_defs = put_enter_def put_leave_def put_turn_def put_control_turn_def take_turn_def
  outbox_done_def outbox_shut_def outbox_abandon_def let_in_def wrote_one_def lost_some_def noted_def

lemma world_new_ok: "outbox_ok world_new"
proof -
  have "counts_ok world_new lane" "order_ok world_new lane" for lane
    by (cases lane; simp add: counts_ok_def order_ok_def world_new_def outbox_new_def sent_new_def
        lane_wire_def lane_held_def)+
  then show ?thesis
    by (simp add: outbox_ok_def queue_ok_def line_ok_def stream_ok_def world_new_def outbox_new_def)
qed

lemma all_lanes: "(\<forall>lane. P lane) \<longleftrightarrow> P Message \<and> P Control"
  by (metis Lane.exhaust)

lemma in_hand:
  assumes "queue_ok w"
  shows "wo_writer w = WIdle \<Longrightarrow> qu_in_hand (wo_queue w) = None"
    and "wo_writer w = WHolds lane f \<Longrightarrow> qu_in_hand (wo_queue w) = Some lane"
  using assms by (simp_all add: queue_ok_def Let_def)

text \<open>What each operation does to the counts of a line.\<close>

definition balance :: "Lane \<Rightarrow> Queue \<Rightarrow> nat \<times> nat \<times> nat \<times> nat \<times> bool" where
  "balance lane q = (se_taken (lane_sent lane q), se_wrote (lane_sent lane q), se_lost (lane_sent lane q),
     length (lane_queue lane q), qu_in_hand q = Some lane)"

lemma counts_ok_balance:
  "counts_ok w lane \<longleftrightarrow> (case balance lane (wo_queue w) of (taken, wrote, lost, queued, held) \<Rightarrow>
     taken = length (lane_in lane w) \<and> wrote = length (lane_wire lane w) \<and>
     taken = wrote + lost + queued + (if held then 1 else 0))"
  by (simp add: counts_ok_def balance_def Let_def)

lemma balance_put:
  assumes "put_turn q t frame expired = (q', ans)" and "balance lane q = (k, w, l, n, h)"
  shows "balance lane q' = (if lane = Message \<and> ans = Some (Inr ()) then (k + 1, w, l, n + 1, h) else (k, w, l, n, h))"
  using assms by (cases lane) (auto simp: balance_def put_turn_def put_leave_def let_in_def split: if_splits)

lemma balance_put_control:
  assumes "put_control_turn q frame expired = (q', ans)" and "balance lane q = (k, w, l, n, h)"
  shows "balance lane q' = (if lane = Control \<and> ans = Some (Inr ()) then (k + 1, w, l, n + 1, h) else (k, w, l, n, h))"
  using assms by (cases lane) (auto simp: balance_def put_control_turn_def let_in_def split: if_splits)

lemma balance_enter: "put_enter q = (t, q') \<Longrightarrow> balance lane q' = balance lane q"
  by (cases lane) (auto simp: balance_def put_enter_def)

lemma balance_take:
  assumes "take_turn q = (Some (l', f), q')" and "balance lane q = (k, w, l, n, h)" and "qu_in_hand q = None"
  shows "balance lane q' = (if lane = l' then (k, w, l, n - 1, True) else (k, w, l, n, False)) \<and> (lane = l' \<longrightarrow> 0 < n)"
  using assms by (cases lane) (auto simp: balance_def take_turn_def split: list.splits)

lemma balance_done:
  assumes "qu_in_hand q = Some l'" and "balance lane q = (k, w, l, n, h)"
  shows "balance lane (outbox_done q went) =
    (if lane = l' then (k, if went then w + 1 else w, if went then l else l + 1, n, False) else (k, w, l, n, False))"
  using assms by (cases lane; cases l'; cases went) (auto simp: balance_def outbox_done_def wrote_one_def lost_some_def)

lemma balance_shut:
  "balance lane q = (k, w, l, n, h) \<Longrightarrow> balance lane (outbox_shut q) = (k, w, l + n, 0, h)"
  by (cases lane) (auto simp: balance_def outbox_shut_def lost_some_def)

lemma balance_abandon:
  "balance lane q = (k, w, l, n, h) \<Longrightarrow> balance lane (outbox_abandon q) = (k, w, l + (if h then 1 else 0), n, False)"
  by (cases lane; cases "qu_in_hand q"; cases "the (qu_in_hand q)")
    (auto simp: balance_def outbox_abandon_def lost_some_def)

lemma lane_in_same [simp]:
  "lane_in lane (w\<lparr>wo_queue := q\<rparr>) = lane_in lane w" "lane_in lane (w\<lparr>wo_writer := x\<rparr>) = lane_in lane w"
  "lane_in lane (w\<lparr>wo_wire := y\<rparr>) = lane_in lane w" "lane_in lane (w\<lparr>wo_stream := z\<rparr>) = lane_in lane w"
  "lane_in lane (w\<lparr>wo_callers := cs\<rparr>) = lane_in lane w"
  "lane_in lane (w\<lparr>wo_put := fs\<rparr>) = (if lane = Message then fs else lane_in lane w)"
  "lane_in lane (w\<lparr>wo_told := fs\<rparr>) = (if lane = Control then fs else lane_in lane w)"
  by (cases lane; simp)+

lemma lane_wire_same [simp]:
  "lane_wire lane (w\<lparr>wo_queue := q\<rparr>) = lane_wire lane w" "lane_wire lane (w\<lparr>wo_writer := x\<rparr>) = lane_wire lane w"
  "lane_wire lane (w\<lparr>wo_put := fs\<rparr>) = lane_wire lane w" "lane_wire lane (w\<lparr>wo_stream := z\<rparr>) = lane_wire lane w"
  "lane_wire lane (w\<lparr>wo_callers := cs\<rparr>) = lane_wire lane w" "lane_wire lane (w\<lparr>wo_told := fs\<rparr>) = lane_wire lane w"
  "lane_wire lane (v\<lparr>wo_wire := wo_wire w @ [(l, f)]\<rparr>) = lane_wire lane w @ (if l = lane then [f] else [])"
  by (simp_all add: lane_wire_def)

lemma counts_step:
  assumes step: "outbox_step w w'" and ok: "queue_ok w" and counts: "counts_ok w lane"
  shows "counts_ok w' lane"
proof -
  obtain k u l n h where b: "balance lane (wo_queue w) = (k, u, l, n, h)" by (cases "balance lane (wo_queue w)")
  with counts have c: "k = length (lane_in lane w)" "u = length (lane_wire lane w)"
    "k = u + l + n + (if h then 1 else 0)" by (simp_all add: counts_ok_balance)
  have h: "h \<longleftrightarrow> qu_in_hand (wo_queue w) = Some lane" using b by (auto simp: balance_def)
  from step show ?thesis
  proof (cases rule: outbox_step.cases)
    case (publish ticket q frame expired q' ans)
    from balance_put [OF publish(3), of lane] balance_enter [OF publish(2), of lane] b c show ?thesis
      unfolding publish(1) counts_ok_balance by (cases lane) (auto simp: noted_def)
  next
    case (wake ticket frame expired q' ans)
    from balance_put [OF wake(3) b] c show ?thesis
      unfolding wake(1) counts_ok_balance by (cases lane) (auto simp: noted_def)
  next
    case (subscribe frame expired q' ans)
    from balance_put_control [OF subscribe(2) b] c show ?thesis
      unfolding subscribe(1) counts_ok_balance by (cases lane) (auto simp: noted_def)
  next
    case (take_frame l' frame q')
    from balance_take [OF take_frame(3) b in_hand(1) [OF ok take_frame(2)]] in_hand(1) [OF ok take_frame(2)] h c
    show ?thesis unfolding take_frame(1) counts_ok_balance by auto
  next
    case (wrote l' frame clock writes m moved bs)
    from balance_done [OF in_hand(2) [OF ok wrote(2)] b] in_hand(2) [OF ok wrote(2)] h c
    show ?thesis unfolding wrote(1) counts_ok_balance by auto
  next
    case (tore l' frame clock writes m moved e bs)
    from balance_done [OF in_hand(2) [OF ok tore(2)] b] in_hand(2) [OF ok tore(2)] h c
    show ?thesis unfolding tore(1) counts_ok_balance by auto
  next
    case exit_abandon
    from balance_abandon [OF b] c show ?thesis unfolding exit_abandon(1) counts_ok_balance by simp
  next
    case exit_shut
    from balance_shut [OF b] c show ?thesis unfolding exit_shut(1) counts_ok_balance by simp
  next
    case close
    from balance_shut [OF b] c show ?thesis unfolding close counts_ok_balance by simp
  qed (use b c in \<open>simp_all add: counts_ok_balance\<close>)
qed

text \<open>The queue alone, and what the writer has in hand.\<close>

definition sizes_ok :: "Queue \<Rightarrow> bool" where
  "sizes_ok q \<longleftrightarrow> qu_waiting q = frames_cost (qu_messages q) \<and>
     qu_control_waiting q = frames_cost (qu_control q) \<and>
     (\<not> qu_open q \<longrightarrow> qu_messages q = [] \<and> qu_control q = [])"

definition hand_ok :: "World \<Rightarrow> bool" where
  "hand_ok w \<longleftrightarrow> (case wo_writer w of
     WIdle \<Rightarrow> qu_in_hand (wo_queue w) = None
   | WHolds lane f \<Rightarrow> qu_in_hand (wo_queue w) = Some lane
   | WLeaving \<Rightarrow> True
   | WShut \<Rightarrow> \<not> qu_open (wo_queue w)
   | WEnded \<Rightarrow> \<not> qu_open (wo_queue w) \<and> qu_in_hand (wo_queue w) = None)"

lemma queue_ok_split: "queue_ok w \<longleftrightarrow> sizes_ok (wo_queue w) \<and> hand_ok w"
  by (auto simp: queue_ok_def sizes_ok_def hand_ok_def Let_def)

lemma put_turn_sizes:
  assumes "sizes_ok q" and "put_turn q t frame expired = (q', ans)"
  shows "sizes_ok q'" and "qu_in_hand q' = qu_in_hand q" and "qu_open q' = qu_open q"
  using assms by (auto simp: sizes_ok_def put_turn_def put_leave_def split: if_splits)

lemma put_control_sizes:
  assumes "sizes_ok q" and "put_control_turn q frame expired = (q', ans)"
  shows "sizes_ok q'" and "qu_in_hand q' = qu_in_hand q" and "qu_open q' = qu_open q"
  using assms by (auto simp: sizes_ok_def put_control_turn_def split: if_splits)

lemma put_enter_sizes:
  assumes "sizes_ok q" and "put_enter q = (t, q')"
  shows "sizes_ok q'" and "qu_in_hand q' = qu_in_hand q" and "qu_open q' = qu_open q"
  using assms by (auto simp: sizes_ok_def put_enter_def)

lemma take_turn_sizes:
  assumes "sizes_ok q" and "take_turn q = (Some (lane, f), q')"
  shows "sizes_ok q'" and "qu_in_hand q' = Some lane"
  using assms by (auto simp: sizes_ok_def take_turn_def split: list.splits)

lemma done_sizes:
  "sizes_ok q \<Longrightarrow> sizes_ok (outbox_done q went)" "qu_in_hand (outbox_done q went) = None"
  by (auto simp: sizes_ok_def outbox_done_def split: option.split)

lemma shut_sizes:
  "sizes_ok (outbox_shut q)" "qu_in_hand (outbox_shut q) = qu_in_hand q" "\<not> qu_open (outbox_shut q)"
  by (simp_all add: sizes_ok_def outbox_shut_def)

lemma abandon_sizes:
  "sizes_ok q \<Longrightarrow> sizes_ok (outbox_abandon q)" "qu_in_hand (outbox_abandon q) = None"
  "qu_open (outbox_abandon q) = qu_open q"
  by (auto simp: sizes_ok_def outbox_abandon_def split: option.split)

lemma hand_same:
  assumes "hand_ok w" and "wo_writer w' = wo_writer w" and "qu_in_hand (wo_queue w') = qu_in_hand (wo_queue w)"
    and "qu_open (wo_queue w') \<longrightarrow> qu_open (wo_queue w)"
  shows "hand_ok w'"
  using assms by (auto simp: hand_ok_def split: Writer.splits)

lemma queue_step:
  assumes step: "outbox_step w w'" and "queue_ok w"
  shows "queue_ok w'"
proof -
  from assms(2) have s: "sizes_ok (wo_queue w)" and h: "hand_ok w" by (simp_all add: queue_ok_split)
  from step show ?thesis
  proof (cases rule: outbox_step.cases)
    case (publish ticket q frame expired q' ans)
    note E = put_enter_sizes [OF s publish(2)] and P = put_turn_sizes [OF _ publish(3)]
    from E P [OF E(1)] show ?thesis by (simp add: queue_ok_split publish(1) hand_same [OF h])
  next
    case (wake ticket frame expired q' ans)
    from put_turn_sizes [OF s wake(3)] show ?thesis by (simp add: queue_ok_split wake(1) hand_same [OF h])
  next
    case (subscribe frame expired q' ans)
    from put_control_sizes [OF s subscribe(2)] show ?thesis by (simp add: queue_ok_split subscribe(1) hand_same [OF h])
  next
    case (take_frame lane frame q')
    from take_turn_sizes [OF s take_frame(3)] show ?thesis by (simp add: queue_ok_split take_frame(1) hand_ok_def)
  next
    case (exit_abandon)
    with h have "\<not> qu_open (wo_queue w)" by (simp add: hand_ok_def)
    with s show ?thesis by (simp add: queue_ok_split exit_abandon(1) hand_ok_def abandon_sizes)
  next
    case close
    show ?thesis by (simp add: queue_ok_split close shut_sizes hand_same [OF h])
  qed (use s in \<open>simp_all add: queue_ok_split hand_ok_def done_sizes shut_sizes\<close>)
qed

lemma stream_step:
  assumes "outbox_step w w'" and "stream_ok w"
  shows "stream_ok w'"
  using assms
proof (cases rule: outbox_step.cases)
  case (wrote lane frame clock writes n moved bs)
  from write_loop_bytes [OF wrote(3)] have "bs = frame" by auto
  with wrote assms(2) show ?thesis by (auto simp: stream_ok_def alive_def)
qed (auto simp: stream_ok_def alive_def)

text \<open>While the writer is alive, what was let in is what it wrote, what it holds and what waits; \<open>shut\<close>
  drops from the end.\<close>

lemma order_alive:
  assumes "order_ok w lane" and "alive w"
  obtains dropped where "lane_in lane w = lane_wire lane w @ lane_held lane w @ lane_queue lane (wo_queue w) @ dropped"
    and "qu_open (wo_queue w) \<longrightarrow> dropped = []"
  using assms by (auto simp: order_ok_def)

lemma order_okI:
  assumes "lane_in lane w = lane_wire lane w @ lane_held lane w @ lane_queue lane (wo_queue w) @ dropped"
    and "qu_open (wo_queue w) \<longrightarrow> dropped = []"
  shows "order_ok w lane"
  using assms by (auto simp: order_ok_def)

lemma order_dead:
  assumes "lane_in lane w = lane_wire lane w @ rst" and "\<not> alive w"
  shows "order_ok w lane"
  using assms by (simp add: order_ok_def)

text \<open>A step that lets frames in, and does nothing else to a line.\<close>

lemma order_grow:
  assumes ok: "order_ok w lane" and "lane_wire lane w' = lane_wire lane w" and "wo_writer w' = wo_writer w"
    and "qu_open (wo_queue w') = qu_open (wo_queue w)"
    and "lane_in lane w' = lane_in lane w @ fs" and "lane_queue lane (wo_queue w') = lane_queue lane (wo_queue w) @ fs"
    and "fs \<noteq> [] \<longrightarrow> qu_open (wo_queue w)"
  shows "order_ok w' lane"
  using assms by (cases "fs = []") (auto simp: order_ok_def alive_def lane_held_def)

lemma order_step:
  assumes step: "outbox_step w w'" and ok: "queue_ok w" and order: "order_ok w lane"
  shows "order_ok w' lane"
proof -
  from order obtain rst where before: "lane_in lane w = lane_wire lane w @ rst" by (auto simp: order_ok_def)
  from step show ?thesis
  proof (cases rule: outbox_step.cases)
    case (publish ticket q frame expired q' ans)
    show ?thesis
      by (rule order_grow [OF order, where fs = "if lane = Message then noted ans frame [] else []"])
        (use publish in \<open>cases lane; auto simp: queue_defs lane_wire_def split: if_splits\<close>)+
  next
    case (wake ticket frame expired q' ans)
    show ?thesis
      by (rule order_grow [OF order, where fs = "if lane = Message then noted ans frame [] else []"])
        (use wake in \<open>cases lane; auto simp: queue_defs lane_wire_def split: if_splits\<close>)+
  next
    case (subscribe frame expired q' ans)
    show ?thesis
      by (rule order_grow [OF order, where fs = "if lane = Control then noted ans frame [] else []"])
        (use subscribe in \<open>cases lane; auto simp: queue_defs lane_wire_def split: if_splits\<close>)+
  next
    case (take_frame l frame q')
    then have "alive w" by (simp add: alive_def)
    with order obtain dropped where d: "lane_in lane w = lane_wire lane w @ lane_held lane w
        @ lane_queue lane (wo_queue w) @ dropped" "qu_open (wo_queue w) \<longrightarrow> dropped = []" by (rule order_alive)
    show ?thesis
      by (rule order_okI [where dropped = dropped])
        (use take_frame d in \<open>cases lane; auto simp: take_turn_def lane_held_def lane_wire_def split: list.splits\<close>)+
  next
    case (wrote l frame clock writes n moved bs)
    then have "alive w" by (simp add: alive_def)
    with order obtain dropped where d: "lane_in lane w = lane_wire lane w @ lane_held lane w
        @ lane_queue lane (wo_queue w) @ dropped" "qu_open (wo_queue w) \<longrightarrow> dropped = []" by (rule order_alive)
    show ?thesis
      by (rule order_okI [where dropped = dropped])
        (use wrote d in_hand(2) [OF ok wrote(2)] in \<open>cases lane; cases l; auto simp: outbox_done_def lane_held_def lane_wire_def\<close>)+
  next
    case close
    show ?thesis
    proof (cases "alive w")
      case True
      with order obtain dropped where d: "lane_in lane w = lane_wire lane w @ lane_held lane w
          @ lane_queue lane (wo_queue w) @ dropped" by (rule order_alive)
      show ?thesis
        by (rule order_okI [where dropped = "lane_queue lane (wo_queue w) @ dropped"])
          (use close d in \<open>cases lane; simp add: outbox_shut_def lane_held_def lane_wire_def\<close>)+
    next
      case False
      show ?thesis
        by (rule order_dead [where rst = rst])
          (use close before False in \<open>cases lane; simp add: lane_wire_def alive_def\<close>)+
    qed
  qed (rule order_dead [where rst = rst]; use before in \<open>cases lane; simp add: lane_wire_def alive_def\<close>)+
qed

lemma line_filter:
  assumes "sorted_wrt (<) (ticket # line)"
  shows "filter (\<lambda>t. t \<noteq> (ticket :: nat)) line = line"
  using assms by (auto simp: filter_id_conv)

lemma map_fst_filter: "map fst (filter (\<lambda>c. fst c \<noteq> t) cs) = filter (\<lambda>u. u \<noteq> t) (map fst cs)"
  by (induction cs) auto

lemma line_step:
  assumes "outbox_step w w'" and "line_ok w"
  shows "line_ok w'"
  using assms
proof (cases rule: outbox_step.cases)
  case (publish ticket q frame expired q' ans)
  let ?l = "qu_line (wo_queue w)"
  from assms(2) have l: "sorted_wrt (<) ?l" "\<forall>t \<in> set ?l. t < qu_next_ticket (wo_queue w)"
    "map fst (wo_callers w) = ?l" by (simp_all add: line_ok_def Let_def)
  from publish(2) have q: "ticket = qu_next_ticket (wo_queue w)" "qu_line q = ?l @ [ticket]"
    "qu_next_ticket q = Suc ticket" by (auto simp: put_enter_def)
  have same: "filter (\<lambda>t. t \<noteq> ticket) ?l = ?l" using l(2) q(1) by (auto simp: filter_id_conv)
  have tl: "?l = []" if "hd (?l @ [ticket]) = ticket" using that l(2) q(1) by (cases ?l) auto
  from publish(3) l q same tl show ?thesis
    by (auto simp: publish(1) line_ok_def put_turn_def put_leave_def sorted_wrt_append less_Suc_eq split: if_splits)
next
  case (wake ticket frame expired q' ans)
  let ?l = "qu_line (wo_queue w)"
  from assms(2) have l: "sorted_wrt (<) ?l" "\<forall>t \<in> set ?l. t < qu_next_ticket (wo_queue w)"
    "map fst (wo_callers w) = ?l" by (simp_all add: line_ok_def Let_def)
  have "filter (\<lambda>t. t \<noteq> ticket) ?l = tl ?l" if "?l \<noteq> []" "hd ?l = ticket"
    using that l(1) line_filter by (cases ?l) auto
  moreover have "sorted_wrt (<) (tl ?l)" using l(1) by (cases ?l) auto
  ultimately show ?thesis
    using wake(3) l by (auto simp: wake(1) line_ok_def put_turn_def put_leave_def map_fst_filter
        sorted_wrt_filter list.set_sel(2) split: if_splits)
qed (auto simp: line_ok_def queue_defs Let_def split: if_splits list.splits option.splits)

lemma outbox_step_ok: "outbox_step w w' \<Longrightarrow> outbox_ok w \<Longrightarrow> outbox_ok w'"
  unfolding outbox_ok_def using counts_step queue_step order_step line_step stream_step by blast

interpretation outbox: step_invariant outbox_step outbox_ok
  by unfold_locales (rule outbox_step_ok)

lemmas outbox_run_ok = outbox.run_keeps

lemma reachable_ok: "outbox_run world_new w \<Longrightarrow> outbox_ok w"
  using outbox_run_ok world_new_ok by blast

section \<open>What follows from the invariant\<close>

lemma wire_prefix:
  assumes "outbox_ok w"
  shows "\<exists>rst. lane_in lane w = lane_wire lane w @ rst"
  using assms by (auto simp: outbox_ok_def order_ok_def)

lemma counted:
  assumes "outbox_ok w"
  shows "se_taken (lane_sent lane (wo_queue w)) = length (lane_in lane w)"
    and "se_wrote (lane_sent lane (wo_queue w)) = length (lane_wire lane w)"
    and "length (lane_in lane w) = length (lane_wire lane w) + se_lost (lane_sent lane (wo_queue w))
      + length (lane_queue lane (wo_queue w)) + (if qu_in_hand (wo_queue w) = Some lane then 1 else 0)"
proof -
  from assms have "counts_ok w lane" by (simp add: outbox_ok_def)
  note c = this [unfolded counts_ok_def Let_def]
  from c show "se_taken (lane_sent lane (wo_queue w)) = length (lane_in lane w)"
    and "se_wrote (lane_sent lane (wo_queue w)) = length (lane_wire lane w)" by blast+
  from c show "length (lane_in lane w) = length (lane_wire lane w) + se_lost (lane_sent lane (wo_queue w))
      + length (lane_queue lane (wo_queue w)) + (if qu_in_hand (wo_queue w) = Some lane then 1 else 0)"
    by metis
qed

lemma ended_counted:
  assumes "outbox_ok w" and "wo_writer w = WEnded"
  shows "length (lane_in lane w) = length (lane_wire lane w) + se_lost (lane_sent lane (wo_queue w))"
proof -
  from assms have "queue_ok w" by (simp add: outbox_ok_def)
  with assms(2) have "qu_messages (wo_queue w) = []" "qu_control (wo_queue w) = []" "qu_in_hand (wo_queue w) = None"
    by (auto simp: queue_ok_split hand_ok_def sizes_ok_def)
  with counted(3) [OF assms(1), of lane] show ?thesis by (cases lane) simp_all
qed

text \<open>What was let in stays let in.\<close>

lemma lane_in_grows:
  assumes "outbox_run w w'"
  shows "\<exists>rst. lane_in lane w' = lane_in lane w @ rst"
  using assms
proof (induction rule: rtranclp_induct)
  case base
  then show ?case by simp
next
  case (step w' w'')
  from step.hyps(2) have "\<exists>rst. lane_in lane w'' = lane_in lane w' @ rst"
    by (cases rule: outbox_step.cases; cases lane) (auto simp: noted_def)
  with step.IH show ?case by auto
qed

lemma flush_ok_sent:
  assumes ok: "outbox_ok w" and run: "outbox_run w w'"
    and wrote: "length (lane_in lane w) \<le> se_wrote (lane_sent lane (wo_queue w'))"
  shows "\<exists>rst. lane_wire lane w' = lane_in lane w @ rst"
proof -
  note ok' = outbox_run_ok [OF run ok]
  obtain r1 where r1: "lane_in lane w' = lane_wire lane w' @ r1" using wire_prefix [OF ok'] by blast
  obtain r2 where "lane_in lane w' = lane_in lane w @ r2" using lane_in_grows [OF run] by blast
  with r1 have "take (length (lane_in lane w)) (lane_wire lane w' @ r1) = lane_in lane w"
    by (metis append_eq_conv_conj)
  with wrote counted(2) [OF ok', of lane] have "take (length (lane_in lane w)) (lane_wire lane w') = lane_in lane w" by simp
  then show ?thesis by (metis append_take_drop_id)
qed

text \<open>The bytes that wait, where no message is longer than \<open>m\<close>.\<close>

lemma waiting_step:
  assumes step: "outbox_step w w'" and ok: "queue_ok w"
    and small: "\<forall>f \<in> set (wo_put w'). length f \<le> m"
    and before: "qu_waiting (wo_queue w) \<le> OUTBOX_BYTES + m + FRAME_COST"
  shows "qu_waiting (wo_queue w') \<le> OUTBOX_BYTES + m + FRAME_COST"
proof -
  have put: "qu_waiting q' \<le> OUTBOX_BYTES + m + FRAME_COST"
    if "put_turn q t frame expired = (q', ans)" "qu_waiting q \<le> OUTBOX_BYTES + m + FRAME_COST"
      "ans = Some (Inr ()) \<longrightarrow> length frame \<le> m" for q t frame expired q' ans
    using that by (auto simp: put_turn_def put_leave_def split: if_splits)
  from step show ?thesis
  proof (cases rule: outbox_step.cases)
    case (publish ticket q frame expired q' ans)
    from publish(2) before have "qu_waiting q \<le> OUTBOX_BYTES + m + FRAME_COST" by (auto simp: put_enter_def)
    with put [OF publish(3)] small show ?thesis by (simp add: publish(1) noted_def)
  next
    case (wake ticket frame expired q' ans)
    from put [OF wake(3) before] small show ?thesis by (simp add: wake(1) noted_def)
  qed (use before in \<open>auto simp: put_control_turn_def take_turn_def outbox_done_def outbox_shut_def
      outbox_abandon_def split: if_splits list.splits option.splits\<close>)
qed

lemma put_mono: "outbox_step w w' \<Longrightarrow> set (wo_put w) \<subseteq> set (wo_put w')"
  by (cases rule: outbox_step.cases) (auto simp: noted_def)

lemma waiting_run:
  assumes "outbox_run world_new w" and "\<forall>f \<in> set (wo_put w). length f \<le> m"
  shows "qu_waiting (wo_queue w) \<le> OUTBOX_BYTES + m + FRAME_COST"
  using assms
proof (induction rule: rtranclp_induct)
  case base
  then show ?case by (simp add: world_new_def outbox_new_def)
next
  case (step w w')
  from put_mono [OF step.hyps(2)] step.prems have "\<forall>f \<in> set (wo_put w). length f \<le> m" by blast
  with step waiting_step [OF step.hyps(2) _ step.prems] reachable_ok [OF step.hyps(1)]
  show ?case by (simp add: outbox_ok_def)
qed

text \<open>The line: room goes to the first that waits, and to no other.\<close>

lemma line_first:
  assumes "outbox_ok w" and "wo_callers w = (t, f) # rst"
  shows "qu_line (wo_queue w) = t # map fst rst" and "(u, g) \<in> set rst \<Longrightarrow> t < u"
proof -
  from assms have l: "sorted_wrt (<) (qu_line (wo_queue w))" "t # map fst rst = qu_line (wo_queue w)"
    by (simp_all add: outbox_ok_def line_ok_def Let_def)
  then show "qu_line (wo_queue w) = t # map fst rst" by simp
  have "\<forall>u \<in> fst ` set rst. t < u" using l(1) by (simp add: l(2) [symmetric])
  then show "(u, g) \<in> set rst \<Longrightarrow> t < u" by force
qed

text \<open>A relay that reads the stream: while no write tore, it reads exactly the requests on the wire.\<close>

lemma wire_let_in:
  assumes "outbox_ok w" and "(lane, f) \<in> set (wo_wire w)"
  shows "f \<in> set (wo_put w) \<union> set (wo_told w)"
proof -
  have "f \<in> set (lane_wire lane w)" using assms(2) by (force simp: lane_wire_def)
  with wire_prefix [OF assms(1), of lane] have "f \<in> set (lane_in lane w)" by (metis Un_iff set_append)
  then show ?thesis by (cases lane) simp_all
qed

lemma relay_reads:
  assumes ok: "outbox_ok w" and "alive w"
    and frames: "\<forall>f \<in> set (wo_put w) \<union> set (wo_told w). \<exists>q. request_frame q f"
  shows "\<exists>qs. list_all2 request_frame qs (map snd (wo_wire w)) \<and>
    drain decode_request (wo_stream w) = Some (map Some qs, [], None)"
proof -
  have "\<forall>f \<in> set (map snd (wo_wire w)). \<exists>q. request_frame q f"
    using wire_let_in [OF ok] frames by fastforce
  then obtain g where "\<forall>f \<in> set (map snd (wo_wire w)). request_frame (g f) f" by metis
  then have "list_all2 request_frame (map g (map snd (wo_wire w))) (map snd (wo_wire w))"
    by (simp add: list_all2_map1 list.rel_map list.rel_refl_strong)
  moreover have "wo_stream w = concat (map snd (wo_wire w))"
    using ok assms(2) by (simp add: outbox_ok_def stream_ok_def)
  ultimately show ?thesis using drain_requests by fastforce
qed

section \<open>A flush that gives up early\<close>

text \<open>
  \<open>flushed\<close> calls a loss, or a closed queue, \<open>a count the wire will never reach\<close>. Here a client puts one
  frame and begins to flush it; the writer takes it; another thread puts a second; \<open>close\<close> counts that one
  as lost. The flush is answered \<open>Gone\<close>, and then the write of its frame finishes.
\<close>

lemmas outbox_one_more = one_more [where step = outbox_step]

lemma flush_gone_early:
  "\<exists>w1 w4 w5. outbox_run world_new w1 \<and> outbox_run w1 w4 \<and> outbox_run w4 w5 \<and>
    wo_put w1 = [[1]] \<and> flush_enter (wo_queue w1) = (1, 0) \<and>
    flush_turn (wo_queue w4) 1 0 False = Some (Inl Gone) \<and>
    flush_turn (wo_queue w5) 1 0 False = Some (Inr ()) \<and> lane_wire Message w5 = [[1]]"
proof -
  let ?s = "\<lambda>k w l. \<lparr>se_taken = k, se_wrote = w, se_lost = l\<rparr>"
  let ?q = "\<lambda>ms size hand next s opn. \<lparr>qu_messages = ms, qu_control = [], qu_waiting = size,
    qu_control_waiting = 0, qu_in_hand = hand, qu_line = [], qu_next_ticket = next, qu_sent = s,
    qu_control_sent = sent_new, qu_open = opn\<rparr>"
  let ?w = "\<lambda>q wr ps wire str. \<lparr>wo_queue = q, wo_callers = [], wo_writer = wr, wo_put = ps, wo_told = [],
    wo_wire = wire, wo_stream = str\<rparr>"
  let ?w1 = "?w (?q [[1]] 41 None 1 (?s 1 0 0) True) WIdle [[1]] [] []"
  let ?w2 = "?w (?q [] 0 (Some Message) 1 (?s 1 0 0) True) (WHolds Message [1]) [[1]] [] []"
  let ?w3 = "?w (?q [[2]] 41 (Some Message) 2 (?s 2 0 0) True) (WHolds Message [1]) [[1], [2]] [] []"
  let ?w4 = "?w (?q [] 0 (Some Message) 2 (?s 2 0 1) False) (WHolds Message [1]) [[1], [2]] [] []"
  let ?w5 = "?w (?q [] 0 None 2 (?s 2 1 1) False) WIdle [[1], [2]] [(Message, [1])] [1]"
  note defs = queue_defs OUTBOX_BYTES_def FRAME_COST_def outbox_new_def sent_new_def world_new_def
  have "outbox_run world_new ?w1"
    by (rule outbox_one_more [OF run_refl outbox_step.publish [where frame = "[1]" and expired = False and ticket = 0
        and q = "outbox_new\<lparr>qu_line := [0], qu_next_ticket := 1\<rparr>" and ans = "Some (Inr ())"
        and q' = "?q [[1]] 41 None 1 (?s 1 0 0) True"]]; simp add: defs)
  moreover have "outbox_run ?w1 ?w2"
    by (rule outbox_one_more [OF run_refl outbox_step.take_frame [where lane = Message and frame = "[1]"
        and q' = "wo_queue ?w2"]]; simp add: defs)
  then have "outbox_run ?w1 ?w3"
    by (rule outbox_one_more [OF _ outbox_step.publish [where frame = "[2]" and expired = False and ticket = 1
        and q = "wo_queue ?w2\<lparr>qu_line := [1], qu_next_ticket := 2\<rparr>" and ans = "Some (Inr ())"
        and q' = "wo_queue ?w3"]]; simp add: defs)
  then have "outbox_run ?w1 ?w4" by (rule outbox_one_more [OF _ outbox_step.close]) (simp add: defs)
  moreover have "outbox_run ?w4 ?w5"
    by (rule outbox_one_more [OF run_refl outbox_step.wrote [where lane = Message and frame = "[1]" and clock = "\<lambda>_. 0"
        and writes = "\<lambda>_. Inr (Suc 0)" and n = 1 and moved = 0 and bs = "[1]"]]; simp add: defs)
  ultimately show ?thesis
    by (intro exI [of _ ?w1] exI [of _ ?w4] exI [of _ ?w5])
      (simp add: flush_enter_def flush_turn_def lane_wire_def sent_new_def)
qed

text \<open>A publisher can wait: a message of the length of the budget is in, and the next has no room.\<close>

lemma one_waits:
  "\<exists>w. outbox_run world_new w \<and> wo_callers w = [(1, [7])] \<and> (\<forall>f \<in> set (wo_put w). length f \<le> OUTBOX_BYTES)"
proof -
  let ?big = "replicate OUTBOX_BYTES (0 :: u8)"
  let ?s = "\<lparr>se_taken = 1, se_wrote = 0, se_lost = 0\<rparr>"
  let ?q = "\<lambda>line next. \<lparr>qu_messages = [?big], qu_control = [], qu_waiting = OUTBOX_BYTES + FRAME_COST,
    qu_control_waiting = 0, qu_in_hand = None, qu_line = line, qu_next_ticket = next, qu_sent = ?s,
    qu_control_sent = sent_new, qu_open = True\<rparr>"
  let ?w = "\<lambda>q cs. \<lparr>wo_queue = q, wo_callers = cs, wo_writer = WIdle, wo_put = [?big], wo_told = [],
    wo_wire = [], wo_stream = []\<rparr>"
  note defs = queue_defs outbox_new_def sent_new_def world_new_def
  have cost: "\<not> OUTBOX_BYTES + FRAME_COST \<le> OUTBOX_BYTES" by (simp add: FRAME_COST_def)
  have "outbox_run world_new (?w (?q [] 1) [])"
    by (rule outbox_one_more [OF run_refl outbox_step.publish [where frame = ?big and expired = False and ticket = 0
        and q = "outbox_new\<lparr>qu_line := [0], qu_next_ticket := 1\<rparr>" and ans = "Some (Inr ())"
        and q' = "?q [] 1"]]; simp add: defs)
  then have "outbox_run world_new (?w (?q [1] 2) [(1, [7])])"
    by (rule outbox_one_more [OF _ outbox_step.publish [where frame = "[7]" and expired = False and ticket = 1
        and q = "?q [1] 2" and ans = None and q' = "?q [1] 2"]]; simp add: defs cost FRAME_COST_def)
  then show ?thesis by (intro exI [of _ "?w (?q [1] 2) [(1, [7])]"]) simp
qed

end
