(* ===== verification/Senders.thy ===== *)
theory Senders
  imports Url "HOL-Library.List_Lexorder"
begin

text \<open>
  The addresses a receiver of multicast tells its senders apart by, with the order the standard library gives
  them, that of their octets and then of their ports: \<open>SocketAddr\<close> as the key of a \<open>BTreeMap\<close>. The sockets
  of a bus are of IPv4, and so are the addresses they give.
\<close>

datatype SocketAddr = SocketAddr Ipv4Addr u16

fun octets :: "Ipv4Addr \<Rightarrow> u8 list" where
  "octets (Ipv4Addr a b c d) = [a, b, c, d]"

fun address_key :: "SocketAddr \<Rightarrow> u8 list \<times> u16" where
  "address_key (SocketAddr ip port) = (octets ip, port)"

lemma octets_eq [simp]: "octets ip = octets ip' \<longleftrightarrow> ip = ip'"
  by (cases ip; cases ip') simp

lemma address_key_eq: "address_key x = address_key y \<longleftrightarrow> x = y"
  by (cases x; cases y) simp

instantiation SocketAddr :: linorder
begin

definition less_eq_SocketAddr :: "SocketAddr \<Rightarrow> SocketAddr \<Rightarrow> bool" where
  "x \<le> y \<longleftrightarrow> address_key x \<le> address_key y"

definition less_SocketAddr :: "SocketAddr \<Rightarrow> SocketAddr \<Rightarrow> bool" where
  "x < y \<longleftrightarrow> address_key x < address_key y"

instance
  by standard (auto simp: less_eq_SocketAddr_def less_SocketAddr_def address_key_eq [symmetric])

end

end
