(* ===== verification/MulticastRun.thy ===== *)
theory MulticastRun
  imports ClientLife Senders
begin

text \<open>
  A multicast bus from end to end: what a client publishes, as datagrams, through the receiver of another. The
  first part is one message alone, its datagrams in any order; the second one message among any traffic, of
  other senders and of the same one under other numbers; the third all the messages of one sender.
\<close>

section \<open>The datagrams of one message\<close>

lemma encoded_fragments:
  assumes "udpm_encode sequence frame short_max = Some (Inr ds)" and "1 < length ds"
    and "is_str (channel frame)"
  obtains f where "several f" and "fs_sequence f = sequence" and "fs_count f = length ds"
    and "of_bytes (fs_channel f) = channel frame" and "fs_payload f = payload frame"
    and "\<forall>i < length ds. udpm_decode (ds ! i) = Inr (DFragment (nth_fragment f i))"
proof -
  from assms(1) obtain f where f: "fragments sequence frame short_max = Inr f"
    and ds: "ds = map (datagram f) [0..<fs_count f]" by (rule udpm_encode_Inr)
  note F = fragments_Inr [OF f]
  from ds assms(2) have many: "1 < fs_count f" by simp
  with F(1) have "several f" by (simp add: several_def)
  moreover have "udpm_decode (ds ! i) = Inr (DFragment (nth_fragment f i))" if "i < length ds" for i
    using udpm_decode_datagram [OF f assms(3), of i] ds many that by simp
  ultimately show ?thesis using that [of f] F(4,5,6) ds by simp
qed

lemma fragments_any_order:
  assumes enc: "udpm_encode sequence frame short_max = Some (Inr ds)" and many: "1 < length ds"
    and str: "is_str (channel frame)"
    and ok: "reassembler_ok s" and srt: "sorts_pieces srt"
    and fresh: "bt_get (ra_partial s) (src, sequence) = None"
    and order: "set (js @ [k]) = {..<length ds}" "k \<notin> set js"
    and dec: "map (\<lambda>i. udpm_decode (ds ! i)) (js @ [k]) = map (\<lambda>x. Inr (DFragment (snd x))) xs"
    and src: "\<forall>x \<in> set xs. fst x = src"
  shows "\<exists>s'. feed_run srt s xs = Some (s', replicate (length js) (Inr None) @ [Inr (Some frame)]) \<and>
    reassembler_ok s' \<and> bt_get (ra_partial s') (src, sequence) = None"
proof -
  from enc many str obtain f where f: "several f" "fs_sequence f = sequence" "fs_count f = length ds"
    "of_bytes (fs_channel f) = channel frame" "fs_payload f = payload frame"
    "\<forall>i < length ds. udpm_decode (ds ! i) = Inr (DFragment (nth_fragment f i))"
    by (rule encoded_fragments)
  have xs: "xs = map (\<lambda>i. (src, nth_fragment f i)) (js @ [k])"
    by (rule decoded_run [OF dec src]) (use f(6) order(1) in auto)
  then have own: "\<forall>x \<in> set xs. is_of (src, sequence) x" by (auto simp: is_of_def f(2))
  from feed_run_ok [OF ok srt, of xs] obtain s' rs where run: "feed_run srt s xs = Some (s', rs)"
    "reassembler_ok s'" "length rs = length xs" by blast
  have "answers_of (src, fs_sequence f) xs rs = replicate (length js) (Inr None) @
      [Inr (Some \<lparr>channel = of_bytes (fs_channel f), payload = fs_payload f\<rparr>)]
      \<and> bt_get (ra_partial s') (src, fs_sequence f) = None"
    by (rule feed_run_collects [OF srt f(1) ok, where S = "{}" and js = js and k = k])
      (use own xs order fresh run f(2,3) in \<open>auto simp: collected_def filter_id_conv\<close>)
  moreover have "answers_of (src, sequence) xs rs = rs"
    using own run(3) by (intro answers_of_all) auto
  ultimately show ?thesis using run f(2,4,5) by simp
qed

text \<open>The receiver on the same datagrams.\<close>

lemma datagrams_any_order:
  assumes enc: "udpm_encode sequence frame short_max = Some (Inr ds)" and many: "1 < length ds"
    and str: "is_str (channel frame)"
    and ok: "reassembler_ok s" and srt: "sorts_pieces srt"
    and fresh: "bt_get (ra_partial s) (src, sequence) = None"
    and order: "set (js @ [k]) = {..<length ds}" "k \<notin> set js"
  shows "\<exists>s'. on_datagrams srt wanted s (map (\<lambda>i. (src, ds ! i)) (js @ [k])) =
      Some (s', replicate (length js) (Inr None) @ [Inr (then_some (wanted (channel frame))
        \<lparr>rc_frame = frame, rc_sequence = sequence, rc_reassembled = True\<rparr>)]) \<and>
    reassembler_ok s' \<and> bt_get (ra_partial s') (src, sequence) = None"
proof -
  from enc many str obtain f where f: "several f" "fs_sequence f = sequence" "fs_count f = length ds"
    "of_bytes (fs_channel f) = channel frame" "fs_payload f = payload frame"
    "\<forall>i < length ds. udpm_decode (ds ! i) = Inr (DFragment (nth_fragment f i))"
    by (rule encoded_fragments)
  let ?frs = "map (nth_fragment f) (js @ [k])" and ?ds = "map (\<lambda>i. (src, ds ! i)) (js @ [k])"
  from f(6) order(1) have at: "udpm_decode (ds ! i) = Inr (DFragment (nth_fragment f i))"
    if "i \<in> set (js @ [k])" for i using that by auto
  have "map (\<lambda>i. udpm_decode (ds ! i)) (js @ [k])
      = map (\<lambda>x. Inr (DFragment (snd x))) (map (\<lambda>i. (src, nth_fragment f i)) (js @ [k]))"
    using at by simp
  from fragments_any_order [OF enc many str ok srt fresh order this] obtain s' where
    run: "feed_run srt s (map (\<lambda>i. (src, nth_fragment f i)) (js @ [k]))
      = Some (s', replicate (length js) (Inr None) @ [Inr (Some frame)])"
    and s': "reassembler_ok s'" "bt_get (ra_partial s') (src, sequence) = None" by auto
  have "map udpm_decode (map snd ?ds) = map (\<lambda>fr. Inr (DFragment fr)) ?frs" using at by simp
  moreover have "zip (map fst ?ds) ?frs = map (\<lambda>i. (src, nth_fragment f i)) (js @ [k])"
    by (induction js) simp_all
  moreover have "map2 (receive wanted) ?frs (replicate (length js) (Inr None) @ [Inr (Some frame)])
      = replicate (length js) (Inr None) @ [Inr (then_some (wanted (channel frame))
        \<lparr>rc_frame = frame, rc_sequence = sequence, rc_reassembled = True\<rparr>)]"
    using f(2) by (induction js) simp_all
  ultimately show ?thesis
    using on_datagrams_fragments [of ?ds ?frs srt wanted s] run s' by simp
qed

section \<open>Nothing stays behind\<close>

lemma feed_keeps_absent:
  assumes ok: "reassembler_ok s" and srt: "sorts_pieces srt" and fd: "feed srt s src fr = Some (s', r)"
    and other: "key \<noteq> (src, fr_sequence fr)" and absent: "bt_get (ra_partial s) key = None"
  shows "bt_get (ra_partial s') key = None"
proof -
  from ok have bt: "bt_ok (ra_partial s)" by (simp add: reassembler_ok_def maps_ok_def)
  show ?thesis
    using ok
  proof (cases rule: feed_cases [where fr = fr and srt = srt and src = src])
    case (refused e)
    with fd absent show ?thesis by simp
  next
    case disagrees
    with fd other absent show ?thesis by (auto simp: remove_fields remove_get [OF bt])
  next
    case (accepted sm)
    from feed_store_outcome [OF accepted(4,1,5,6) srt] fd accepted(7)
    have "store_outcome srt sm (src, fr_sequence fr) fr s' r" by auto
    with other have "bt_get (ra_partial s') key = bt_get (ra_partial sm) key" unfolding store_outcome_def by blast
    moreover have "bt_get (ra_partial s) key = Some p" if "bt_get (ra_partial sm) key = Some p" for p
      using accepted(3) that unfolding evicts_def touch_fields by blast
    ultimately show ?thesis using absent by (cases "bt_get (ra_partial sm) key") auto
  qed
qed

lemma on_datagrams_keeps_absent:
  assumes "reassembler_ok s" and srt: "sorts_pieces srt" and "bt_get (ra_partial s) key = None"
    and "\<forall>(src, d) \<in> set xs. \<forall>fr. udpm_decode d = Inr (DFragment fr) \<longrightarrow> key \<noteq> (src, fr_sequence fr)"
    and "on_datagrams srt wanted s xs = Some (s', rs)"
  shows "bt_get (ra_partial s') key = None"
  using assms(1,3-5)
proof (induction xs arbitrary: s rs)
  case (Cons x xs)
  obtain src d where x: "x = (src, d)" by (cases x)
  with Cons.prems(4) obtain s1 r rs1 where 1: "on_datagram srt wanted s src d = Some (s1, r)"
    and later: "on_datagrams srt wanted s1 xs = Some (s', rs1)" by (auto simp: bind_eq_Some_conv)
  from on_datagram_ok [OF Cons.prems(1) srt, of wanted src d] 1 have ok1: "reassembler_ok s1" by auto
  have "bt_get (ra_partial s1) key = None"
  proof (cases "\<exists>fr. udpm_decode d = Inr (DFragment fr)")
    case True
    then obtain fr where fr: "udpm_decode d = Inr (DFragment fr)" by blast
    with 1 obtain r1 where "feed srt s src fr = Some (s1, r1)" by (auto simp: on_datagram_fragment)
    with feed_keeps_absent [OF Cons.prems(1) srt] Cons.prems(2,3) x fr show ?thesis by auto
  next
    case False
    with 1 have "s1 = s" by (auto simp: on_datagram_def split: sum.splits Datagram.splits)
    with Cons.prems(2) show ?thesis by simp
  qed
  with Cons.IH [OF ok1 _ _ later] Cons.prems(3) show ?case by simp
qed simp

text \<open>Nothing of a sender is in flight.\<close>

definition quiet :: "'k::linorder \<Rightarrow> 'k Reassembler \<Rightarrow> bool" where
  "quiet src s \<longleftrightarrow> (\<forall>sequence. bt_get (ra_partial s) (src, sequence) = None)"

lemma quiet_new: "quiet src reassembler_new"
  by (simp add: quiet_def reassembler_new_def bt.get_empty)

text \<open>The number of the message a datagram is of.\<close>

definition number_of :: "bytes \<Rightarrow> u32 option" where
  "number_of d =
     (case udpm_decode d of
        Inr (Whole sequence _) \<Rightarrow> Some sequence
      | Inr (DFragment fr) \<Rightarrow> Some (fr_sequence fr)
      | Inl _ \<Rightarrow> None)"

lemma datagram_number:
  assumes enc: "udpm_encode sequence frame short_max = Some (Inr ds)" and str: "is_str (channel frame)" and "d \<in> set ds"
  shows "number_of d = Some sequence"
proof -
  from enc obtain f where f: "fragments sequence frame short_max = Inr f"
    and ds: "ds = map (datagram f) [0..<fs_count f]" by (rule udpm_encode_Inr)
  from assms(3) ds obtain i where i: "i < fs_count f" "d = datagram f i" by auto
  from udpm_decode_datagram [OF f str i(1)] i(2) fragments_Inr(4) [OF f] show ?thesis
    by (auto simp: number_of_def)
qed

section \<open>One sender among others\<close>

text \<open>The fragments of any traffic, and the run of the reassembler under a run of the receiver.\<close>

definition fragments_in :: "('k \<times> bytes) list \<Rightarrow> ('k \<times> Fragment) list" where
  "fragments_in xs = concat (map (\<lambda>(src, d). case udpm_decode d of Inr (DFragment fr) \<Rightarrow> [(src, fr)] | _ \<Rightarrow> []) xs)"

lemma fragments_in_simps [simp]:
  "fragments_in [] = []"
  "fragments_in ((src, d) # xs) = (case udpm_decode d of Inr (DFragment fr) \<Rightarrow> [(src, fr)] | _ \<Rightarrow> []) @ fragments_in xs"
  by (simp_all add: fragments_in_def)

definition receive_as :: "(string \<Rightarrow> bool) \<Rightarrow> u32 \<Rightarrow> WireError + Frame option \<Rightarrow> WireError + Received option" where
  "receive_as wanted sequence r =
     (case r of
        Inr (Some frame) \<Rightarrow> Inr (then_some (wanted (channel frame)) \<lparr>rc_frame = frame, rc_sequence = sequence, rc_reassembled = True\<rparr>)
      | Inr None \<Rightarrow> Inr None
      | Inl e \<Rightarrow> Inl e)"

lemma receive_is: "receive wanted fr r = receive_as wanted (fr_sequence fr) r"
  by (cases "(wanted, fr, r)" rule: receive.cases) (simp_all add: receive_as_def)

text \<open>What a run hands on from one sender.\<close>

definition from_sender :: "'k \<Rightarrow> ('k \<times> bytes) list \<Rightarrow> (WireError + Received option) list \<Rightarrow> Received list" where
  "from_sender src xs rs = map snd (filter (\<lambda>x. fst x = src) (sourced xs rs))"

lemma from_sender_Cons:
  "from_sender src ((src', d) # xs) (r # rs) = (if src' = src then messages_of [r] else []) @ from_sender src xs rs"
  by (auto simp: from_sender_def split: sum.split option.split)

lemma from_sender_Nil [simp]: "from_sender src [] rs = []"
  by (simp add: from_sender_def)

lemma messages_of_Cons: "messages_of (r # rs) = messages_of [r] @ messages_of rs"
  by (simp add: messages_of_def)

definition of_number :: "'k \<Rightarrow> u32 \<Rightarrow> 'k \<times> bytes \<Rightarrow> bool" where
  "of_number src q x \<longleftrightarrow> fst x = src \<and> number_of (snd x) = Some q"

lemma of_number_pair [simp]: "of_number src q (src', d) \<longleftrightarrow> src' = src \<and> number_of d = Some q"
  by (simp add: of_number_def)

definition as_numbered :: "u32 \<Rightarrow> Received list \<Rightarrow> Received list" where
  "as_numbered q = filter (\<lambda>m. rc_sequence m = q)"

lemma as_numbered_append [simp]: "as_numbered q (ms @ ms') = as_numbered q ms @ as_numbered q ms'" "as_numbered q [] = []"
  by (simp_all add: as_numbered_def)

lemma fragments_numbered: "filter (is_of (src, q)) (fragments_in xs) = fragments_in (filter (of_number src q) xs)"
proof (induction xs)
  case (Cons x xs)
  then show ?case
    by (cases x) (auto simp: is_of_def of_number_def number_of_def split: sum.splits Datagram.splits)
qed simp

lemma receive_numbered:
  "as_numbered q (messages_of [receive_as wanted sequence r]) = (if sequence = q then messages_of [receive_as wanted q r] else [])"
  by (cases r) (auto simp: as_numbered_def messages_of_def receive_as_def then_some_def split: option.splits)

lemma whole_numbered:
  assumes "udpm_decode d = Inr (Whole sequence f)" and "on_datagram srt wanted s src d = Some (s1, r)"
  shows "s1 = s" and "as_numbered q (messages_of [r]) = (if sequence = q \<and> wanted (channel f) then
    [\<lparr>rc_frame = f, rc_sequence = sequence, rc_reassembled = False\<rparr>] else [])"
  using assms by (auto simp: on_datagram_def to_frame_def as_numbered_def messages_of_def then_some_def)

lemma unread_datagram:
  assumes "udpm_decode d = Inl e" and "on_datagram srt wanted s src d = Some (s1, r)"
  shows "s1 = s" and "messages_of [r] = []"
  using assms by (auto simp: on_datagram_def messages_of_def)

text \<open>What comes back under a number, where that is no number of a whole message: the answers to its fragments.\<close>

lemma run_in_traffic:
  assumes "on_datagrams srt wanted s xs = Some (s', rs)"
  shows "\<exists>frs. feed_run srt s (fragments_in xs) = Some (s', frs) \<and>
    ((\<forall>d f. (src, d) \<in> set xs \<longrightarrow> udpm_decode d \<noteq> Inr (Whole q f)) \<longrightarrow>
      as_numbered q (from_sender src xs rs) = messages_of (map (receive_as wanted q) (answers_of (src, q) (fragments_in xs) frs)))"
  using assms
proof (induction xs arbitrary: s rs)
  case Nil
  then show ?case by (simp add: messages_of_def)
next
  case (Cons x xs)
  obtain src' d where x: "x = (src', d)" by (cases x)
  with Cons.prems obtain s1 r rs1 where 1: "on_datagram srt wanted s src' d = Some (s1, r)"
    "on_datagrams srt wanted s1 xs = Some (s', rs1)" "rs = r # rs1" by (auto simp: bind_eq_Some_conv)
  from Cons.IH [OF 1(2)] obtain frs where ih: "feed_run srt s1 (fragments_in xs) = Some (s', frs)"
    "(\<forall>d f. (src, d) \<in> set xs \<longrightarrow> udpm_decode d \<noteq> Inr (Whole q f)) \<Longrightarrow>
      as_numbered q (from_sender src xs rs1) = messages_of (map (receive_as wanted q) (answers_of (src, q) (fragments_in xs) frs))"
    by blast
  have head: "as_numbered q (from_sender src (x # xs) rs) =
      (if src' = src then as_numbered q (messages_of [r]) else []) @ as_numbered q (from_sender src xs rs1)"
    by (simp add: x 1(3) from_sender_Cons)
  consider (fragment) fr where "udpm_decode d = Inr (DFragment fr)" | (whole) sequence f where "udpm_decode d = Inr (Whole sequence f)"
    | (bad) e where "udpm_decode d = Inl e" by (metis Datagram.exhaust sum.exhaust)
  then show ?case
  proof cases
    case fragment
    with 1(1) obtain r1 where f: "feed srt s src' fr = Some (s1, r1)" "r = receive_as wanted (fr_sequence fr) r1"
      by (auto simp: on_datagram_fragment receive_is)
    have "as_numbered q (from_sender src (x # xs) rs) =
        messages_of (map (receive_as wanted q) (answers_of (src, q) (fragments_in (x # xs)) (r1 # frs)))"
      if "\<forall>d f. (src, d) \<in> set (x # xs) \<longrightarrow> udpm_decode d \<noteq> Inr (Whole q f)"
    proof -
      from that ih(2) have rst: "as_numbered q (from_sender src xs rs1) =
          messages_of (map (receive_as wanted q) (answers_of (src, q) (fragments_in xs) frs))" by simp
      have "messages_of (receive_as wanted q r1 # map (receive_as wanted q) as) =
          messages_of [receive_as wanted q r1] @ messages_of (map (receive_as wanted q) as)" for as
        by (rule messages_of_Cons)
      with rst show ?thesis
        unfolding head by (simp add: x fragment f(2) receive_numbered is_of_def)
    qed
    with f(1) ih(1) show ?thesis by (intro exI [of _ "r1 # frs"]) (simp add: x fragment)
  next
    case whole
    note W = whole_numbered(1) [OF whole 1(1)] whole_numbered(2) [OF whole 1(1), of q]
    have "as_numbered q (from_sender src (x # xs) rs) =
        messages_of (map (receive_as wanted q) (answers_of (src, q) (fragments_in (x # xs)) frs))"
      if "\<forall>d f. (src, d) \<in> set (x # xs) \<longrightarrow> udpm_decode d \<noteq> Inr (Whole q f)"
    proof -
      from that x whole have "\<not> (src' = src \<and> sequence = q)" by auto
      with that ih(2) W(2) show ?thesis unfolding head by (auto simp: x whole)
    qed
    with W(1) ih(1) show ?thesis by (intro exI [of _ frs]) (simp add: x whole)
  next
    case bad
    have "as_numbered q (from_sender src (x # xs) rs) =
        messages_of (map (receive_as wanted q) (answers_of (src, q) (fragments_in (x # xs)) frs))"
      if "\<forall>d f. (src, d) \<in> set (x # xs) \<longrightarrow> udpm_decode d \<noteq> Inr (Whole q f)"
      using that ih(2) unread_datagram(2) [OF bad 1(1)] unfolding head by (simp add: x bad)
    with unread_datagram(1) [OF bad 1(1)] ih(1) show ?thesis by (intro exI [of _ frs]) (simp add: x bad)
  qed
qed

text \<open>A message in one datagram comes back from that datagram, wherever it comes.\<close>

lemma run_of_wholes:
  assumes "on_datagrams srt wanted s xs = Some (s', rs)"
    and "\<forall>(src', d) \<in> set xs. src' = src \<and> number_of d = Some q \<longrightarrow> udpm_decode d = Inr (Whole q f)"
  shows "as_numbered q (from_sender src xs rs) = (if wanted (channel f) then
    replicate (length (filter (of_number src q) xs)) \<lparr>rc_frame = f, rc_sequence = q, rc_reassembled = False\<rparr> else [])"
  using assms
proof (induction xs arbitrary: s rs)
  case (Cons x xs)
  obtain src' d where x: "x = (src', d)" by (cases x)
  with Cons.prems obtain s1 r rs1 where 1: "on_datagram srt wanted s src' d = Some (s1, r)"
    "on_datagrams srt wanted s1 xs = Some (s', rs1)" "rs = r # rs1" by (auto simp: bind_eq_Some_conv)
  from Cons.IH [OF 1(2)] Cons.prems(2) have ih: "as_numbered q (from_sender src xs rs1) = (if wanted (channel f) then
      replicate (length (filter (of_number src q) xs)) \<lparr>rc_frame = f, rc_sequence = q, rc_reassembled = False\<rparr> else [])" by simp
  have head: "as_numbered q (from_sender src (x # xs) rs) =
      (if src' = src then as_numbered q (messages_of [r]) else []) @ as_numbered q (from_sender src xs rs1)"
    by (simp add: x 1(3) from_sender_Cons)
  consider (mine) "src' = src" "number_of d = Some q" | (other) "src' = src" "number_of d \<noteq> Some q" | (away) "src' \<noteq> src" by blast
  then show ?case
  proof cases
    case mine
    with Cons.prems(2) x have "udpm_decode d = Inr (Whole q f)" by simp
    from whole_numbered(2) [OF this 1(1), of q] mine ih head show ?thesis by (simp add: x)
  next
    case other
    have "as_numbered q (messages_of [r]) = []"
    proof (cases "udpm_decode d")
      case (Inl e)
      from unread_datagram [OF this 1(1)] show ?thesis by simp
    next
      case (Inr dg)
      show ?thesis
      proof (cases dg)
        case (Whole sequence g)
        with Inr other whole_numbered(2) [OF Inr [unfolded Whole] 1(1), of q] show ?thesis by (simp add: number_of_def)
      next
        case (DFragment fr)
        with Inr 1(1) obtain r1 where "r = receive_as wanted (fr_sequence fr) r1"
          by (auto simp: on_datagram_fragment receive_is)
        with other Inr DFragment show ?thesis by (simp add: receive_numbered number_of_def)
      qed
    qed
    with other ih head show ?thesis by (simp add: x)
  qed (use ih head in \<open>simp add: x\<close>)
qed simp

lemma on_datagrams_length: "on_datagrams srt wanted s xs = Some (s', rs) \<Longrightarrow> length rs = length xs"
  by (induction srt wanted s xs arbitrary: rs rule: on_datagrams.induct) (auto simp: bind_eq_Some_conv)

lemma on_datagrams_evicted:
  assumes "reassembler_ok s" and "sorts_pieces srt" and "on_datagrams srt wanted s xs = Some (s', rs)"
  shows "ra_evicted s \<le> ra_evicted s'"
  using run_in_traffic [OF assms(3)] feed_run_evicted [OF assms(1,2)] by blast

lemma from_sender_none: "src \<notin> fst ` set xs \<Longrightarrow> from_sender src xs rs = []"
proof (induction xs arbitrary: rs)
  case (Cons x xs)
  then show ?case by (cases x; cases rs) (auto simp: from_sender_Cons from_sender_def [of _ _ "[]"])
qed simp

lemma from_sender_append:
  "length xs = length rs \<Longrightarrow> from_sender src (xs @ ys) (rs @ rs') = from_sender src xs rs @ from_sender src ys rs'"
proof (induction xs rs rule: list_induct2)
  case (Cons x xs r rs)
  then show ?case by (cases x) (simp add: from_sender_Cons)
qed simp

section \<open>One message, in any order and among any traffic\<close>

text \<open>A list is another in a different order exactly if it reads that one at each place once.\<close>

lemma reordered:
  "mset es = mset ds \<Longrightarrow> \<exists>js. es = map ((!) ds) js \<and> distinct js \<and> set js = {..<length ds}"
proof (induction es arbitrary: ds)
  case (Cons e es)
  from Cons.prems have "e \<in> set ds" by (metis list.set_intros(1) mset_eq_setD)
  then obtain us vs where ds: "ds = us @ e # vs" by (meson split_list)
  with Cons.prems have "mset es = mset (us @ vs)" by simp
  from Cons.IH [OF this] obtain js where js: "es = map ((!) (us @ vs)) js" "distinct js" "set js = {..<length (us @ vs)}" by blast
  define g where "g = (\<lambda>i. if i < length us then i else Suc i)"
  have nth: "(us @ vs) ! i = ds ! g i" for i
    unfolding ds g_def by (cases "i < length us") (simp_all add: nth_append)
  have "map ((!) (us @ vs)) js = map ((!) ds) (map g js)" by (simp add: nth)
  then have "e # es = map ((!) ds) (length us # map g js)" unfolding js(1) by (simp add: ds)
  moreover have inj: "inj g" unfolding g_def by (rule injI) (simp split: if_splits)
  have "length us \<noteq> g i" for i by (simp add: g_def)
  then have "distinct (length us # map g js)"
    using js(2) inj_on_subset [OF inj] by (auto simp: distinct_map)
  moreover have "set (length us # map g js) = {..<length ds}"
  proof -
    have "i \<in> insert (length us) (g ` {..<length us + length vs})" if "i < Suc (length us + length vs)" for i
    proof (rule linorder_cases [of i "length us"])
      assume "i < length us" then have "i = g i" "i < length us + length vs" by (simp_all add: g_def)
      then show ?thesis by blast
    next
      assume "length us < i"
      then have "i = g (i - 1)" "i - 1 < length us + length vs" using that by (simp_all add: g_def)
      then show ?thesis by blast
    qed simp
    moreover have "insert (length us) (g ` {..<length us + length vs}) \<subseteq> {..<Suc (length us + length vs)}"
      by (auto simp: g_def)
    ultimately have "insert (length us) (g ` {..<length us + length vs}) = {..<Suc (length us + length vs)}" by blast
    then show ?thesis using js(3) by (simp add: ds)
  qed
  ultimately show ?case by (intro exI [of _ "length us # map g js"]) simp
qed simp

lemma number_kept:
  assumes "reassembler_ok s" and "sorts_pieces srt" and "bt_get (ra_partial s) (src, q) = None"
    and "\<forall>d fr. (src, d) \<in> set xs \<longrightarrow> udpm_decode d = Inr (DFragment fr) \<longrightarrow> fr_sequence fr \<noteq> q"
    and "on_datagrams srt wanted s xs = Some (s', rs)"
  shows "bt_get (ra_partial s') (src, q) = None"
  by (rule on_datagrams_keeps_absent [OF assms(1-3) _ assms(5)]) (use assms(4) in auto)

lemma mine_numbered:
  assumes "mset (filter (of_number src q) xs) = mset (map (Pair src) ds)"
  shows "(src, d) \<in> set xs \<Longrightarrow> number_of d = Some q \<Longrightarrow> d \<in> set ds"
proof -
  assume "(src, d) \<in> set xs" and "number_of d = Some q"
  then have "(src, d) \<in> set (filter (of_number src q) xs)" by simp
  then show "d \<in> set ds" unfolding mset_eq_setD [OF assms] by auto
qed

lemma filter_one_sender:
  assumes "mset (filter (of_number src q) xs) = mset (map (Pair src) ds)"
  shows "\<exists>es. filter (of_number src q) xs = map (Pair src) es \<and> mset es = mset ds"
proof -
  have all: "filter (of_number src q) xs = map (Pair src) (map snd (filter (of_number src q) xs))"
    by (induction xs) (auto simp: of_number_def)
  moreover have "mset (map snd (filter (of_number src q) xs)) = mset ds"
  proof -
    have "mset (map snd (filter (of_number src q) xs)) = mset (map snd (map (Pair src) ds))"
      by (simp only: mset_map [of snd] assms)
    then show ?thesis by (simp add: comp_def)
  qed
  ultimately show ?thesis by blast
qed

lemma fragments_arrive:
  assumes enc: "udpm_encode q frame short_max = Some (Inr ds)" and many: "1 < length ds" and str: "is_str (channel frame)"
    and ok: "reassembler_ok s" and srt: "sorts_pieces srt" and fresh: "bt_get (ra_partial s) (src, q) = None"
    and own: "mset (filter (of_number src q) xs) = mset (map (Pair src) ds)"
    and run: "on_datagrams srt wanted s xs = Some (s', rs)" and room: "ra_evicted s' = ra_evicted s"
  shows "as_numbered q (from_sender src xs rs) =
      (if wanted (channel frame) then [\<lparr>rc_frame = frame, rc_sequence = q, rc_reassembled = True\<rparr>] else []) \<and>
    bt_get (ra_partial s') (src, q) = None"
proof -
  from enc many str obtain f where f: "several f" "fs_sequence f = q" "fs_count f = length ds"
    "of_bytes (fs_channel f) = channel frame" "fs_payload f = payload frame"
    "\<forall>i < length ds. udpm_decode (ds ! i) = Inr (DFragment (nth_fragment f i))"
    by (rule encoded_fragments)
  have no_whole: "udpm_decode d \<noteq> Inr (Whole q g)" if d: "(src, d) \<in> set xs" for d g
  proof
    assume "udpm_decode d = Inr (Whole q g)"
    with mine_numbered [OF own d] f(6) show False by (auto simp: number_of_def in_set_conv_nth)
  qed
  from filter_one_sender [OF own] obtain es where es: "filter (of_number src q) xs = map (Pair src) es" "mset es = mset ds" by blast
  from reordered [OF es(2)] obtain ps where ps: "es = map ((!) ds) ps" "distinct ps" "set ps = {..<length ds}" by blast
  have "0 \<in> set ps" unfolding ps(3) lessThan_iff using many by linarith
  then have "ps \<noteq> []" by (cases ps) simp_all
  then obtain js k where jk: "ps = js @ [k]" by (metis append_butlast_last_id)
  have order: "set (js @ [k]) = {..<length ds}" "k \<notin> set js" using ps unfolding jk by auto
  have "set ns \<subseteq> {..<length ds} \<Longrightarrow> fragments_in (map (\<lambda>i. (src, ds ! i)) ns) = map (\<lambda>i. (src, nth_fragment f i)) ns" for ns
  proof (induction ns)
    case (Cons n ns)
    then have "udpm_decode (ds ! n) = Inr (DFragment (nth_fragment f n))" using f(6) by simp
    with Cons show ?case by simp
  qed simp
  moreover have "set (js @ [k]) \<subseteq> {..<length ds}" by (simp only: order(1) subset_refl)
  ultimately have "fragments_in (map (\<lambda>i. (src, ds ! i)) (js @ [k])) = map (\<lambda>i. (src, nth_fragment f i)) (js @ [k])" by blast
  moreover have "filter (of_number src q) xs = map (\<lambda>i. (src, ds ! i)) (js @ [k])"
    by (simp only: es(1) ps(1) jk map_map comp_def)
  ultimately have frags: "filter (is_of (src, q)) (fragments_in xs) = map (\<lambda>i. (src, nth_fragment f i)) (js @ [k])"
    unfolding fragments_numbered by simp
  from run_in_traffic [OF run, of src q] no_whole obtain frs where
    r: "feed_run srt s (fragments_in xs) = Some (s', frs)"
    "as_numbered q (from_sender src xs rs) = messages_of (map (receive_as wanted q) (answers_of (src, q) (fragments_in xs) frs))"
    by blast
  have "answers_of (src, fs_sequence f) (fragments_in xs) frs = replicate (length js) (Inr None) @
      [Inr (Some \<lparr>channel = of_bytes (fs_channel f), payload = fs_payload f\<rparr>)]
      \<and> bt_get (ra_partial s') (src, fs_sequence f) = None"
    by (rule feed_run_collects [OF srt f(1) ok, where S = "{}" and js = js and k = k])
      (use frags fresh order f(2,3) r(1) room in \<open>auto simp: collected_def\<close>)
  then have ans: "answers_of (src, q) (fragments_in xs) frs = replicate (length js) (Inr None) @ [Inr (Some frame)]"
    and gone: "bt_get (ra_partial s') (src, q) = None" using f(2,4,5) by simp_all
  have "messages_of (replicate m (Inr None) @ rs') = messages_of rs'" for m rs' by (induction m) simp_all
  with ans gone r(2) show ?thesis by (simp add: receive_as_def then_some_def)
qed

text \<open>Either way, one datagram or many, the message comes back once, under its number, and leaves nothing.\<close>

lemma number_arrives:
  assumes enc: "udpm_encode q frame short_max = Some (Inr ds)" and str: "is_str (channel frame)"
    and ok: "reassembler_ok s" and srt: "sorts_pieces srt" and fresh: "bt_get (ra_partial s) (src, q) = None"
    and own: "mset (filter (of_number src q) xs) = mset (map (Pair src) ds)"
    and run: "on_datagrams srt wanted s xs = Some (s', rs)" and room: "ra_evicted s' = ra_evicted s"
  shows "map rc_frame (as_numbered q (from_sender src xs rs)) = (if wanted (channel frame) then [frame] else []) \<and>
    bt_get (ra_partial s') (src, q) = None"
proof (cases "1 < length ds")
  case True
  from fragments_arrive [OF enc True str ok srt fresh own run room] show ?thesis by simp
next
  case False
  from enc obtain f where f: "fragments q frame short_max = Inr f"
    and ds: "ds = map (datagram f) [0..<fs_count f]" by (rule udpm_encode_Inr)
  with False fragments_Inr(3) [OF f] have one: "fs_count f = 1" by simp
  with ds have d: "ds = [datagram f 0]" by simp
  from udpm_decode_datagram [OF f str, of 0] one have dec: "udpm_decode (datagram f 0) = Inr (Whole q frame)" by simp
  have mine: "d = datagram f 0" if "(src, d) \<in> set xs" "number_of d = Some q" for d
    using mine_numbered [OF own that] by (simp add: d)
  have gone: "bt_get (ra_partial s') (src, q) = None"
  proof (rule number_kept [OF ok srt fresh _ run], intro allI impI notI)
    fix d' fr assume "(src, d') \<in> set xs" "udpm_decode d' = Inr (DFragment fr)" "fr_sequence fr = q"
    with mine [of d'] dec show False by (simp add: number_of_def)
  qed
  have "length (filter (of_number src q) xs) = 1" using mset_eq_length [OF own] by (simp add: d)
  moreover have "\<forall>(src', d) \<in> set xs. src' = src \<and> number_of d = Some q \<longrightarrow> udpm_decode d = Inr (Whole q frame)"
    using mine dec by auto
  ultimately have "as_numbered q (from_sender src xs rs) =
      (if wanted (channel frame) then [\<lparr>rc_frame = frame, rc_sequence = q, rc_reassembled = False\<rparr>] else [])"
    using run_of_wholes [OF run, of src q frame] by simp
  with gone show ?thesis by simp
qed

text \<open>Under a number that none of its datagrams has, nothing comes from a sender.\<close>

lemma number_absent:
  assumes "on_datagrams srt wanted s xs = Some (s', rs)" and "filter (of_number src q) xs = []"
  shows "as_numbered q (from_sender src xs rs) = []"
proof -
  have "\<forall>(src', d) \<in> set xs. src' = src \<and> number_of d = Some q \<longrightarrow>
      udpm_decode d = Inr (Whole q \<lparr>channel = [], payload = []\<rparr>)"
    using assms(2) by (auto simp: filter_empty_conv)
  from run_of_wholes [OF assms(1) this] assms(2) show ?thesis by (simp split: if_splits)
qed

section \<open>What a client publishes\<close>

text \<open>The messages that calls to \<open>publish\<close> took, each with its number and the datagrams it went in, from the number of the first.\<close>

fun published_as :: "u32 \<Rightarrow> nat \<Rightarrow> FrameRef list \<Rightarrow> (u32 \<times> FrameRef \<times> bytes list) list" where
  "published_as sequence short_max [] = []"
| "published_as sequence short_max (frame # frames) =
     (case udpm_encode sequence frame short_max of
        Some (Inr ds) \<Rightarrow> (sequence, frame, ds) # published_as (sequence + 1) short_max frames
      | _ \<Rightarrow> published_as (sequence + 1) short_max frames)"

definition frames_of :: "(Outside \<times> ('re, 'k) Happening) list \<Rightarrow> FrameRef list" where
  "frames_of hs = concat (map (\<lambda>h. case snd h of Calls (Publishes f t) \<Rightarrow> [f] | _ \<Rightarrow> []) hs)"

text \<open>The messages of the calls that were answered \<open>Ok\<close>.\<close>

definition answered_ok :: "(ClientCall \<times> (ClientError + bool)) list \<Rightarrow> FrameRef list" where
  "answered_ok rs = concat (map (\<lambda>x. case x of (Publishes f t, Inr b) \<Rightarrow> [f] | _ \<Rightarrow> []) rs)"

lemma answered_ok_simps [simp]:
  "answered_ok [] = []" "answered_ok ((Publishes f t, Inr b) # rs) = f # answered_ok rs"
  "answered_ok ((call, Inl e) # rs) = answered_ok rs" "answered_ok (rs @ rs') = answered_ok rs @ answered_ok rs'"
  by (simp_all add: answered_ok_def split: ClientCall.split)

definition only_publishes :: "(Outside \<times> ('re, 'k) Happening) list \<Rightarrow> bool" where
  "only_publishes hs \<longleftrightarrow> (\<forall>(ou, h) \<in> set hs. (\<forall>n. ou_sends ou n = None) \<and> (\<exists>f t. h = Calls (Publishes f t) \<and> is_str (channel f)))"

lemma send_all_sent: "\<forall>n. sends n = None \<Longrightarrow> send_all sends n ds = (None, ds)"
  by (induction ds arbitrary: n) simp_all

lemma publishes_sent:
  assumes "cl_transport c = TUdpm u" and "cl_writable c" and "only_publishes hs"
    and "happenings compile is_match hs c = Some (rs, c', sent)"
  shows "sent = concat (map (snd \<circ> snd) (published_as (us_sequence u) (us_short_max u) (frames_of hs))) \<and>
    answered_ok rs = map (fst \<circ> snd) (published_as (us_sequence u) (us_short_max u) (frames_of hs))"
  using assms
proof (induction hs arbitrary: c u rs sent)
  case Nil
  then show ?case by (simp add: frames_of_def answered_ok_def)
next
  case (Cons h hs)
  from Cons.prems(3) obtain ou f t where h: "h = (ou, Calls (Publishes f t))" "\<forall>n. ou_sends ou n = None"
    and rst: "only_publishes hs" unfolding only_publishes_def by (cases h) auto
  let ?u = "u\<lparr>us_sequence := us_sequence u + 1\<rparr>" and ?c = "c\<lparr>cl_transport := TUdpm (u\<lparr>us_sequence := us_sequence u + 1\<rparr>)\<rparr>"
  have frames: "frames_of (h # hs) = f # frames_of hs" by (simp add: frames_of_def h)
  obtain r where enc: "udpm_encode (us_sequence u) f (us_short_max u) = Some r" using encode_total by blast
  obtain a bs where w: "client_write is_match ou f t c = Some (a, ?c, bs)"
    "a = (case r of Inl e \<Rightarrow> Inl (WireFailed e) | Inr ds \<Rightarrow> Inr ())" "bs = (case r of Inl e \<Rightarrow> [] | Inr ds \<Rightarrow> ds)"
    using Cons.prems(1,2) enc send_all_sent [OF h(2)] by (cases r) (auto simp: client_write_def Let_def)
  from Cons.prems(4) obtain rs1 sent1 where later: "happenings compile is_match hs ?c = Some (rs1, c', sent1)"
    and rs: "rs = (Publishes f t, and_then a (\<lambda>_. Inr True)) # rs1" "sent = bs @ sent1"
    by (auto simp: h w(1) client_call_def answered_def)
  have "cl_transport ?c = TUdpm ?u" "cl_writable ?c" using Cons.prems(2) by simp_all
  from Cons.IH [OF this rst later] show ?case
    unfolding rs frames using enc w(2,3) by (cases r) simp_all
qed

lemma published_as_encoded:
  "(q, f, ds) \<in> set (published_as sequence short_max frames) \<Longrightarrow>
    f \<in> set frames \<and> udpm_encode q f short_max = Some (Inr ds)"
  by (induction sequence short_max frames rule: published_as.induct) (auto split: option.splits sum.splits)

text \<open>The numbers differ until they come round.\<close>

lemma published_as_numbers:
  "fst ` set (published_as sequence short_max frames) \<subseteq> (\<lambda>i. sequence + of_nat i) ` {..<length frames}"
proof (induction frames arbitrary: sequence)
  case (Cons frame frames)
  have up: "(\<lambda>i. sequence + 1 + of_nat i) ` {..<length frames} \<subseteq> (\<lambda>i. sequence + of_nat i) ` {..<Suc (length frames)}"
  proof
    fix q assume "q \<in> (\<lambda>i. sequence + 1 + of_nat i) ` {..<length frames}"
    then obtain i where "i < length frames" "q = sequence + of_nat (Suc i)" by (auto simp: add.assoc)
    then show "q \<in> (\<lambda>i. sequence + of_nat i) ` {..<Suc (length frames)}" by blast
  qed
  have first: "sequence \<in> (\<lambda>i. sequence + of_nat i) ` {..<Suc (length frames)}" by (rule image_eqI [of _ _ 0]) simp_all
  have "fst ` set (published_as sequence short_max (frame # frames)) \<subseteq>
      insert sequence (fst ` set (published_as (sequence + 1) short_max frames))"
    by (auto split: option.splits sum.splits)
  moreover from first subset_trans [OF Cons.IH [of "sequence + 1"] up]
  have "insert sequence (fst ` set (published_as (sequence + 1) short_max frames)) \<subseteq>
      (\<lambda>i. sequence + of_nat i) ` {..<Suc (length frames)}" by (rule insert_subset [THEN iffD2, OF conjI])
  ultimately show ?case unfolding length_Cons by (rule subset_trans)
qed simp

lemma published_as_distinct:
  "length frames \<le> 2 ^ 32 \<Longrightarrow> distinct (map fst (published_as sequence short_max frames))"
proof (induction frames arbitrary: sequence)
  case (Cons frame frames)
  have "sequence \<notin> fst ` set (published_as (sequence + 1) short_max frames)"
  proof
    assume "sequence \<in> fst ` set (published_as (sequence + 1) short_max frames)"
    with published_as_numbers [of "sequence + 1" short_max frames] obtain i
      where i: "i < length frames" "sequence = sequence + 1 + of_nat i" by blast
    then have "(of_nat (Suc i) :: u32) = 0" by (simp add: add.assoc)
    then have "2 ^ LENGTH(32) dvd Suc i" by (simp only: word_of_nat_eq_0_iff)
    from dvd_imp_le [OF this] i(1) Cons.prems show False by simp
  qed
  with Cons.IH [of "sequence + 1"] Cons.prems show ?case by (auto split: option.splits sum.splits)
qed simp

section \<open>From the one client to the other\<close>

text \<open>Messages with their numbers and datagrams: all of different numbers, each encoded under its own.\<close>

definition numbered_well :: "nat \<Rightarrow> (u32 \<times> FrameRef \<times> bytes list) list \<Rightarrow> bool" where
  "numbered_well short_max ms \<longleftrightarrow> distinct (map fst ms) \<and>
     (\<forall>(q, f, ds) \<in> set ms. is_str (channel f) \<and> udpm_encode q f short_max = Some (Inr ds))"

lemma datagrams_of_number:
  "numbered_well short_max ms \<Longrightarrow> (q, f, ds) \<in> set ms \<Longrightarrow>
    filter (\<lambda>d. number_of d = Some q) (concat (map (snd \<circ> snd) ms)) = ds"
proof (induction ms)
  case (Cons m ms)
  obtain q' f' ds' where m: "m = (q', f', ds')" by (cases m)
  with Cons.prems(1) have well: "numbered_well short_max ms" and num: "\<forall>d \<in> set ds'. number_of d = Some q'"
    and new: "q' \<notin> fst ` set ms"
    by (auto simp: numbered_well_def dest: datagram_number)
  have other: "number_of d = Some q2 \<Longrightarrow> q2 \<in> fst ` set ms"
    if "d \<in> set (concat (map (snd \<circ> snd) ms))" for d q2
    using that well by (fastforce simp: numbered_well_def dest: datagram_number)
  show ?case
  proof (cases "q = q'")
    case True
    have "filter (\<lambda>d. number_of d = Some q) (concat (map (snd \<circ> snd) ms)) = []"
      using other new True by (auto simp: filter_empty_conv)
    moreover have "ds = ds'" using Cons.prems(2) m new True by force
    moreover have "filter (\<lambda>d. number_of d = Some q) ds' = ds'" using num True by simp
    ultimately show ?thesis by (simp add: m comp_def)
  next
    case False
    with Cons.prems(2) m have "(q, f, ds) \<in> set ms" by simp
    from Cons.IH [OF well this] False num show ?thesis by (simp add: m filter_empty_conv)
  qed
qed simp

text \<open>A list of numbered things, put together from what it holds under each number.\<close>

lemma under_numbers:
  "distinct (map fst ms) \<Longrightarrow> \<forall>(q, f, ds) \<in> set ms. map rc_frame (as_numbered q rcs) = (if w f then [f] else []) \<Longrightarrow>
    \<forall>m \<in> set rcs. rc_sequence m \<in> fst ` set ms \<Longrightarrow>
    mset (map rc_frame rcs) = mset (filter w (map (fst \<circ> snd) ms))"
proof (induction ms arbitrary: rcs)
  case (Cons m ms)
  obtain q f ds where m: "m = (q, f, ds)" by (cases m)
  let ?rst = "filter (\<lambda>m. rc_sequence m \<noteq> q) rcs"
  have same: "as_numbered q' ?rst = as_numbered q' rcs" if "q' \<in> fst ` set ms" for q'
  proof -
    from Cons.prems(1) m that have "q' \<noteq> q" by auto
    then show ?thesis by (auto simp: as_numbered_def intro: filter_cong)
  qed
  have "mset (map rc_frame ?rst) = mset (filter w (map (fst \<circ> snd) ms))"
  proof (rule Cons.IH)
    show "\<forall>(q', f', ds') \<in> set ms. map rc_frame (as_numbered q' ?rst) = (if w f' then [f'] else [])"
    proof (intro ballI, clarify)
      fix q' f' ds' assume i: "(q', f', ds') \<in> set ms"
      then have "q' \<in> fst ` set ms" by force
      with same [of q'] Cons.prems(2) i show "map rc_frame (as_numbered q' ?rst) = (if w f' then [f'] else [])" by auto
    qed
  qed (use Cons.prems m in auto)
  moreover have "map rc_frame (as_numbered q rcs) = (if w f then [f] else [])" using Cons.prems(2) m by simp
  moreover have "mset (map rc_frame rcs) = mset (map rc_frame (as_numbered q rcs)) + mset (map rc_frame ?rst)"
    unfolding as_numbered_def mset_map mset_filter image_mset_union [symmetric] by (rule arg_cong [OF multiset_partition])
  ultimately have "mset (map rc_frame rcs) = mset (if w f then [f] else []) + mset (filter w (map (fst \<circ> snd) ms))" by (simp only:)
  then show ?case by (simp add: m comp_def)
qed auto

lemma messages_arrive_any:
  assumes well: "numbered_well short_max ms" and ok: "reassembler_ok s" and srt: "sorts_pieces srt" and quiet: "quiet src s"
    and own: "mset (filter (\<lambda>x. fst x = src) xs) = mset (map (Pair src) (concat (map (snd \<circ> snd) ms)))"
    and run: "on_datagrams srt wanted s xs = Some (s', rs)" and room: "ra_evicted s' = ra_evicted s"
  shows "mset (map rc_frame (from_sender src xs rs)) = mset (filter (\<lambda>f. wanted (channel f)) (map (fst \<circ> snd) ms)) \<and> quiet src s'"
proof -
  have num: "mset (filter (of_number src q) xs) =
      mset (map (Pair src) (filter (\<lambda>d. number_of d = Some q) (concat (map (snd \<circ> snd) ms))))" for q
  proof -
    have "mset (filter (of_number src q) xs) = filter_mset (of_number src q) (mset (filter (\<lambda>x. fst x = src) xs))"
      unfolding mset_filter filter_filter_mset by (rule filter_mset_cong) (auto simp: of_number_def)
    then show ?thesis unfolding own mset_filter [symmetric] filter_map by (simp add: comp_def of_number_def)
  qed
  have fresh: "bt_get (ra_partial s) (src, q) = None" for q using quiet by (simp add: quiet_def)
  have arrived: "map rc_frame (as_numbered q (from_sender src xs rs)) = (if wanted (channel f) then [f] else []) \<and>
      bt_get (ra_partial s') (src, q) = None" if "(q, f, ds) \<in> set ms" for q f ds
  proof -
    from well that have "udpm_encode q f short_max = Some (Inr ds)" "is_str (channel f)" by (auto simp: numbered_well_def)
    from number_arrives [OF this ok srt fresh _ run room] num [of q] datagrams_of_number [OF well that] show ?thesis by simp
  qed
  have absent: "filter (of_number src q) xs = []" if "q \<notin> fst ` set ms" for q
  proof -
    have "filter (\<lambda>d. number_of d = Some q) (concat (map (snd \<circ> snd) ms)) = []"
      using that well by (fastforce simp: filter_empty_conv numbered_well_def dest: datagram_number)
    with num [of q] have "mset (filter (of_number src q) xs) = {#}" by (simp only: list.map mset.simps)
    then show ?thesis by (simp only: mset_zero_iff)
  qed
  have "\<forall>m \<in> set (from_sender src xs rs). rc_sequence m \<in> fst ` set ms"
  proof (rule ballI, rule ccontr)
    fix m assume "m \<in> set (from_sender src xs rs)" and none: "rc_sequence m \<notin> fst ` set ms"
    then have "m \<in> set (as_numbered (rc_sequence m) (from_sender src xs rs))" by (simp add: as_numbered_def)
    with number_absent [OF run absent [OF none]] show False by simp
  qed
  with arrived well have "mset (map rc_frame (from_sender src xs rs)) = mset (filter (\<lambda>f. wanted (channel f)) (map (fst \<circ> snd) ms))"
    by (intro under_numbers) (auto simp: numbered_well_def)
  moreover have "bt_get (ra_partial s') (src, q) = None" for q
  proof (cases "q \<in> fst ` set ms")
    case True
    then obtain f ds where "(q, f, ds) \<in> set ms" by force
    with arrived show ?thesis by blast
  next
    case False
    from absent [OF False] have "\<forall>d fr. (src, d) \<in> set xs \<longrightarrow> udpm_decode d = Inr (DFragment fr) \<longrightarrow> fr_sequence fr \<noteq> q"
      by (auto simp: filter_empty_conv number_of_def)
    from number_kept [OF ok srt fresh this run] show ?thesis .
  qed
  ultimately show ?thesis by (simp add: quiet_def)
qed

text \<open>Where the datagrams come in the order they were sent, so do the messages.\<close>

lemma message_arrives:
  assumes enc: "udpm_encode sequence frame short_max = Some (Inr ds)" and str: "is_str (channel frame)"
    and ok: "reassembler_ok s" and srt: "sorts_pieces srt" and quiet: "quiet src s"
    and own: "filter (\<lambda>x. fst x = src) xs = map (Pair src) ds"
    and run: "on_datagrams srt wanted s xs = Some (s', rs)" and room: "ra_evicted s' = ra_evicted s"
  shows "map rc_frame (from_sender src xs rs) = (if wanted (channel frame) then [frame] else []) \<and> quiet src s'"
proof -
  have fresh: "bt_get (ra_partial s) (src, q) = None" for q using quiet by (simp add: quiet_def)
  have mine: "filter (of_number src q) xs = (if q = sequence then map (Pair src) ds else [])" for q
  proof -
    have "filter (of_number src q) xs = filter (of_number src q) (filter (\<lambda>x. fst x = src) xs)"
      unfolding filter_filter by (rule filter_cong) (auto simp: of_number_def)
    then show ?thesis unfolding own using datagram_number [OF enc str] by (auto simp: filter_empty_conv filter_id_conv)
  qed
  have "mset (filter (of_number src sequence) xs) = mset (map (Pair src) ds)" by (simp only: mine if_True simp_thms)
  from number_arrives [OF enc str ok srt fresh this run room]
  have here: "map rc_frame (as_numbered sequence (from_sender src xs rs)) = (if wanted (channel frame) then [frame] else [])"
    "bt_get (ra_partial s') (src, sequence) = None" by blast+
  have "rc_sequence m = sequence" if "m \<in> set (from_sender src xs rs)" for m
  proof (rule ccontr)
    assume "rc_sequence m \<noteq> sequence"
    with number_absent [OF run, of src "rc_sequence m"] mine that show False by (auto simp: as_numbered_def filter_empty_conv)
  qed
  then have "as_numbered sequence (from_sender src xs rs) = from_sender src xs rs" by (simp add: as_numbered_def)
  moreover have "bt_get (ra_partial s') (src, q) = None" if "q \<noteq> sequence" for q
  proof (rule number_kept [OF ok srt fresh _ run], intro allI impI notI)
    fix d fr assume d: "(src, d) \<in> set xs" "udpm_decode d = Inr (DFragment fr)" "fr_sequence fr = q"
    then have "(src, d) \<in> set (filter (of_number src q) xs)" by (simp add: number_of_def)
    with mine [of q] that show False by simp
  qed
  ultimately show ?thesis using here unfolding quiet_def by metis
qed

lemma filter_append_cases:
  "filter P xs = ys @ zs \<Longrightarrow> \<exists>us vs. xs = us @ vs \<and> filter P us = ys \<and> filter P vs = zs"
proof (induction xs arbitrary: ys)
  case (Cons x xs)
  show ?case
  proof (cases "P x \<and> ys = []")
    case True
    with Cons.prems show ?thesis by (intro exI [of _ "[]"] exI [of _ "x # xs"]) simp
  next
    case False
    with Cons.prems obtain ys' where "filter P xs = ys' @ zs" "ys = (if P x then x # ys' else ys')"
      by (cases ys) (auto split: if_splits)
    with Cons.IH [of ys'] show ?thesis by (metis append_Cons filter.simps(2))
  qed
qed simp


lemma on_datagrams_append:
  "on_datagrams srt wanted s (xs @ ys) = Option.bind (on_datagrams srt wanted s xs) (\<lambda>(s, rs).
     map_option (\<lambda>(s, rs'). (s, rs @ rs')) (on_datagrams srt wanted s ys))"
proof (induction xs arbitrary: s)
  case Nil
  show ?case by (cases "on_datagrams srt wanted s ys") simp_all
next
  case (Cons x xs)
  obtain src d where x: "x = (src, d)" by (cases x)
  show ?case
  proof (cases "on_datagram srt wanted s src d")
    case (Some sr)
    obtain s1 r where sr: "sr = (s1, r)" by (cases sr)
    show ?thesis
    proof (cases "on_datagrams srt wanted s1 xs")
      case (Some sx)
      with \<open>on_datagram srt wanted s src d = Some sr\<close> Cons.IH [of s1] x sr show ?thesis
        by (cases sx; cases "on_datagrams srt wanted (fst sx) ys") (simp_all split: prod.splits)
    qed (use Some Cons.IH [of s1] x sr in simp)
  qed (use x in simp)
qed

lemma messages_arrive:
  assumes "\<forall>(q, f, ds) \<in> set ms. is_str (channel f) \<and> udpm_encode q f short_max = Some (Inr ds)"
    and "reassembler_ok s" and srt: "sorts_pieces srt" and "quiet src s"
    and "filter (\<lambda>x. fst x = src) xs = map (Pair src) (concat (map (snd \<circ> snd) ms))"
    and "on_datagrams srt wanted s xs = Some (s', rs)" and "ra_evicted s' = ra_evicted s"
  shows "map rc_frame (from_sender src xs rs) = filter (\<lambda>f. wanted (channel f)) (map (fst \<circ> snd) ms) \<and> quiet src s'"
  using assms(1,2,4-7)
proof (induction ms arbitrary: s xs rs)
  case Nil
  then have none: "src \<notin> fst ` set xs" by (auto simp: filter_empty_conv)
  have "bt_get (ra_partial s') (src, q) = None" for q
    by (rule on_datagrams_keeps_absent [OF Nil.prems(2) srt _ _ Nil.prems(5)])
      (use none Nil.prems(3) in \<open>auto simp: quiet_def image_iff\<close>)
  with from_sender_none [OF none] show ?case by (simp add: quiet_def)
next
  case (Cons m ms)
  obtain q f ds where m: "m = (q, f, ds)" by (cases m)
  with Cons.prems(1) have enc: "udpm_encode q f short_max = Some (Inr ds)" "is_str (channel f)" by auto
  from Cons.prems(4) m have "filter (\<lambda>x. fst x = src) xs = map (Pair src) ds @ map (Pair src) (concat (map (snd \<circ> snd) ms))"
    by (simp add: comp_def)
  from filter_append_cases [OF this] obtain us vs where xs: "xs = us @ vs" "filter (\<lambda>x. fst x = src) us = map (Pair src) ds"
    "filter (\<lambda>x. fst x = src) vs = map (Pair src) (concat (map (snd \<circ> snd) ms))" by blast
  obtain s1 rs1 where 1: "on_datagrams srt wanted s us = Some (s1, rs1)" "reassembler_ok s1" "length rs1 = length us"
    using on_datagrams_ok [OF Cons.prems(2) srt] by blast
  from Cons.prems(5) 1(1) xs(1) obtain rs2 where 2: "on_datagrams srt wanted s1 vs = Some (s', rs2)" "rs = rs1 @ rs2"
    by (auto simp: on_datagrams_append bind_eq_Some_conv)
  have ev: "ra_evicted s1 = ra_evicted s" "ra_evicted s' = ra_evicted s1"
    using on_datagrams_evicted [OF Cons.prems(2) srt 1(1)] on_datagrams_evicted [OF 1(2) srt 2(1)] Cons.prems(6) by simp_all
  from message_arrives [OF enc Cons.prems(2) srt Cons.prems(3) xs(2) 1(1) ev(1)]
  have first: "map rc_frame (from_sender src us rs1) = (if wanted (channel f) then [f] else [])" "quiet src s1" by blast+
  have "\<forall>(q, f, ds) \<in> set ms. is_str (channel f) \<and> udpm_encode q f short_max = Some (Inr ds)" using Cons.prems(1) by simp
  from Cons.IH [OF this 1(2) first(2) xs(3) 2(1) ev(2)] first(1) 1(3) show ?case
    by (simp add: xs(1) 2(2) m from_sender_append comp_def)
qed

text \<open>The datagrams that come to a socket, before the receive buffer.\<close>

definition brought :: "'k UdpEvent list \<Rightarrow> ('k \<times> bytes) list" where
  "brought evs = concat (map (\<lambda>ev. case ev of Datagram src d \<Rightarrow> [(src, d)] | UError _ \<Rightarrow> []) evs)"

lemma brought_whole: "\<forall>x \<in> set (brought evs). length (snd x) \<le> 65536 \<Longrightarrow> datagrams_of evs = brought evs"
proof (induction evs)
  case (Cons ev evs)
  then show ?case by (cases ev) (auto simp: brought_def)
qed (simp add: brought_def)

lemma brought_cut: "datagrams_of evs = map (\<lambda>(src, d). (src, take 65536 d)) (brought evs)"
proof (induction evs)
  case (Cons ev evs)
  then show ?case by (cases ev) (simp_all add: brought_def)
qed (simp add: brought_def)

lemma multicast_delivers:
  fixes src :: "'k :: linorder"
  assumes c: "cl_transport c = TUdpm u" "cl_writable c" "us_short_max u \<le> MAX_SHORT_MAX"
    and calls: "only_publishes hs" "length hs \<le> 2 ^ 32" and run: "happenings compile is_match hs c = Some (rs, c', sent)"
    and s: "reassembler_ok s" "quiet src s" and srt: "sorts_pieces srt"
    and bus: "bus_stays evs" "mset (filter (\<lambda>x. fst x = src) (brought evs)) = mset (map (Pair src) sent)" "length evs \<le> n"
    and read: "udpm_reader srt (\<lambda>_. wanted) now n evs s (counters_new, []) = Some (stop, s', (counters, out))"
    and room: "ra_evicted s' = ra_evicted s"
  defines "got \<equiv> map de_frame (filter (\<lambda>d. \<exists>q. de_origin d = OMulticast src q) out)"
    and "meant \<equiv> filter (\<lambda>f. wanted (channel f)) (answered_ok rs)"
  shows "mset got = mset meant \<and> (filter (\<lambda>x. fst x = src) (brought evs) = map (Pair src) sent \<longrightarrow> got = meant) \<and>
    stop = None \<and> quiet src s'"
proof -
  let ?ms = "published_as (us_sequence u) (us_short_max u) (frames_of hs)" and ?xs = "datagrams_of evs"
  from publishes_sent [OF c(1,2) calls(1) run] have sent: "sent = concat (map (snd \<circ> snd) ?ms)"
    and oks: "answered_ok rs = map (fst \<circ> snd) ?ms" by blast+
  have str: "\<forall>f \<in> set (frames_of hs). is_str (channel f)" and len: "length (frames_of hs) = length hs"
    using calls(1) by (induction hs) (auto simp: frames_of_def only_publishes_def)
  have well: "numbered_well (us_short_max u) ?ms"
    using published_as_distinct [of "frames_of hs"] calls(2) str published_as_encoded
    unfolding numbered_well_def len by fast
  then have enc: "\<forall>(q, f, ds) \<in> set ?ms. is_str (channel f) \<and> udpm_encode q f (us_short_max u) = Some (Inr ds)"
    by (simp add: numbered_well_def)
  have short: "length d \<le> 65536" if "d \<in> set sent" for d
  proof -
    from that sent enc obtain f ds q where "d \<in> set ds" "udpm_encode q f (us_short_max u) = Some (Inr ds)" by fastforce
    with encode_fits c(3) have "length d \<le> HEADER_SHORT + MAX_SHORT_MAX" by (meson add_le_mono order_refl order_trans)
    then show ?thesis by (simp add: HEADER_SHORT_def MAX_SHORT_MAX_def MAX_UDP_PAYLOAD_def)
  qed
  have cut: "filter (\<lambda>x. fst x = src) ?xs = filter (\<lambda>x. fst x = src) (brought evs)"
  proof -
    have "take 65536 (snd x) = snd x" if "x \<in> set (filter (\<lambda>x. fst x = src) (brought evs))" for x
    proof -
      from that have "x \<in> set (map (Pair src) sent)" unfolding mset_eq_setD [OF bus(2)] .
      then have "snd x \<in> set sent" by auto
      with short show ?thesis by simp
    qed
    then have "map (\<lambda>(src, d). (src, take 65536 d)) (filter (\<lambda>x. fst x = src) (brought evs)) = filter (\<lambda>x. fst x = src) (brought evs)"
      by (intro map_idI) (auto simp: case_prod_beta)
    then show ?thesis by (simp add: brought_cut filter_map comp_def case_prod_beta)
  qed
  obtain s1 ans where a: "on_datagrams srt wanted s ?xs = Some (s1, ans)" using on_datagrams_ok [OF s(1) srt] by blast
  from udpm_reader_hands_on [OF bus(1,3) a, of now counters_new "[]"] read
  have r: "stop = None" "s1 = s'" "map (\<lambda>d. (de_frame d, de_origin d)) out = map delivery_from (sourced ?xs ans)" by auto
  have "got = map fst (filter (\<lambda>x. \<exists>q. snd x = OMulticast src q) (map (\<lambda>d. (de_frame d, de_origin d)) out))"
    by (simp add: got_def filter_map comp_def)
  also have "\<dots> = map rc_frame (from_sender src ?xs ans)"
    unfolding r(3) by (simp add: filter_map comp_def delivery_from_def from_sender_def eq_commute)
  finally have got: "got = map rc_frame (from_sender src ?xs ans)" .
  have meant: "meant = filter (\<lambda>f. wanted (channel f)) (map (fst \<circ> snd) ?ms)" by (simp only: meant_def oks)
  have "mset (filter (\<lambda>x. fst x = src) ?xs) = mset (map (Pair src) (concat (map (snd \<circ> snd) ?ms)))"
    unfolding cut bus(2) sent ..
  from messages_arrive_any [OF well s(1) srt s(2) this a] room r(2) have "mset got = mset meant" "quiet src s'"
    unfolding got meant by blast+
  moreover have "got = meant" if "filter (\<lambda>x. fst x = src) (brought evs) = map (Pair src) sent"
  proof -
    from that have "filter (\<lambda>x. fst x = src) ?xs = map (Pair src) (concat (map (snd \<circ> snd) ?ms))" unfolding cut sent .
    from messages_arrive [OF enc s(1) srt s(2) this a] room r(2) show ?thesis unfolding got meant by blast
  qed
  ultimately show ?thesis using r(1) by blast
qed

end
