(* ===== verification/Recording.thy ===== *)
theory Recording
  imports ClientLife
begin

text \<open>
  A log from its recording to its replay, through the files: \<open>open_log\<close> for writing or appending, any calls to
  \<open>publish\<close>, \<open>close\<close>, and then \<open>open_log\<close> to read and the thread that replays it.
\<close>

text \<open>The events a log to be written to begins with: those of the file where it appends, and none where it does
  not or there is no file.\<close>

definition begins_with :: "LogMode \<Rightarrow> FileNode option \<Rightarrow> Event list \<Rightarrow> bool" where
  "begins_with mode node evs \<longleftrightarrow>
     (case node of
        Some (Regular bs) \<Rightarrow>
          if mode = Append then \<exists>bss. list_all2 logged evs bss \<and> bs = concat bss else evs = []
      | _ \<Rightarrow> evs = [])"

lemma open_log_writes:
  assumes opened: "open_log os fs log receiving = (Inr c, fs')" and mode: "lf_mode log \<noteq> Read"
    and begins: "begins_with (lf_mode log) (fs (lf_path log)) evs"
  shows "cl_transport c = TLog \<lparr>lw_file = [], lw_events = 0\<rparr> \<and> cl_writable c \<and> \<not> cl_receives c \<and>
    (\<exists>bss. list_all2 logged evs bss \<and> fs' = fs(lf_path log \<mapsto> Regular (concat bss)))"
proof -
  let ?node = "opened_to_write (lf_mode log) (fs (lf_path log))"
  from opened mode obtain bs where o: "?node = Regular bs" "fs' = fs(lf_path log \<mapsto> ?node)"
    "c = client_new (TLog \<lparr>lw_file = [], lw_events = 0\<rparr>) False receiving"
    by (cases "lf_mode log") (auto simp: open_log_def Let_def split: option.splits FileNode.splits)
  have "\<exists>bss. list_all2 logged evs bss \<and> bs = concat bss"
    using o(1) begins mode
    by (cases "lf_mode log") (auto simp: opened_to_write_def begins_with_def split: option.splits FileNode.splits)
  with o show ?thesis by (auto simp: client_new_def)
qed

text \<open>The file that a recording leaves.\<close>

lemma recording_left:
  assumes opened: "open_log os fs log receiving = (Inr c, fs')" and mode: "lf_mode log \<noteq> Read"
    and begins: "begins_with (lf_mode log) (fs (lf_path log)) evs"
    and str: "\<forall>(ou, f, t) \<in> set calls. is_str (channel f)" and run: "client_calls is_match calls c = Some (rs, c1)"
    and closed: "client_close ou c1 = (None, c2)" and lw: "cl_transport c2 = TLog lw" and sound: "cl_writable c1"
  shows "\<exists>bss. list_all2 logged (evs @ recorded 0 calls rs) bss \<and>
    on_disk fs' (lf_path log) lw = fs(lf_path log \<mapsto> Regular (concat bss))"
proof -
  from open_log_writes [OF opened mode begins] obtain bss0 where
    c: "cl_transport c = TLog \<lparr>lw_file = [], lw_events = 0\<rparr>" "cl_writable c"
    and disk: "list_all2 logged evs bss0" "fs' = fs(lf_path log \<mapsto> Regular (concat bss0))" by blast
  from client_calls_log [OF c(1), of calls is_match] run c(2) obtain lw' where
    l: "log_calls calls True \<lparr>lw_file = [], lw_events = 0\<rparr> = (rs, True, lw')" "cl_transport c1 = TLog lw'"
    using sound by auto
  from log_calls_file [OF l(1) str] obtain bss where
    f: "lw_file lw' = concat bss" "list_all2 logged (recorded 0 calls rs) bss" by auto
  from closed lw l(2) have "lw = lw'" by (auto simp: client_close_def)
  with f disk list_all2_appendI [OF disk(1) f(2)] show ?thesis
    by (intro exI [of _ "bss0 @ bss"]) (simp add: on_disk_def)
qed

text \<open>What opening it again gives.\<close>

lemma open_log_reads:
  assumes opened: "open_log os fs log receiving = (Inr c, fs')" and mode: "lf_mode log = Read"
  shows "fs' = fs \<and> cl_transport c = TReplay \<and> cl_receives c \<and>
    (\<exists>bs. fs (lf_path log) = Some (Regular bs) \<and> open_to_replay os fs (lf_path log) = Inr bs)"
proof (cases "open_to_replay os fs (lf_path log)")
  case (Inl e)
  with opened mode show ?thesis by (cases receiving) (simp_all add: open_log_def)
next
  case (Inr bs)
  then have "fs (lf_path log) = Some (Regular bs)"
    by (auto simp: open_to_replay_def split: option.splits FileNode.splits)
  moreover from opened mode Inr have "fs' = fs \<and> c = client_new TReplay True receiving"
    by (cases receiving; cases "os_call os (Receiver, SpawnReader)") (simp_all add: open_log_def)
  ultimately show ?thesis using Inr by (simp add: client_new_def)
qed

lemma recording_replays:
  fixes en :: "'f Env"
  assumes opened: "open_log os fs log receiving = (Inr c, fs')" and mode: "lf_mode log \<noteq> Read"
    and begins: "begins_with (lf_mode log) (fs (lf_path log)) evs"
    and str: "\<forall>(ou, f, t) \<in> set calls. is_str (channel f)" and run: "client_calls is_match calls c = Some (rs, c1)"
    and closed: "client_close ou c1 = (None, c2)" and lw: "cl_transport c2 = TLog lw" and sound: "cl_writable c1"
    and again: "open_log os' (on_disk fs' (lf_path log) lw) (log\<lparr>lf_mode := Read\<rparr>) receiving' = (Inr c', fs'')"
    and "open": "open_to_replay os' fs'' (lf_path log) = Inr bytes"
    and reads: "\<forall>p \<le> length bytes. script_ok (reads p) \<and> script_bytes (reads p) = drop p bytes \<and>
      (\<forall>e. SError e \<in> set (reads p) \<longrightarrow> is_timeout e)"
    and w: "en_wanted en = (\<lambda>_. w)" and replay: "log_reader en speed bytes reads n = (r, st :: ('k, 'f) Replay)"
  shows "cl_transport c' = TReplay \<and>
    (\<exists>k \<le> length (evs @ recorded 0 calls rs).
      delivered_by st = map delivery_of (filter (replays en w) (take k (evs @ recorded 0 calls rs))) \<and>
      (r = None \<or> r = Some EndOfLog \<and> k = length (evs @ recorded 0 calls rs) \<and> ct_discarded (rp_counters st) = 0))"
proof -
  from recording_left [OF opened mode begins str run closed lw sound] obtain bss where
    bss: "list_all2 logged (evs @ recorded 0 calls rs) bss" "on_disk fs' (lf_path log) lw = fs(lf_path log \<mapsto> Regular (concat bss))"
    by blast
  from open_log_reads [OF again] bss(2) have c': "cl_transport c' = TReplay" "fs'' = fs(lf_path log \<mapsto> Regular (concat bss))"
    by auto
  with "open" have "bytes = concat bss" by (auto simp: open_to_replay_def split: option.splits)
  from log_reader_replays [OF bss(1) this reads w replay] c'(1) show ?thesis by blast
qed

end
