(* ===== verification/Texts.thy ===== *)
theory Texts
  imports ClientOps
begin

text \<open>
  The texts of errors: \<open>Display\<close> and \<open>Error::source\<close> of the error types. The text of an \<open>io::Error\<close> is the
  platform's, an argument.
\<close>

section \<open>Display\<close>

definition hex_char :: "nat \<Rightarrow> char" where
  "hex_char d = (if d < 10 then digit_char d else char_of (97 + (d - 10)))"

text \<open>\<open>{:#010x}\<close> of a number of 32 bits.\<close>

definition show_hex32 :: "u32 \<Rightarrow> string" where
  "show_hex32 w = ''0x'' @ map (\<lambda>i. hex_char (unat w div 16 ^ i mod 16)) [7, 6, 5, 4, 3, 2, 1, 0]"

fun show_wire_error :: "WireError \<Rightarrow> string" where
  "show_wire_error (Truncated needed remaining) =
     ''needed '' @ show_nat needed @ '' more bytes, '' @ show_nat remaining @ '' remain''"
| "show_wire_error (BadMagic magic) = show_hex32 magic @ '' is not an LCM magic number''"
| "show_wire_error BadChannel = ''an empty channel name, or one with bytes a name cannot hold''"
| "show_wire_error (ChannelTooLong len) = ''a channel name of '' @ show_nat len @ '' bytes is too long''"
| "show_wire_error (MessageTooLarge len) = ''a message of '' @ show_nat len @ '' bytes is above the limit''"
| "show_wire_error (DatagramTooSmall short_max minimum) = ''a datagram limit of '' @ show_nat short_max
     @ '' bytes is too small for this channel, and the minimum is '' @ show_nat minimum"
| "show_wire_error (TooManyFragments n) = show_nat n @ '' fragments is above the limit''"
| "show_wire_error (InconsistentFragment sequence) =
     ''the fragments of message '' @ show_nat (unat sequence) @ '' do not agree''"
| "show_wire_error (UnknownFrameType kind) = show_nat (unat kind) @ '' is not a relay frame type''"

fun show_url_problem :: "UrlProblem \<Rightarrow> string" where
  "show_url_problem Scheme = ''the scheme is not udpm://, tcpq:// or file://''"
| "show_url_problem Group = ''the group is not an IPv4 address''"
| "show_url_problem NotMulticast = ''the group is not a multicast address''"
| "show_url_problem Port = ''the port is not a number''"
| "show_url_problem Ttl = ''the ttl is not a number from 0 to 255''"
| "show_url_problem RecvBufSize = ''the recv_buf_size is not a number of bytes''"
| "show_url_problem Interface = ''the interface is not an IPv4 address''"
| "show_url_problem ShortMax = ''the short_max is not a datagram length''"
| "show_url_problem NoPath = ''there is no path''"
| "show_url_problem Mode = ''the mode is not r, w or a''"
| "show_url_problem BadSpeed = ''the speed is not a rate above zero''"
| "show_url_problem StartTimestamp = ''the start_timestamp is not a number of microseconds''"

definition show_bad_url :: "BadUrl \<Rightarrow> string" where
  "show_bad_url e = ''`'' @ bu_url e @ ''` is not a usable bus URL: '' @ show_url_problem (bu_problem e)"

fun show_reason :: "BadReason \<Rightarrow> string" where
  "show_reason (OfName e) = show_wire_error e"
| "show_reason (OfRegex reason) = reason"

definition show_bad_pattern :: "BadPattern \<Rightarrow> string" where
  "show_bad_pattern e = ''`'' @ bp_pattern e @ ''` is not a usable subscription pattern: '' @ show_reason (bp_reason e)"

fun show_stop :: "(IoError \<Rightarrow> string) \<Rightarrow> Stop \<Rightarrow> string" where
  "show_stop io EndOfLog = ''the log ended''"
| "show_stop io TornLog = ''the log ended in the middle of an event''"
| "show_stop io Panicked = ''the handler panicked''"
| "show_stop io Closed = ''the relay closed the connection''"
| "show_stop io (StopIo e) = io e"
| "show_stop io (StopWire e) = show_wire_error e"

fun show_client_error :: "(IoError \<Rightarrow> string) \<Rightarrow> ClientError \<Rightarrow> string" where
  "show_client_error io (UrlError e) = show_bad_url e"
| "show_client_error io (IoFailed e) = io e"
| "show_client_error io (HandshakeFailed e) = ''handshake failed: '' @ show_wire_error e"
| "show_client_error io (PatternRefused e) = show_bad_pattern e"
| "show_client_error io (WireFailed e) = show_wire_error e"
| "show_client_error io ReadOnly = ''a log open to read cannot publish''"
| "show_client_error io PublishOnly = ''a publisher takes no subscriptions''"
| "show_client_error io NotAFile = ''a log to replay is a file''"
| "show_client_error io ConnectionClosed = ''the connection is closed''"
| "show_client_error io NotARelay = ''only a tcpq:// bus has a relay to serve''"

section \<open>The error below\<close>

datatype Source = FromIo IoError | FromWire WireError | FromUrl BadUrl | FromPattern BadPattern

fun show_source :: "(IoError \<Rightarrow> string) \<Rightarrow> Source \<Rightarrow> string" where
  "show_source io (FromIo e) = io e"
| "show_source io (FromWire e) = show_wire_error e"
| "show_source io (FromUrl e) = show_bad_url e"
| "show_source io (FromPattern e) = show_bad_pattern e"

fun stop_source :: "Stop \<Rightarrow> Source option" where
  "stop_source (StopIo e) = Some (FromIo e)"
| "stop_source (StopWire e) = Some (FromWire e)"
| "stop_source _ = None"

fun client_error_source :: "ClientError \<Rightarrow> Source option" where
  "client_error_source (UrlError e) = Some (FromUrl e)"
| "client_error_source (IoFailed e) = Some (FromIo e)"
| "client_error_source (HandshakeFailed e) = Some (FromWire e)"
| "client_error_source (WireFailed e) = Some (FromWire e)"
| "client_error_source (PatternRefused e) = Some (FromPattern e)"
| "client_error_source _ = None"

text \<open>As the comment on \<open>source\<close> says, \<open>Display\<close> also gives the cause: the text ends with that of the source.\<close>

lemma display_gives_source:
  "client_error_source e = Some src \<Longrightarrow> \<exists>front. show_client_error io e = front @ show_source io src"
  by (cases e) auto

lemma stop_display_gives_source: "stop_source s = Some src \<Longrightarrow> show_stop io s = show_source io src"
  by (cases s) auto

section \<open>A text tells its error\<close>

lemma url_problem_text_inj: "show_url_problem p = show_url_problem q \<Longrightarrow> p = q"
  by (cases p; cases q) simp_all

definition is_digit :: "char \<Rightarrow> bool" where
  "is_digit c \<longleftrightarrow> to_digit c \<noteq> None"

text \<open>The number in front of a text that goes on with no digit.\<close>

lemma number_in_front:
  assumes "s = [] \<or> \<not> is_digit (hd s)"
  shows "takeWhile is_digit (show_nat n @ s) = show_nat n" and "dropWhile is_digit (show_nat n @ s) = s"
proof -
  have all: "\<forall>c \<in> set (show_nat n). is_digit c" using show_nat_digits by (auto simp: is_digit_def)
  then show "takeWhile is_digit (show_nat n @ s) = show_nat n" using assms
    by (cases s) (auto simp: takeWhile_append)
  from all show "dropWhile is_digit (show_nat n @ s) = s" using assms
    by (cases s) (auto simp: dropWhile_append)
qed

lemma show_nat_inj: "show_nat n = show_nat m \<longleftrightarrow> n = m"
  using parse_show_digits by (metis option.inject)

lemma number_text:
  assumes "s = [] \<or> \<not> is_digit (hd s)"
  shows "show_nat n @ s = t \<longleftrightarrow> takeWhile is_digit t = show_nat n \<and> dropWhile is_digit t = s"
  using number_in_front [OF assms, of n] by (metis takeWhile_dropWhile_id)

lemma hex_char_inj: "a < 16 \<Longrightarrow> b < 16 \<Longrightarrow> hex_char a = hex_char b \<Longrightarrow> a = b"
proof -
  assume ab: "a < 16" "b < 16" "hex_char a = hex_char b"
  have code: "of_char (hex_char d) = (if d < 10 then 48 + d else 87 + d)" if "d < 16" for d :: nat
    using that by (simp add: hex_char_def digit_char_def)
  from arg_cong [OF ab(3), of "of_char :: char \<Rightarrow> nat"] ab(1,2) show "a = b"
    by (simp add: code split: if_splits)
qed

lemma digits_tell: "n < 16 ^ k \<Longrightarrow> m < 16 ^ k \<Longrightarrow> (\<And>i. i < k \<Longrightarrow> n div 16 ^ i mod 16 = m div 16 ^ i mod (16 :: nat)) \<Longrightarrow> n = m"
proof (induction k arbitrary: n m)
  case (Suc k)
  have "n div 16 = m div 16"
  proof (rule Suc.IH)
    fix i assume "i < k"
    with Suc.prems(3) [of "Suc i"] show "n div 16 div 16 ^ i mod 16 = m div 16 div 16 ^ i mod 16"
      by (simp add: div_mult2_eq)
  qed (use Suc.prems(1,2) in auto)
  moreover have "n mod 16 = m mod 16" using Suc.prems(3) [of 0] by simp
  ultimately show ?case by (metis div_mult_mod_eq)
qed simp

lemma show_hex32_inj: "show_hex32 v = show_hex32 w \<Longrightarrow> v = w"
proof -
  assume "show_hex32 v = show_hex32 w"
  then have at: "hex_char (unat v div 16 ^ i mod 16) = hex_char (unat w div 16 ^ i mod 16)"
    if "i \<in> set [7, 6, 5, 4, 3, 2, 1, 0 :: nat]" for i
    using that by (simp only: show_hex32_def append_same_eq same_append_eq map_eq_conv)
  have "unat v = unat w"
  proof (rule digits_tell [where k = 8])
    show "unat v < 16 ^ 8" "unat w < 16 ^ 8" 
      using unsigned_less [where ?'a = nat, of v] unsigned_less [where ?'a = nat, of w] by simp_all
    fix i :: nat assume "i < 8"
    then have "i \<in> set [7, 6, 5, 4, 3, 2, 1, 0]" by auto
    from hex_char_inj [OF _ _ at [OF this]] show "unat v div 16 ^ i mod 16 = unat w div 16 ^ i mod 16" by simp
  qed
  then show "v = w" by (simp add: word_unat_eq_iff)
qed

lemma not_digits:
  "\<not> is_digit CHR '' ''" "\<not> is_digit CHR ''x''" "\<not> is_digit CHR ''n''" "\<not> is_digit CHR ''a''" "\<not> is_digit CHR ''t''"
  "is_digit CHR ''0''"
  by (simp_all add: is_digit_def to_digit_def)

lemma text_number:
  "s = [] \<or> \<not> is_digit (hd s) \<Longrightarrow> t = show_nat n @ s \<longleftrightarrow> takeWhile is_digit t = show_nat n \<and> dropWhile is_digit t = s"
  using number_text by metis

lemma wire_error_text_inj:
  assumes same: "show_wire_error e = show_wire_error e'"
  shows "e = e'"
proof (cases "(\<exists>v. e = BadMagic v) \<and> (\<exists>w. e' = BadMagic w)")
  case True
  with same show ?thesis by (auto intro: show_hex32_inj)
next
  case False
  with same show ?thesis
    by (cases e; cases e')
      (simp_all add: number_text text_number number_in_front not_digits show_nat_inj show_hex32_def,
        simp_all add: word_unat_eq_iff)
qed

end
