(* ===== verification/Spec2Isabelle.thy ===== *)
theory Spec2Isabelle
  imports Leaving OutboxRun MulticastRun Recording Texts
begin

text \<open>
  A verification development for lcm-bus, a Rust implementation of the LCM message bus.

  \<^bold>\<open>The program.\<close> A message is a channel name and a payload of bytes. It travels in one of three formats
  (\<open>src/src/wire.rs\<close>): \<open>udpm\<close>, datagrams of a multicast group, where a large message goes as fragments;
  \<open>tcpq\<close>, a byte stream to and from a relay; and \<open>lcmlog\<close>, the events of a log file. \<open>src/src/bus.rs\<close> holds
  what every transport shares: the subscriptions of a client, the receiver of a multicast bus, the pace of a
  replay, and the buffer between a stream and its decoder. \<open>src/src/url.rs\<close> reads the address of a bus. Under
  \<open>src/src/client/\<close> are the client and its threads: \<open>mod.rs\<close> (the operations a user calls), \<open>multicast.rs\<close>,
  \<open>relay.rs\<close> and \<open>logfile.rs\<close> (one transport each), and \<open>serve.rs\<close> (the relay itself).

  A publish is encoded and goes to a socket, to a file, or into the outbox of a connection, from which a
  writer thread takes it. A reader thread fills its buffer from a socket or a file, decodes what is there,
  asks the subscriptions, and calls the handler. A relay has one reader and one writer for each peer; a
  message one peer publishes is put into the outbox of every peer whose subscriptions select it.

  \<^bold>\<open>The theories\<close>, each after those it needs:
  \<^item> \<open>LcmPrelude\<close>: machine integers, \<open>Result\<close> as a sum, slices, big-endian fields, lemmas shared by all, and
    \<open>step_invariant\<close>, the locale of an invariant over the runs of a step relation;
    \<open>RustStr\<close>: strings as their UTF-8 bytes, \<open>as_bytes\<close> and \<open>from_utf8\<close>.
  \<^item> \<open>Wire\<close> (\<open>wire.rs\<close>, the top): frames, errors, the rule for channel names, the byte reader and writer.
  \<^item> \<open>Udpm\<close> (\<open>wire::udpm\<close>): \<open>decode\<close>, \<open>encode\<close>, the iterator of fragments. \<open>OrdMap\<close>: the ordered map of the
    standard library, as a locale and its model. \<open>Reassembler\<close>: \<open>feed\<close> with its budget and eviction.
    \<open>Reassembly\<close>: encoder and reassembler together. \<open>Multicast\<close> (\<open>bus.rs\<close>): the receiver, and \<open>Pace\<close>.
  \<^item> \<open>Streams\<close>: what a decoder of a stream promises, as locales, and the loop over a buffer. \<open>Tcpq\<close>
    (\<open>wire::tcpq\<close>) and \<open>LcmLog\<close> (\<open>wire::log\<close>): the two formats, interpreted in those locales.
  \<^item> \<open>ReadBuf\<close> (\<open>bus.rs\<close>): the read buffer and its interface \<open>byte_queue\<close>. \<open>Subs\<close> (\<open>bus.rs\<close>): subscriptions.
  \<^item> \<open>Readers\<close>: the loop that the readers of a stream share, once for every decoder in the locale
    \<open>bounded_stream\<close>. \<open>ClientReaders\<close>: \<open>tcpq_reader\<close> (\<open>relay.rs\<close>) and \<open>udpm_reader\<close> (\<open>multicast.rs\<close>).
    \<open>LogReader\<close> (\<open>logfile.rs\<close>): the search for the start, the loop over the file, the waits.
  \<^item> \<open>Outbox\<close> (\<open>relay.rs\<close>): the operations of the outbox and the write of a frame, one definition for what a
    thread does while it holds the lock. \<open>OutboxRun\<close>: their interleavings.
  \<^item> \<open>Url\<close> (\<open>url.rs\<close>): parse and Display of every address.
  \<^item> \<open>Served\<close> (\<open>serve.rs\<close>): the peers of a relay, the fan-out, the reader of a peer. \<open>ServedRun\<close>: the
    interleavings of its threads over the life of the connections, with what fails and what panics among them.
  \<^item> \<open>ClientOps\<close> (\<open>mod.rs\<close>): publish on each transport, subscribe, unsubscribe, flush, close.
    \<open>Agreement\<close>: a client and its relay hold the same subscriptions. \<open>Opening\<close> (\<open>relay.rs\<close>): how a client
    dials a relay.
  \<^item> \<open>Deliveries\<close> (\<open>mod.rs\<close>): the channel between a client and a caller that reads from it. \<open>Buses\<close> (\<open>mod.rs\<close>,
    \<open>multicast.rs\<close>, \<open>relay.rs\<close>, \<open>logfile.rs\<close>, \<open>serve.rs\<close>): \<open>connect\<close>, \<open>publisher\<close>, \<open>serve\<close> and \<open>connect_channel\<close>
    through the opening of each bus, with the calls to the operating system in their order.
  \<^item> \<open>ClientLife\<close> (\<open>mod.rs\<close>): any operations of a client in any order, and \<open>ReaderExit\<close> among its threads.
    \<open>Leaving\<close> (\<open>mod.rs\<close>): \<open>close\<close> with its calls, the threads it waits for and what it reads away.
    \<open>Senders\<close>: the addresses of senders, with their order. \<open>MulticastRun\<close>: from the publish of one client to
    the handler of another. \<open>Recording\<close>: from the opening of a log to its replay. \<open>Texts\<close>: \<open>Display\<close> and \<open>source\<close> of the errors.

  \<^bold>\<open>How the code is modelled.\<close> A struct is a record, an enum a datatype, a fallible function gives a sum with
  the error on the left. \<open>None\<close> of an option stands for a panic or for a loop that has not ended, as each
  definition says. Integers of the wire are words. A \<open>usize\<close> is a natural number where no sum of it can reach
  \<open>2 ^ 64\<close>, and the checked operations of the code are written out where one can. Counters (\<open>u64\<close>) are natural
  numbers. A string is the list of its bytes, and \<open>is_str\<close> says that they are UTF-8.
  Threads: what one thread does between two points where it holds no lock is one definition; the theories
  \<open>OutboxRun\<close>, \<open>ServedRun\<close>, \<open>Deliveries\<close> and \<open>ClientLife\<close> interleave them in every order as step relations, and
  their invariants go by induction on the run. Elsewhere, the operation of one thread is a function, and what others do to shared
  state while it waits is an argument of it.

  \<^bold>\<open>Fuel.\<close> The only fuel is the flag \<open>running\<close>, which \<open>close\<close> clears from another thread: a number says how
  often it is read as set. The readers are total in it, and \<open>relay_client_delivers\<close>, \<open>relay_carries\<close> and
  \<open>log_replay_ends\<close> say what number is enough for them to come to an end of their own: three times the size of
  what the socket brings. The loop of eviction is a partial function, and \<open>reassembler_total\<close> shows it ends.

  \<^bold>\<open>What is a parameter.\<close> The regex engine (\<open>compile\<close> and \<open>is_match\<close>; \<open>literal\<close> is what is asked of it, and the
  witness gives an engine that has it); floating point (\<open>Float\<close> with \<open>float_laws\<close>, and the two operations of
  \<open>Pace\<close>); the unstable sort of the reassembler, with its contract; sockets, files and the clock, as scripts of
  what they answer.

  \<^bold>\<open>What the properties show.\<close> Round trips of each format, and that what a decoder accepts is what the encoder
  writes; that a message comes back from its fragments in any order and among other traffic, within a budget;
  that streams are read the same however they are cut; that the buffer is a queue; that readers hand on
  exactly what is wanted, once and in order, and say truly why they stopped; that a log replays, also after
  damage; that the outbox loses nothing uncounted and a flush tells the truth; that a relay carries each
  message to each peer that selects it, keeps sight of its connections, and holds for each client the
  subscriptions that client has; that addresses come back as they were shown; that no operation of an opened
  client panics or changes what it is; that a handler is told of a stop once and truly; that a close comes back,
  waits for each thread once and leaves nothing unread; that a channel of deliveries loses nothing uncounted; that what is published on a multicast bus, or recorded into a log, is what
  the other end hands on.

  \<^bold>\<open>Not modelled.\<close> What the operating system does with the calls it is given, and the resolver, which are
  arguments; the length of a timeout, other than those of the opening and of the read in \<open>close\<close>; how a ring buffer grows; blanket instances that pass a call on
  (\<open>Filter\<close>, \<open>DeliveryHandler\<close> and \<open>From\<close>); the tests.
\<close>

section \<open>Fragments and reassembly\<close>

text \<open>A message for the concrete instances below, which a limit of 15 bytes cuts into six datagrams,
  and a sort that satisfies the contract.\<close>

definition demo_frame :: Frame where
  "demo_frame = \<lparr>channel = ''a'', payload = map of_nat [0..<14]\<rparr>"

lemma demo_fragments:
  obtains f where "fragments 7 demo_frame 15 = Inr f" and "fs_count f = 6" and "fs_sequence f = 7"
proof -
  have "check_channel (channel demo_frame) MAX_CHANNEL_LEN = Inr ()"
    by (simp add: demo_frame_def check_channel_Inr_iff MAX_CHANNEL_LEN_def as_bytes_def byte_of_char_def)
  then show ?thesis
    by (intro that [of "\<lparr>fs_sequence = 7, fs_channel = as_bytes ''a'', fs_payload = map of_nat [0..<14],
        fs_first = 1, fs_limit = 3, fs_count = 6, fs_index = 0\<rparr>"])
      (simp_all add: fragments_def demo_frame_def fragment_max_def HEADER_GAP_def HEADER_LONG_def
        HEADER_SHORT_def MAX_MESSAGE_LEN_def checked_sub_usize_def div_ceil_def Let_def)
qed

lemma demo_str: "is_str (channel demo_frame)"
  by (simp add: demo_frame_def ascii_is_str ascii_str_def)

lemma demo_sort: "sorts_pieces (sort_key pc_start)"
  by (simp add: sorts_pieces_def)

text \<open>
  C1 (any order). The datagrams of one message, given to a receiver in any order and with any number of
  them repeated, are answered with nothing until the last one that was missing, and that one gives back
  exactly the message that was encoded, with its number, if its channel is wanted; nothing of it stays
  behind. This holds in every state the receiver can be in that has not begun the message, whatever else
  it holds.
\<close>

theorem any_order_delivery:
  assumes enc: "udpm_encode sequence frame short_max = Some (Inr ds)"
    and str: "is_str (channel frame)"
    and ok: "reassembler_ok s" and srt: "sorts_pieces srt"
    and fresh: "bt_get (ra_partial s) (src, sequence) = None"
    and order: "set (js @ [k]) = {..<length ds}" "k \<notin> set js"
  shows "\<exists>s'. on_datagrams srt wanted s (map (\<lambda>i. (src, ds ! i)) (js @ [k])) =
      Some (s', replicate (length js) (Inr None) @ [Inr (if wanted (channel frame)
        then Some \<lparr>rc_frame = frame, rc_sequence = sequence, rc_reassembled = 1 < length ds\<rparr> else None)]) \<and>
    reassembler_ok s' \<and> bt_get (ra_partial s') (src, sequence) = None"
proof (cases "1 < length ds")
  case True
  from datagrams_any_order [OF enc True str ok srt fresh order, of wanted] show ?thesis
    by (simp only: then_some_def True)
next
  case False
  from enc obtain f where f: "fragments sequence frame short_max = Inr f"
    and ds: "ds = map (datagram f) [0..<fs_count f]" by (rule udpm_encode_Inr)
  from fragments_Inr(3) [OF f] False ds have one: "fs_count f = 1" by simp
  then have "{..<length ds} = {0}" by (auto simp: ds)
  with order have all: "insert k (set js) = {0}" and k: "k \<notin> set js" by simp_all
  from all have zero: "k = 0" "set js \<subseteq> {0}" by auto
  with k have "set js = {}" by (auto simp: subset_singleton_iff)
  with zero have js: "js = []" "k = 0" by simp_all
  from udpm_decode_datagram [OF f str, of 0] one ds
  have "udpm_decode (ds ! 0) = Inr (Whole sequence frame)" by simp
  with js ok fresh False show ?thesis by (simp add: on_datagram_def then_some_def to_frame_def)
qed

theorem any_order_delivery_witness:
  "\<exists>ds s'. udpm_encode 7 demo_frame 15 = Some (Inr ds) \<and>
    on_datagrams (sort_key pc_start) (\<lambda>ch. ch = ''a'') reassembler_new
      (map (\<lambda>i. (0 :: nat, ds ! i)) ([5, 3, 5, 1, 0, 2] @ [4])) =
    Some (s', replicate 6 (Inr None) @
      [Inr (Some \<lparr>rc_frame = demo_frame, rc_sequence = 7, rc_reassembled = True\<rparr>)])"
proof -
  obtain f where f: "fragments 7 demo_frame 15 = Inr f" "fs_count f = 6" by (rule demo_fragments)
  define ds where "ds = map (datagram f) [0..<6]"
  have enc: "udpm_encode 7 demo_frame 15 = Some (Inr ds)" by (simp add: udpm_encode_eq f ds_def)
  have len: "length ds = 6" and six: "length [5, 3, 5, 1, 0, 2 :: nat] = 6" by (simp_all add: ds_def)
  have order: "set ([5, 3, 5, 1, 0, 2] @ [4]) = {..<length ds}" unfolding len by auto
  have last: "4 \<notin> set [5, 3, 5, 1, 0, 2 :: nat]" by simp
  have new: "bt_get (ra_partial (reassembler_new :: nat Reassembler)) (0, 7) = None"
    by (simp add: reassembler_new_def bt.get_empty)
  have want: "channel demo_frame = ''a''" and many: "1 < length ds" by (simp_all add: demo_frame_def len)
  from any_order_delivery [OF enc demo_str reassembler_new_ok demo_sort new order last, of "\<lambda>ch. ch = ''a''"]
  have "\<exists>s'. on_datagrams (sort_key pc_start) (\<lambda>ch. ch = ''a'') reassembler_new
      (map (\<lambda>i. (0 :: nat, ds ! i)) ([5, 3, 5, 1, 0, 2] @ [4])) = Some (s', replicate 6 (Inr None) @
      [Inr (Some \<lparr>rc_frame = demo_frame, rc_sequence = 7, rc_reassembled = True\<rparr>)])"
    unfolding six want using many by auto
  with enc show ?thesis by blast
qed

text \<open>
  C2 (interleaving). The traffic of other senders, and of other messages of the same sender, may come
  between the fragments of a message in any way: while the reassembler evicts nothing, the answers to
  the fragments of the message are the same as without that traffic.
\<close>

theorem interleaved_delivery:
  assumes enc: "udpm_encode sequence frame short_max = Some (Inr ds)" and many: "1 < length ds"
    and str: "is_str (channel frame)"
    and ok: "reassembler_ok s" and srt: "sorts_pieces srt"
    and fresh: "bt_get (ra_partial s) (src, sequence) = None"
    and order: "set (js @ [k]) = {..<length ds}" "k \<notin> set js"
    and dec: "map (\<lambda>i. udpm_decode (ds ! i)) (js @ [k]) =
      map (\<lambda>x. Inr (DFragment (snd x))) (filter (is_of (src, sequence)) xs)"
    and run: "feed_run srt s xs = Some (s', rs)" and room: "ra_evicted s' = ra_evicted s"
  shows "answers_of (src, sequence) xs rs = replicate (length js) (Inr None) @ [Inr (Some frame)]"
proof -
  from enc many str obtain f where f: "several f" "fs_sequence f = sequence" "fs_count f = length ds"
    "of_bytes (fs_channel f) = channel frame" "fs_payload f = payload frame"
    "\<forall>i < length ds. udpm_decode (ds ! i) = Inr (DFragment (nth_fragment f i))"
    by (rule encoded_fragments)
  have "filter (is_of (src, sequence)) xs = map (\<lambda>i. (src, nth_fragment f i)) (js @ [k])"
    by (rule decoded_run [OF dec]) (use f(6) order(1) in \<open>auto simp: is_of_def\<close>)
  then have "answers_of (src, fs_sequence f) xs rs = replicate (length js) (Inr None) @
      [Inr (Some \<lparr>channel = of_bytes (fs_channel f), payload = fs_payload f\<rparr>)]
      \<and> bt_get (ra_partial s') (src, fs_sequence f) = None"
    by (intro feed_run_collects [OF srt f(1) ok, where S = "{}" and js = js and k = k])
      (use order fresh run f(2,3) room in \<open>auto simp: collected_def\<close>)
  then show ?thesis using f(2,4,5) by simp
qed

theorem interleaved_delivery_witness:
  "\<exists>ds (xs :: (nat \<times> Fragment) list) s' rs. udpm_encode 7 demo_frame 15 = Some (Inr ds) \<and> xs \<noteq> [] \<and>
    feed_run (sort_key pc_start) reassembler_new xs = Some (s', rs) \<and>
    answers_of (0, 7) xs rs = replicate 5 (Inr None) @ [Inr (Some demo_frame)]"
proof -
  obtain f where f: "fragments 7 demo_frame 15 = Inr f" "fs_count f = 6" "fs_sequence f = 7"
    by (rule demo_fragments)
  define ds where "ds = map (datagram f) [0..<6]"
  have enc: "udpm_encode 7 demo_frame 15 = Some (Inr ds)" by (simp add: udpm_encode_eq f ds_def)
  have at: "udpm_decode (ds ! i) = Inr (DFragment (nth_fragment f i))" if "i < 6" for i
    using that by (simp add: ds_def udpm_decode_datagram [OF f(1) demo_str] f(2) del: upt_rec_numeral)
  define other where "other = (1 :: nat, nth_fragment f 0)"
  define own where "own = map (\<lambda>i. (0 :: nat, nth_fragment f i)) [5, 4, 3, 2, 1, 0]"
  have own: "filter (is_of (0, 7)) (other # own) = own"
    by (simp add: other_def own_def is_of_def f)
  have dec: "map (\<lambda>i. udpm_decode (ds ! i)) ([5, 4, 3, 2, 1] @ [0])
      = map (\<lambda>x. Inr (DFragment (snd x))) (filter (is_of (0, 7)) (other # own))"
    unfolding own by (simp add: at own_def)
  obtain s' rs where run: "feed_run (sort_key pc_start) reassembler_new (other # own) = Some (s', rs)"
    using feed_run_ok [OF reassembler_new_ok demo_sort] by blast
  have short: "length (frag_body f i) \<le> 14" for i
    using fragments_Inr(6) [OF f(1)] by (simp add: frag_body_def demo_frame_def)
  have "ra_evicted s' = ra_evicted (reassembler_new :: nat Reassembler)"
  proof (rule feed_run_within [OF reassembler_new_ok demo_sort run])
    show "ra_held (reassembler_new :: nat Reassembler) +
        (\<Sum>x\<leftarrow>other # own. length (fr_payload (snd x)) + PIECE_COST) \<le> MAX_FRAGMENT_BYTES"
      using short [of 0] short [of "Suc 0"] short [of 2] short [of 3] short [of 4] short [of 5]
      by (simp add: reassembler_new_def MAX_FRAGMENT_BYTES_def other_def own_def PIECE_COST_def)
  qed (simp add: reassembler_new_def bt_len_def MAX_FRAGMENT_BUFFERS_def own_def)
  note room = this
  have len: "length ds = 6" by (simp add: ds_def)
  have order: "set ([5, 4, 3, 2, 1] @ [0]) = {..<length ds}" unfolding len by auto
  have new: "bt_get (ra_partial (reassembler_new :: nat Reassembler)) (0, 7) = None"
    by (simp add: reassembler_new_def bt.get_empty)
  have many: "1 < length ds" and last: "0 \<notin> set [5, 4, 3, 2, 1 :: nat]"
    by (simp_all add: len)
  have five: "length [5, 4, 3, 2, 1 :: nat] = 5" by simp
  from interleaved_delivery [OF enc many demo_str reassembler_new_ok demo_sort new order last dec run room]
  have "answers_of (0, 7) (other # own) rs = replicate 5 (Inr None) @ [Inr (Some demo_frame)]"
    unfolding five .
  with enc run show ?thesis by blast
qed

text \<open>
  C3 (no panic). Whatever fragments come from whatever senders, \<open>feed\<close> gives an answer to each: the
  eviction loop ends, the \<open>debug_assert\<close> and the \<open>expect\<close> hold, and no slice is out of range. The
  invariant of the two maps holds at the end.
\<close>

theorem reassembler_total:
  assumes srt: "sorts_pieces srt"
  shows "\<exists>s' rs. feed_run srt reassembler_new xs = Some (s', rs) \<and> reassembler_ok s' \<and>
    length rs = length xs"
  using feed_run_ok [OF reassembler_new_ok srt] by blast

theorem reassembler_total_witness:
  "\<exists>s' rs. feed_run (sort_key pc_start) reassembler_new
      [(0 :: nat, \<lparr>fr_sequence = 1, fr_total = 2, fr_offset = 1, fr_index = 1, fr_count = 2,
          fr_channel = None, fr_payload = [9]\<rparr>)] = Some (s', rs) \<and> reassembler_ok s' \<and> length rs = 1"
  using reassembler_total [OF demo_sort, of "[(0 :: nat, \<lparr>fr_sequence = 1, fr_total = 2, fr_offset = 1,
    fr_index = 1, fr_count = 2, fr_channel = None, fr_payload = [9]\<rparr>)]"] by simp



text \<open>
  C5 (least recently used). What a call drops to make room is a matter of age alone: there is an age
  such that of the messages other than the fed one exactly those not touched since are gone, and the
  rest are unchanged. While the fragment fits the budget, nothing is dropped.
\<close>

theorem eviction_by_age:
  assumes ok: "reassembler_ok s" and srt: "sorts_pieces srt"
    and fed: "feed srt s src fr = Some (s', r)"
  shows "\<exists>t. (\<forall>k. k = (src, fr_sequence fr) \<or> bt_get (ra_partial s') k =
      Option.bind (bt_get (ra_partial s) k) (\<lambda>p. if t \<le> pt_touched p then Some p else None)) \<and>
    (over_budget s (length (fr_payload fr)) \<or> t = 0)"
  using feed_keeps_since [OF ok srt fed] by (simp only: keeps_since_def)

theorem eviction_by_age_witness:
  "\<exists>s' r t. feed (sort_key pc_start) (reassembler_new :: nat Reassembler) 0 \<lparr>fr_sequence = 1, fr_total = 2,
      fr_offset = 1, fr_index = 1, fr_count = 2, fr_channel = None, fr_payload = [9]\<rparr> = Some (s', r) \<and>
    (over_budget (reassembler_new :: nat Reassembler) 1 \<or> t = (0 :: nat))"
proof -
  let ?fr = "\<lparr>fr_sequence = 1, fr_total = 2, fr_offset = 1, fr_index = 1, fr_count = 2,
    fr_channel = None, fr_payload = [9]\<rparr>"
  obtain s' r where "feed (sort_key pc_start) (reassembler_new :: nat Reassembler) 0 ?fr = Some (s', r)"
    using feed_keeps_ok [OF reassembler_new_ok demo_sort] by blast
  with eviction_by_age [OF reassembler_new_ok demo_sort this] show ?thesis by auto
qed

section \<open>Encoding and decoding datagrams\<close>

text \<open>
  C6 (encoder). The encoder of a message never panics. It writes between 1 and 65535 datagrams, none
  longer than the limit it was given and a short header.
\<close>

theorem encode_bounds:
  "udpm_encode sequence frame short_max \<noteq> None \<and>
    (udpm_encode sequence frame short_max = Some (Inr ds) \<longrightarrow>
      0 < length ds \<and> length ds \<le> 65535 \<and> list_all (\<lambda>d. length d \<le> HEADER_SHORT + short_max) ds)"
proof (intro conjI impI)
  show "udpm_encode sequence frame short_max \<noteq> None" by (simp add: udpm_encode_eq)
next
  assume "udpm_encode sequence frame short_max = Some (Inr ds)"
  then obtain f where f: "fragments sequence frame short_max = Inr f"
    and ds: "ds = map (datagram f) [0..<fs_count f]" by (rule udpm_encode_Inr)
  from fragments_Inr(1,3) [OF f] length_datagram [OF f] ds
  show "0 < length ds" and "length ds \<le> 65535"
    and "list_all (\<lambda>d. length d \<le> HEADER_SHORT + short_max) ds"
    by (auto simp: fragments_wf_def list_all_iff)
qed

theorem encode_bounds_witness:
  "\<exists>ds. udpm_encode 7 demo_frame 15 = Some (Inr ds) \<and> length ds = 6 \<and> list_all (\<lambda>d. length d \<le> 23) ds"
proof -
  obtain f where "fragments 7 demo_frame 15 = Inr f" "fs_count f = 6" by (rule demo_fragments)
  then obtain ds where "udpm_encode 7 demo_frame 15 = Some (Inr ds)" "length ds = 6"
    by (simp add: udpm_encode_eq)
  with encode_bounds [of 7 demo_frame 15 ds] show ?thesis by (simp add: HEADER_SHORT_def)
qed

text \<open>
  What the encoder takes. A message is encoded exactly when its channel name is one of 1 to 63
  bytes with no NUL, its payload is at most \<open>MAX_MESSAGE_LEN\<close> bytes, and it either fits one datagram
  or the datagrams hold the name and one byte of payload and number at most 65535.
\<close>

lemma encode_accepts:
  "(\<exists>ds. udpm_encode sequence frame short_max = Some (Inr ds)) \<longleftrightarrow>
    (let head = length (channel frame) + 1; n = head + length (payload frame) in
     channel frame \<noteq> [] \<and> 0 \<notin> set (as_bytes (channel frame)) \<and> length (channel frame) \<le> 63 \<and>
     length (payload frame) \<le> 2 ^ 28 \<and>
     (n \<le> short_max \<or> head + 13 \<le> short_max \<and> n \<le> 65535 * (short_max - 12)))"
proof -
  let ?h = "length (channel frame) + 1" and ?l = "fragment_max short_max"
  have big: "(2 :: nat) ^ 28 = MAX_MESSAGE_LEN" by (simp add: MAX_MESSAGE_LEN_def)
  have l: "0 < ?l" and h: "?h < ?l \<longleftrightarrow> ?h + 13 \<le> short_max"
    by (auto simp: fragment_max_def HEADER_GAP_def HEADER_LONG_def HEADER_SHORT_def)
  have gap: "?h + 13 \<le> short_max \<Longrightarrow> ?l = short_max - 12"
    by (simp add: fragment_max_def HEADER_GAP_def HEADER_LONG_def HEADER_SHORT_def)
  have count: "div_ceil n ?l > 65535 \<longleftrightarrow> \<not> n \<le> 65535 * ?l" for n
    using div_ceil_less_iff [OF l, of 65535 n] by auto
  have first: "(case Option.bind (checked_sub_usize ?l ?h) (\<lambda>first. if first > 0 then Some first else None) of
      None \<Rightarrow> Inl (DatagramTooSmall short_max (?h + 1 + HEADER_GAP)) | Some first \<Rightarrow> g first)
      = (if ?h < ?l then g (?l - ?h) else Inl (DatagramTooSmall short_max (?h + 1 + HEADER_GAP)))" for g
    by (simp add: checked_sub_usize_def)
  have "(\<exists>ds. udpm_encode sequence frame short_max = Some (Inr ds)) \<longleftrightarrow>
      (\<exists>f. fragments sequence frame short_max = Inr f)"
    by (auto simp: udpm_encode_eq split: sum.splits)
  also have "\<dots> \<longleftrightarrow> check_channel (channel frame) MAX_CHANNEL_LEN = Inr () \<and>
      length (payload frame) \<le> MAX_MESSAGE_LEN \<and>
      (?h + length (payload frame) \<le> short_max \<or>
       ?h < ?l \<and> ?h + length (payload frame) \<le> 65535 * ?l)"
    unfolding fragments_def Let_def length_as_bytes first
    by (auto simp: and_then_eq_Inr count)
  finally show ?thesis
    using h gap unfolding Let_def big by (auto simp: check_channel_Inr_iff MAX_CHANNEL_LEN_def)
qed

text \<open>
  C7 (round trip). Each datagram of a message reads back. One datagram alone is the message; of
  several, the fragments number from zero, agree on the sequence number, the count and the length, and
  carry the payload one piece behind the other, the first with the channel name.
\<close>

theorem encode_decode:
  assumes enc: "udpm_encode sequence frame short_max = Some (Inr ds)" and str: "is_str (channel frame)"
  shows "if length ds = 1 then map udpm_decode ds = [Inr (Whole sequence frame)]
    else \<exists>frs. map udpm_decode ds = map (\<lambda>fr. Inr (DFragment fr)) frs \<and>
      concat (map fr_payload frs) = payload frame \<and>
      map (\<lambda>fr. unat (fr_index fr)) frs = [0..<length ds] \<and>
      map fr_channel frs = Some (channel frame) # replicate (length ds - 1) None \<and>
      list_all (\<lambda>fr. fr_sequence fr = sequence \<and> unat (fr_count fr) = length ds \<and>
        unat (fr_total fr) = length (payload frame)) frs"
proof -
  from enc obtain f where f: "fragments sequence frame short_max = Inr f"
    and ds: "ds = map (datagram f) [0..<fs_count f]" by (rule udpm_encode_Inr)
  note F = fragments_Inr [OF f]
  have dec: "map udpm_decode ds = map (\<lambda>i. Inr (if fs_count f = 1 then Whole sequence frame
      else DFragment (nth_fragment f i))) [0..<fs_count f]"
    using udpm_decode_datagram [OF f str] by (simp add: ds)
  show ?thesis
  proof (cases "fs_count f = 1")
    case True
    with dec ds show ?thesis by simp
  next
    case False
    let ?frs = "map (nth_fragment f) [0..<fs_count f]"
    from F(1) have c: "fs_count f \<le> 65535" and n: "length (fs_payload f) \<le> MAX_MESSAGE_LEN"
      by (simp_all add: fragments_wf_def)
    have len: "length ds = fs_count f" by (simp add: ds)
    with False have ne: "\<not> length ds = 1" by simp
    have "map (\<lambda>i. fr_channel (nth_fragment f i)) [Suc 0..<fs_count f] = replicate (fs_count f - 1) None"
      by (rule replicate_eqI) auto
    then have names: "map fr_channel ?frs = Some (channel frame) # replicate (length ds - 1) None"
      using F(3,5) by (simp add: upt_conv_Cons o_def len)
    have tiles: "concat (map fr_payload ?frs) = payload frame"
      using concat_frag_bodies [OF F(1,3)] F(6) by (simp add: o_def)
    have idx: "map (\<lambda>fr. unat (fr_index fr)) ?frs = [0..<length ds]"
      using c by (auto simp: len o_def intro: map_idI)
    have fields: "list_all (\<lambda>fr. fr_sequence fr = sequence \<and> unat (fr_count fr) = length ds \<and>
        unat (fr_total fr) = length (payload frame)) ?frs"
      using c n F(4,6) by (simp add: list_all_iff len)
    have reads: "map udpm_decode ds = map (\<lambda>fr. Inr (DFragment fr)) ?frs"
      using dec False by (simp add: o_def)
    show ?thesis
      unfolding if_not_P [OF ne]
      by (rule exI [of _ ?frs], intro conjI) (rule reads tiles idx names fields)+
  qed
qed

theorem encode_decode_witness:
  "\<exists>ds frs. udpm_encode 7 demo_frame 15 = Some (Inr ds) \<and> length ds = 6 \<and>
    map udpm_decode ds = map (\<lambda>fr. Inr (DFragment fr)) frs \<and> concat (map fr_payload frs) = payload demo_frame"
proof -
  obtain f where "fragments 7 demo_frame 15 = Inr f" "fs_count f = 6" by (rule demo_fragments)
  then obtain ds where "udpm_encode 7 demo_frame 15 = Some (Inr ds)" "length ds = 6"
    by (simp add: udpm_encode_eq)
  with encode_decode [OF this(1) demo_str] show ?thesis by auto
qed

text \<open>
  Too small. Where a message does not fit one datagram, the encoder refuses the limit exactly when
  it is below the minimum that the error names, so the minimum is one that works.
\<close>

lemma too_small_minimum:
  assumes "check_channel (channel frame) MAX_CHANNEL_LEN = Inr ()"
    and "length (payload frame) \<le> MAX_MESSAGE_LEN"
    and "short_max < length (channel frame) + 1 + length (payload frame)"
  shows "udpm_encode sequence frame short_max
      = Some (Inl (DatagramTooSmall short_max (length (channel frame) + 2 + HEADER_GAP)))
    \<longleftrightarrow> short_max < length (channel frame) + 2 + HEADER_GAP"
  using fragments_too_small [OF assms, of sequence]
  by (cases "fragments sequence frame short_max") (simp_all add: udpm_encode_eq)

text \<open>
  C8 (what is read). A datagram that reads is exactly the bytes of what it read as, so no two datagrams
  read as one; each name in it is text of 1 to 63 bytes without a NUL, only fragment zero has one, and
  the length a fragment claims is within the limit.
\<close>

theorem decode_sound:
  assumes "udpm_decode d = Inr x"
  shows "datagram_bytes x = d \<and> datagram_ok x"
  using udpm_decode_sound [OF assms] by simp_all

theorem decode_sound_witness:
  "udpm_decode (datagram_bytes (Whole 1 demo_frame)) = Inr (Whole 1 demo_frame) \<and>
    datagram_ok (Whole 1 demo_frame)"
proof -
  have "check_channel (channel demo_frame) MAX_CHANNEL_LEN = Inr ()"
    by (simp add: demo_frame_def check_channel_Inr_iff MAX_CHANNEL_LEN_def as_bytes_def byte_of_char_def)
  from udpm_decode_whole [OF demo_str this, of 1 "payload demo_frame"]
  have "udpm_decode (datagram_bytes (Whole 1 demo_frame)) = Inr (Whole 1 demo_frame)" by simp
  with decode_sound [OF this] show ?thesis by blast
qed

section \<open>The streams of a relay\<close>

text \<open>
  C9 (a stream of messages). Any sequence of messages, each as \<open>publish\<close> writes it, is read back by a
  client in order and without an error, however the bytes are cut into reads.
\<close>

theorem publish_stream:
  assumes "list_all2 (\<lambda>f bs. publish f = Inr bs \<and> is_str (channel f)) fs bss"
    and "concat cs = concat bss"
  shows "drain_chunks tcpq_decode [] cs = Some (map Some fs, [], None)"
proof -
  have "list_all2 tcpq.writes fs bss"
    by (rule list_all2_mono [OF assms(1)]) (simp add: tcpq.writes_def tcpq_decode_publish)
  moreover have "tcpq_decode [] = Inr (Need 8)" by (simp add: tcpq_decode_eq)
  ultimately show ?thesis using assms(2) by (rule tcpq.chunks_items)
qed

theorem publish_stream_witness:
  "drain_chunks tcpq_decode [] (map (\<lambda>b. [b]) (publish_bytes demo_frame @ publish_bytes demo_frame))
    = Some ([Some demo_frame, Some demo_frame], [], None)"
proof (rule publish_stream [of "[demo_frame, demo_frame]", simplified list.map])
  have "publish demo_frame = Inr (publish_bytes demo_frame)"
    by (simp add: publish_Inr demo_frame_def check_channel_Inr_iff MAX_CHANNEL_LEN_def
        MAX_MESSAGE_LEN_def as_bytes_def byte_of_char_def)
  then show "list_all2 (\<lambda>f bs. publish f = Inr bs \<and> is_str (channel f)) [demo_frame, demo_frame]
      [publish_bytes demo_frame, publish_bytes demo_frame]"
    by (simp add: demo_str)
qed (simp add: concat_map_singleton)

text \<open>
  Any sequence of requests of a client, with patterns of at most 1024 bytes,
  is read back by a relay in order and without an error, however the bytes are cut into reads.
\<close>

lemma request_stream:
  assumes "list_all2 (\<lambda>q bs. request_bytes q = Inr bs \<and> is_str (request_text q) \<and>
      length (request_text q) \<le> CHANNEL_READ_MAX) qs bss"
    and "concat cs = concat bss"
  shows "drain_chunks decode_request [] cs = Some (map Some qs, [], None)"
proof -
  have "requests.writes q bs"
    if "request_bytes q = Inr bs" "is_str (request_text q)" "length (request_text q) \<le> CHANNEL_READ_MAX" for q bs
    using that decode_request_pattern [of _ "request_text q"] unfolding requests.writes_def
    by (cases q) (auto simp: decode_request_publish subscribe_def unsubscribe_def message_types)
  then have "list_all2 requests.writes qs bss" by (intro list_all2_mono [OF assms(1)]) blast
  moreover have "decode_request [] = Inr (Need 8)" by (simp add: decode_request_eq)
  ultimately show ?thesis using assms(2) by (rule requests.chunks_items)
qed

text \<open>
  C10 (any bytes, cut in any way). Whatever the bytes of a stream are, what the two decoders make of it
  does not depend on how it is cut: the items, the bytes that are left and the error that ends it are
  those of the whole. The loop always ends.
\<close>

theorem stream_cut:
  "drain_chunks tcpq_decode [] cs = drain tcpq_decode (concat cs) \<and>
    drain_chunks decode_request [] cs = drain decode_request (concat cs) \<and>
    drain tcpq_decode d \<noteq> None \<and> drain decode_request d \<noteq> None"
  using tcpq.drain_chunks_concat [of "[]" cs] requests.drain_chunks_concat [of "[]" cs]
    tcpq.drain_ends [of d] requests.drain_ends [of d] by auto

text \<open>
  Lengths. Where a stream decoder asks for more bytes it asks for more than there are, and asks
  for the same while the stream is shorter than that; an item or a frame to step over is within the
  data and not empty. The first two are about \<open>Need\<close>, the last about \<open>Item\<close> and \<open>Skip\<close>.
\<close>

lemma request_lengths:
  "(decode_request d = Inr (Need n) \<longrightarrow>
      length d < n \<and> (length (d @ e) < n \<longrightarrow> decode_request (d @ e) = Inr (Need n))) \<and>
    (decode_request d = Inr (Item q n) \<or> decode_request d = Inr (Skip n) \<longrightarrow> 0 < n \<and> n \<le> length d)"
  using requests.need_more [of d n] requests.need_stable [of d n e] requests.item_within [of d q n]
    requests.skip_within [of d n] by auto

text \<open>
  C11 (what is read off a stream). The bytes of an item are the ones its encoder writes, and its name or
  pattern is text: a relay and a client never take a request that the other side could not have made.
\<close>

theorem stream_sound:
  "(tcpq_decode d = Inr (Item f k) \<longrightarrow>
      is_str (channel f) \<and> publish f = Inr (take k d) \<and> k \<le> length d) \<and>
    (decode_request d = Inr (Item q k) \<longrightarrow>
      is_str (request_text q) \<and> request_bytes q = Inr (take k d) \<and> k \<le> length d)"
  using tcpq_decode_sound [of d f k] decode_request_sound [of d q k] by blast

theorem stream_sound_witness:
  "decode_request (subscribe ''/a'' @ [0, 0]) = Inr (Item (Subscribe ''/a'') 10) \<and>
    request_bytes (Subscribe ''/a'') = Inr (take 10 (subscribe ''/a'' @ [0, 0]))"
proof -
  have "decode_request (subscribe ''/a'' @ [0, 0]) = Inr (Item (Subscribe ''/a'') 10)"
    using decode_request_pattern [of MESSAGE_TYPE_SUBSCRIBE "''/a''" "[0, 0]"]
    by (simp add: subscribe_def ascii_is_str ascii_str_def CHANNEL_READ_MAX_def length_request)
  with stream_sound show ?thesis by blast
qed

text \<open>
  C12 (a pattern that is too long). The encoder of a subscription has no limit on the pattern, and the
  decoder of the relay has one: a pattern above 1024 bytes is not refused where it is written and ends
  the stream where it is read.
\<close>

theorem long_pattern_ends_stream:
  assumes "CHANNEL_READ_MAX < length p" and "length p < 2 ^ 32"
  shows "decode_request (subscribe p @ e) = Inl (ChannelTooLong (length p))"
  using decode_request_too_long [OF _ assms] by (simp add: subscribe_def)

theorem long_pattern_ends_stream_witness:
  "decode_request (subscribe (replicate 1025 CHR ''a'')) = Inl (ChannelTooLong 1025)"
  using long_pattern_ends_stream [of "replicate 1025 CHR ''a''" "[]"] by (simp add: CHANNEL_READ_MAX_def)

text \<open>
  Greetings. Each side takes the greeting of the other and the version in it, and refuses its own;
  a greeting is taken exactly when it has the eight bytes and the magic number of the other side,
  whatever the version and whatever stands behind.
\<close>

lemma greetings:
  "check_client_handshake handshake = Inr PROTOCOL_VERSION \<and>
    check_handshake server_handshake = Inr PROTOCOL_VERSION \<and>
    check_client_handshake server_handshake = Inl (BadMagic MAGIC_SERVER) \<and>
    check_handshake handshake = Inl (BadMagic MAGIC_CLIENT) \<and>
    ((\<exists>v. check_handshake d = Inr v) \<longleftrightarrow> 8 \<le> length d \<and> take 4 d = to_be_bytes MAGIC_SERVER) \<and>
    ((\<exists>v. check_client_handshake d = Inr v) \<longleftrightarrow> 8 \<le> length d \<and> take 4 d = to_be_bytes MAGIC_CLIENT)"
proof (intro conjI)
  have magics: "MAGIC_SERVER \<noteq> MAGIC_CLIENT" by (simp add: MAGIC_SERVER_def MAGIC_CLIENT_def)
  then show "check_client_handshake handshake = Inr PROTOCOL_VERSION"
    and "check_handshake server_handshake = Inr PROTOCOL_VERSION"
    and "check_client_handshake server_handshake = Inl (BadMagic MAGIC_SERVER)"
    and "check_handshake handshake = Inl (BadMagic MAGIC_CLIENT)"
    by (simp_all add: check_handshake_eq check_client_handshake_eq handshake_fields)
  have magic: "take 4 d = to_be_bytes w \<longleftrightarrow> field32 d 0 = w" if "8 \<le> length d" for w
    using field32_bytes [of 0 d] that by (auto simp: to_be_bytes_inject)
  then show "(\<exists>v. check_handshake d = Inr v) \<longleftrightarrow> 8 \<le> length d \<and> take 4 d = to_be_bytes MAGIC_SERVER"
    and "(\<exists>v. check_client_handshake d = Inr v) \<longleftrightarrow> 8 \<le> length d \<and> take 4 d = to_be_bytes MAGIC_CLIENT"
    by (auto simp: check_handshake_eq check_client_handshake_eq)
qed

section \<open>Logs\<close>

text \<open>
  A log. The events of a log, each as \<open>log_encode\<close> writes it, read back in order with their
  numbers, their times and their messages, and nothing is left.
\<close>

lemma log_round_trip:
  assumes "list_all2 (\<lambda>ev bs. log_encode ev = Inr bs \<and> is_str (channel (ev_frame ev))) evs bss"
  shows "drain log_decode (concat bss) = Some (map Some evs, [], None)"
  using assms by (rule drain_log)

text \<open>
  One event. An event reads back when nothing, less than a sync word, or the sync word of the next
  event stands behind it; other bytes behind it make it a torn event. What reads back was written by
  the encoder.
\<close>

lemma log_event_read:
  "(log_encode ev = Inr bs \<and> is_str (channel (ev_frame ev)) \<longrightarrow> log_decode (bs @ e) =
      (if length e < 4 \<or> take 4 e = to_be_bytes LOG_MAGIC then Inr (Item ev (length bs))
       else Inl (BadMagic (from_be_bytes (take 4 e))))) \<and>
    (log_decode d = Inr (Item ev k) \<longrightarrow>
      is_str (channel (ev_frame ev)) \<and> log_encode ev = Inr (take k d) \<and> k \<le> length d)"
  using log_decode_encode [of ev bs e] log_decode_sound [of d ev k] unfolding behind_ok_def by blast

text \<open>
  Peek. With the head of an event there, \<open>peek\<close> finds the end of every event that the decoder
  reads, steps over or waits for, and refuses only what the decoder refuses with the same error.
\<close>

lemma peek_finds_the_end:
  assumes "28 \<le> length d"
  shows "(log_decode d = Inr (Item ev k) \<longrightarrow>
      peek d = Inr (Some \<lparr>pk_timestamp = ev_timestamp ev, pk_len = k\<rparr>)) \<and>
    (log_decode d = Inr (Skip k) \<or> log_decode d = Inr (Need k) \<longrightarrow>
      (\<exists>t. peek d = Inr (Some \<lparr>pk_timestamp = t, pk_len = k\<rparr>))) \<and>
    (peek d = Inl err \<longrightarrow> log_decode d = Inl err)"
  using peek_agrees [OF assms] by blast

text \<open>
  Resync. \<open>resync\<close> finds the first sync word of the data, and none only where there is none.
\<close>

lemma resync_finds_first:
  "(resync d = Some i \<longleftrightarrow> i + 4 \<le> length d \<and> take 4 (drop i d) = to_be_bytes LOG_MAGIC \<and>
      list_all (\<lambda>j. take 4 (drop j d) \<noteq> to_be_bytes LOG_MAGIC) [0..<i]) \<and>
    (resync d = None \<longleftrightarrow> list_all (\<lambda>j. take 4 (drop j d) \<noteq> to_be_bytes LOG_MAGIC) [0..<length d])"
proof (rule conjI)
  have at: "take 4 (drop j d) = to_be_bytes LOG_MAGIC \<longleftrightarrow> j + 4 \<le> length d \<and> field32 d j = LOG_MAGIC" for j
  proof (cases "j + 4 \<le> length d")
    case True
    with field32_bytes [OF True] show ?thesis by (auto simp: to_be_bytes_inject)
  next
    case False
    then have "length (take 4 (drop j d)) < 4" by simp
    with False show ?thesis by (metis length_to_be_bytes_4 less_irrefl)
  qed
  show "resync d = Some i \<longleftrightarrow> i + 4 \<le> length d \<and> take 4 (drop i d) = to_be_bytes LOG_MAGIC \<and>
      list_all (\<lambda>j. take 4 (drop j d) \<noteq> to_be_bytes LOG_MAGIC) [0..<i]"
    unfolding resync_Some_iff at by (auto simp: list_all_iff)
  show "resync d = None \<longleftrightarrow> list_all (\<lambda>j. take 4 (drop j d) \<noteq> to_be_bytes LOG_MAGIC) [0..<length d]"
    unfolding resync_None_iff at by (auto simp: list_all_iff)
qed

section \<open>The read buffer\<close>



text \<open>
  Room is bought by bytes: \<open>reserve\<close> says yes exactly up to the ceiling and changes no unread byte.
  Whatever length a peer claims, the buffer after it is no longer than it was or than twice the bytes
  that came. Where it said yes to more than is there, the next read has room.
\<close>

lemma read_buffer_room:
  assumes ok: "read_buffer_ok b" and res: "reserve b n = (yes, b')"
  shows "(yes \<longleftrightarrow> n \<le> rb_ceiling b) \<and> unread b' = unread b \<and>
    length (rb_buffer b') \<le> max (length (rb_buffer b)) (2 * length (unread b)) \<and>
    (yes \<and> length (unread b) < n \<longrightarrow> 0 < fst (spare b'))"
proof (intro conjI impI)
  note R = reserve_ok [OF ok res]
  show "yes \<longleftrightarrow> n \<le> rb_ceiling b" and "unread b' = unread b" using R(4,2) by simp_all
  show "length (rb_buffer b') \<le> max (length (rb_buffer b)) (2 * length (unread b))"
    by (rule reserve_growth [OF ok res])
  assume "yes \<and> length (unread b) < n"
  with R make_room_spare [OF R(1)] show "0 < fst (spare b')" by (auto simp: spare_def Let_def)
qed

section \<open>The readers of a client\<close>

text \<open>
  C14 (a relay client). A socket that brings the bytes of any messages, cut into any reads with any
  timeouts between them, and then ends: the client hands on exactly the messages whose channel is
  wanted, in order, says that the stream closed (or what the writer left for it to say), and has counted
  each message once, as delivered or as discarded. The loop ends, where \<open>running\<close> stays set for so many
  turns.
\<close>

theorem relay_client_delivers:
  assumes pub: "list_all2 (\<lambda>f bs. publish f = Inr bs \<and> is_str (channel f)) fs bss"
    and script: "script_ok script" and came: "script_bytes script = concat bss"
    and errs: "\<forall>e. SError e \<in> set script \<longrightarrow> is_timeout e" and n: "3 * script_size script < n"
  shows "\<exists>c. \<exists>out :: 'k Delivery list. tcpq_reader torn (\<lambda>_. w) now n script (counters_new, []) =
      (Some (case torn of None \<Rightarrow> Closed | Some e \<Rightarrow> StopIo e), (c, out)) \<and>
    map de_frame out = filter (\<lambda>f. w (channel f)) fs \<and> ct_received c = length fs \<and>
    ct_delivered c = length out \<and> ct_delivered c + ct_discarded c = length fs"
  by (rule tcpq_reader_delivers [OF assms])

theorem relay_client_delivers_witness:
  "\<exists>c. \<exists>out :: nat Delivery list. tcpq_reader None (\<lambda>_ ch. ch = ''a'') (\<lambda>_. 5) 1000
      [SBytes (publish_bytes demo_frame), SError TimedOut, SBytes (publish_bytes demo_frame)] (counters_new, []) =
      (Some Closed, (c, out)) \<and> map de_frame out = [demo_frame, demo_frame] \<and> ct_received c = 2 \<and>
    ct_delivered c = length out \<and> ct_delivered c + ct_discarded c = 2"
proof -
  have pub: "publish demo_frame = Inr (publish_bytes demo_frame)"
    by (simp add: publish_Inr demo_frame_def check_channel_Inr_iff MAX_CHANNEL_LEN_def
        MAX_MESSAGE_LEN_def as_bytes_def byte_of_char_def)
  have len: "length (publish_bytes demo_frame) = 27"
    by (simp add: publish_bytes_def demo_frame_def)
  then have ne: "publish_bytes demo_frame \<noteq> []" by auto
  let ?bs = "publish_bytes demo_frame"
  let ?script = "[SBytes ?bs, SError TimedOut, SBytes ?bs]"
  have "list_all2 (\<lambda>f bs. publish f = Inr bs \<and> is_str (channel f)) [demo_frame, demo_frame] [?bs, ?bs]"
    by (simp add: pub demo_str)
  moreover have "script_ok ?script" using ne by simp
  moreover have "script_bytes ?script = concat [?bs, ?bs]" by simp
  moreover have "\<forall>e. SError e \<in> set ?script \<longrightarrow> is_timeout e" by (simp add: is_timeout_def)
  moreover have "3 * script_size ?script < 1000" by (simp add: len)
  ultimately have "\<exists>c. \<exists>out :: nat Delivery list. tcpq_reader None (\<lambda>_ ch. ch = ''a'') (\<lambda>_. 5) 1000 ?script (counters_new, []) =
      (Some (case None of None \<Rightarrow> Closed | Some e \<Rightarrow> StopIo e), (c, out)) \<and>
    map de_frame out = filter (\<lambda>f. channel f = ''a'') [demo_frame, demo_frame] \<and>
    ct_received c = length [demo_frame, demo_frame] \<and>
    ct_delivered c = length out \<and> ct_delivered c + ct_discarded c = length [demo_frame, demo_frame]"
    by (rule relay_client_delivers)
  moreover have "channel demo_frame = ''a''" by (simp add: demo_frame_def)
  ultimately show ?thesis by (simp add: numeral_2_eq_2)
qed

text \<open>
  C15 (any stream). Whatever a socket brings, what a client of a relay hands on is the wanted part of a
  beginning of what the decoder makes of the stream, and each frame it took it counted once, as
  delivered or as discarded. It says that bytes were wrong or that the stream closed only when it has
  handed on all there is, and only that.
\<close>

theorem relay_client_sound:
  assumes script: "script_ok script"
    and run: "tcpq_reader torn (\<lambda>_. w) now n script (counters_new, []) = (r, (c, out :: 'k Delivery list))"
  shows "\<exists>xs left err k. drain tcpq_decode (script_bytes script) = Some (xs, left, err) \<and> k \<le> length xs \<and>
    map de_frame out = filter (\<lambda>f. w (channel f)) (taken (take k xs)) \<and>
    ct_received c = k \<and> ct_delivered c = length out \<and> ct_delivered c + ct_discarded c = k \<and>
    (\<forall>e. r = Some (StopWire e) \<longrightarrow> k = length xs \<and> err = Some e) \<and>
    (r = Some Closed \<longrightarrow> k = length xs \<and> err = None) \<and>
    (\<forall>e. r = Some (StopIo e) \<longrightarrow> torn = Some e \<or> SError e \<in> set script \<and> \<not> is_timeout e) \<and>
    (3 * script_size script < n \<longrightarrow> r \<noteq> None)"
proof -
  from tcpq_reader_run [OF script run] obtain xs left err k where
    o: "drain tcpq_decode (script_bytes script) = Some (xs, left, err)" "k \<le> length xs"
    "map de_frame out = filter (\<lambda>f. w (channel f)) (taken (take k xs))" "ct_received c = k"
    "ct_delivered c = length out" "ct_delivered c + ct_discarded c = k"
    and stop: "stop_ok torn script (k = length xs) err r" by blast
  have "3 * script_size script < n \<longrightarrow> r \<noteq> None"
    using tcpq_reader_ends [OF script, of n torn "\<lambda>_. w" now "(counters_new, []) :: 'k reader"] run by simp
  moreover from stop have "\<forall>e. r = Some (StopWire e) \<longrightarrow> k = length xs \<and> err = Some e"
    and "r = Some Closed \<longrightarrow> k = length xs \<and> err = None"
    and "\<forall>e. r = Some (StopIo e) \<longrightarrow> torn = Some e \<or> SError e \<in> set script \<and> \<not> is_timeout e"
    by (auto simp: stop_ok_def)
  ultimately show ?thesis using o by (intro exI conjI)
qed

theorem relay_client_sound_witness:
  "\<exists>r c out. tcpq_reader None (\<lambda>_ ch. True) (\<lambda>_. 5) 100 [SBytes [1, 2, 3, 4, 5, 6, 7, 8, 9]]
      (counters_new, []) = (r, (c, out :: nat Delivery list)) \<and> r \<noteq> None \<and> ct_delivered c = length out"
proof -
  let ?script = "[SBytes [1, 2, 3, 4, 5, 6, 7, 8, 9]]"
  obtain r c and out :: "nat Delivery list" where
    run: "tcpq_reader None (\<lambda>_ ch. True) (\<lambda>_. 5) 100 ?script (counters_new, []) = (r, (c, out))"
    by (metis surj_pair)
  have "script_ok ?script" by simp
  from relay_client_sound [OF this run] run show ?thesis by auto
qed

text \<open>
  C16 (a multicast client). The reader of a multicast socket never panics, and it stops of itself only on
  an error of the socket that is neither a timeout nor one a datagram can cause. With none of those it
  hands on exactly what the receiver makes of the datagrams, in order. It counts each datagram once and
  each message it hands on once, and shows at most 1000 messages in flight.
\<close>

theorem multicast_client_delivers:
  fixes evs :: "'k::linorder UdpEvent list"
  assumes srt: "sorts_pieces srt"
  shows "\<exists>stop s c out. udpm_reader srt (\<lambda>_. w) now n evs reassembler_new (counters_new, []) = Some (stop, s, (c, out)) \<and>
    ct_delivered c = length out \<and> ct_in_flight c \<le> 1000 \<and>
    (\<forall>r. stop = Some r \<longrightarrow> (\<exists>e. r = StopIo e \<and> UError e \<in> set evs \<and> \<not> is_timeout e \<and> \<not> is_transient e)) \<and>
    (bus_stays evs \<and> length evs \<le> n \<longrightarrow> stop = None \<and>
      (\<exists>rs. on_datagrams srt w reassembler_new (datagrams_of evs) = Some (s, rs) \<and>
        map de_frame out = map rc_frame (messages_of rs) \<and> ct_received c = length (datagrams_of evs)))"
proof -
  have "udpm_counts (reassembler_new :: 'k Reassembler) (counters_new, [])"
    by (simp add: udpm_counts_def reassembler_new_ok counters_new_def)
  from udpm_reader_total [OF srt this, of "\<lambda>_. w" now n evs] obtain stop s c out where
    run: "udpm_reader srt (\<lambda>_. w) now n evs reassembler_new (counters_new, []) = Some (stop, s, (c, out))"
    and counts: "udpm_counts s (c, out)"
    and stop: "case stop of None \<Rightarrow> True | Some r \<Rightarrow>
      \<exists>e. r = StopIo e \<and> UError e \<in> set evs \<and> \<not> is_timeout e \<and> \<not> is_transient e"
    by auto
  have "stop = None \<and> (\<exists>rs. on_datagrams srt w reassembler_new (datagrams_of evs) = Some (s, rs) \<and>
      map de_frame out = map rc_frame (messages_of rs) \<and> ct_received c = length (datagrams_of evs))"
    if "bus_stays evs" "length evs \<le> n"
  proof -
    obtain s' rs where rs: "on_datagrams srt w reassembler_new (datagrams_of evs) = Some (s', rs)"
      "length rs = length (datagrams_of evs)"
      using on_datagrams_ok [OF reassembler_new_ok srt] by blast
    from udpm_reader_receives [OF that rs(1), of now counters_new "[]"] run rs show ?thesis
      by (auto simp: counters_new_def)
  qed
  moreover from counts have "ct_delivered c = length out" "ct_in_flight c \<le> 1000"
    by (simp_all add: udpm_counts_def MAX_FRAGMENT_BUFFERS_def)
  moreover from stop have "\<forall>r. stop = Some r \<longrightarrow>
      (\<exists>e. r = StopIo e \<and> UError e \<in> set evs \<and> \<not> is_timeout e \<and> \<not> is_transient e)"
    by (auto split: option.splits)
  ultimately show ?thesis using run by blast
qed

theorem multicast_client_delivers_witness:
  "\<exists>s c out. udpm_reader (sort_key pc_start) (\<lambda>_ ch. True) (\<lambda>_. 5) 10
      [Datagram (0 :: nat) [1, 2], UError ConnectionRefused, UError TimedOut] reassembler_new (counters_new, [])
      = Some (None, s, (c, out)) \<and> ct_received c = 1"
proof -
  let ?evs = "[Datagram (0 :: nat) [1, 2], UError ConnectionRefused, UError TimedOut]"
  have "bus_stays ?evs" "length ?evs \<le> 10" by (simp_all add: is_timeout_def is_transient_def)
  with multicast_client_delivers [OF demo_sort, of "\<lambda>_. True" "\<lambda>_. 5" 10 ?evs] show ?thesis by fastforce
qed

section \<open>Subscriptions and pace\<close>

text \<open>
  Matching. A channel is wanted exactly when some rule selects it: a name its own channel and no
  other, a pattern what the engine says. Asking changes no rule; it counts the patterns that gave up,
  all of them where nothing selects the channel. Adding a name wants that channel and changes nothing
  for another, and a name is taken exactly when it is 1 to 999 bytes with no NUL.
\<close>

lemma subscriptions_match:
  "(fst (matches is_match s ch) \<longleftrightarrow> (\<exists>r. r \<in> set (su_rules s) \<and> selects is_match ch r)) \<and>
    su_rules (snd (matches is_match s ch)) = su_rules s \<and>
    failures s \<le> failures (snd (matches is_match s ch)) \<and>
    (fst (matches is_match s ch) \<or> failures (snd (matches is_match s ch))
      = failures s + length (filter (gives_up is_match ch) (su_rules s))) \<and>
    (case add_name s name of
       Inl e \<Rightarrow> name = [] \<or> 999 < length name \<or> 0 \<in> set (as_bytes name)
     | Inr s' \<Rightarrow> name \<noteq> [] \<and> length name \<le> 999 \<and> 0 \<notin> set (as_bytes name) \<and>
         (fst (matches is_match s' ch) \<longleftrightarrow> ch = name \<or> fst (matches is_match s ch)))"
proof -
  have "failures (snd (matches is_match s ch)) = failures s + length (filter (gives_up is_match ch) (su_rules s))"
    if "\<not> list_ex (selects is_match ch) (su_rules s)"
  proof -
    from that have all: "takeWhile (\<lambda>r. \<not> selects is_match ch r) (su_rules s) = su_rules s"
      by (simp add: list_ex_iff)
    show ?thesis unfolding matches_eq all by (simp add: failures_def)
  qed
  then have "list_ex (selects is_match ch) (su_rules s) \<or>
      failures (snd (matches is_match s ch)) = failures s + length (filter (gives_up is_match ch) (su_rules s))"
    by blast
  moreover have "case add_name s name of
       Inl e \<Rightarrow> name = [] \<or> 999 < length name \<or> 0 \<in> set (as_bytes name)
     | Inr s' \<Rightarrow> name \<noteq> [] \<and> length name \<le> 999 \<and> 0 \<notin> set (as_bytes name) \<and>
         (fst (matches is_match s' ch) \<longleftrightarrow> ch = name \<or> fst (matches is_match s ch))"
    by (rule add_name_matches)
  moreover have "list_ex (selects is_match ch) (su_rules s) \<longleftrightarrow> (\<exists>r. r \<in> set (su_rules s) \<and> selects is_match ch r)"
    by (auto simp: list_ex_iff)
  ultimately show ?thesis
    by (simp add: matches_eq failures_def)
qed

text \<open>
  A name for a relay. What a relay is given for a name, read as a regular expression, is that name
  with each of its characters standing for itself; so two names never look alike to a relay.
\<close>

lemma escaped_is_literal:
  "regex_literal (escaped name) = Some name \<and> (rule_for_a_relay (Name a) = rule_for_a_relay (Name b) \<longleftrightarrow> a = b)"
  by (simp add: regex_literal_escaped escaped_inject)

text \<open>
  Unsubscribe. \<open>find\<close> gives what \<open>remove\<close> would give. Where a rule has that text, exactly the first
  such rule goes, the others keep their order, and the answer is what a relay was told for it; where none
  has, nothing changes.
\<close>

lemma remove_takes_the_first:
  "find_rule s sub = fst (remove_rule s sub) \<and>
    (case remove_rule s sub of
       (None, s') \<Rightarrow> s' = s \<and> sub \<notin> rule_text ` set (su_rules s)
     | (Some told, s') \<Rightarrow> \<exists>before r after. su_rules s = before @ r # after \<and> rule_text r = sub \<and>
         sub \<notin> rule_text ` set before \<and> told = rule_for_a_relay r \<and> s' = s\<lparr>su_rules := before @ after\<rparr>)"
proof (cases "remove_rule s sub")
  case (Pair told s')
  show ?thesis
  proof (cases told)
    case None
    with Pair show ?thesis
      using remove_rule_None [of s sub] remove_rule_None_same [of s sub] by (simp add: find_is_remove)
  next
    case (Some t)
    with Pair have "remove_rule s sub = (Some t, s')" by simp
    then obtain before r after where "su_rules s = before @ r # after" "rule_text r = sub"
      "\<forall>q \<in> set before. rule_text q \<noteq> sub" "t = rule_for_a_relay r" "s' = s\<lparr>su_rules := before @ after\<rparr>"
      by (rule remove_rule_Some)
    moreover from this(3) have "sub \<notin> rule_text ` set before" by auto
    ultimately show ?thesis using Pair Some by (auto simp: find_is_remove)
  qed
qed

text \<open>
  Pace. No hold is above an hour. An event out of sequence holds for nothing, and a later event
  never holds for less than an earlier one, as long as the gap is a number the code can hold; a gap that
  is not holds for nothing.
\<close>

lemma pace_hold:
  assumes was: "pa_previous p = Some was" and speed: "pa_speed p = Rate rate" and pos: "positive rate"
    and mono: "\<forall>a b. a \<le> b \<longrightarrow> micros a rate \<le> micros b rate" and zero: "micros 0 rate = 0"
  shows "fst (hold positive micros p t) \<le> LONGEST_HOLD \<and>
    (sint t \<le> sint was \<or> 2 ^ 63 \<le> sint t - sint was \<longrightarrow> fst (hold positive micros p t) = 0) \<and>
    (sint t \<le> sint u \<and> sint u - sint was < 2 ^ 63 \<longrightarrow>
      fst (hold positive micros p t) \<le> fst (hold positive micros p u))"
proof -
  note H = hold_Some [where positive = positive and micros = micros, OF was speed pos]
  have zeros: "sint t \<le> sint was \<or> 2 ^ 63 \<le> sint t - sint was \<longrightarrow> fst (hold positive micros p t) = 0"
    using zero by (cases "sint t = sint was") (auto simp: H)
  have "fst (hold positive micros p t) \<le> fst (hold positive micros p u)"
    if "sint t \<le> sint u" "sint u - sint was < 2 ^ 63"
  proof (cases "sint was \<le> sint t")
    case True
    with that mono have "micros (sint t - sint was) rate \<le> micros (sint u - sint was) rate" by simp
    with True that show ?thesis by (auto simp: H)
  next
    case False
    with zeros show ?thesis by simp
  qed
  with zeros hold_le show ?thesis by blast
qed


section \<open>The replay of a log\<close>


text \<open>A log of two events at the times 5 and 9, replayed from the time 7.\<close>

definition demo_log :: "Event list" where
  "demo_log = [\<lparr>ev_number = 0, ev_timestamp = 5, ev_frame = demo_frame\<rparr>,
     \<lparr>ev_number = 1, ev_timestamp = 9, ev_frame = demo_frame\<rparr>]"

definition demo_env :: "nat Env" where
  "demo_env = \<lparr>en_start = Some 7, en_wanted = (\<lambda>_ ch. ch = ''a''), en_clock = (\<lambda>_. 3), en_limit = 1000,
     en_positive = (\<lambda>r. 0 < r), en_micros = (\<lambda>gap r. nat gap * r)\<rparr>"

lemma demo_log_written:
  "list_all2 (\<lambda>ev bs. log_encode ev = Inr bs \<and> is_str (channel (ev_frame ev))) demo_log (map log_bytes demo_log)"
  by (simp add: demo_log_def log_encode_Inr demo_str) (simp add: demo_frame_def check_channel_Inr_iff
      CHANNEL_MAX_def MAX_MESSAGE_LEN_def as_bytes_def byte_of_char_def)

lemma demo_log_length: "length (concat (map log_bytes demo_log)) = 86"
  by (simp add: demo_log_def length_log_bytes demo_frame_def)

definition demo_reads :: "bytes \<Rightarrow> nat \<Rightarrow> script" where
  "demo_reads d p = SError Interrupted # (if p < length d then [SBytes (drop p d)] else [])"

lemma demo_reads_ok:
  "script_ok (demo_reads d p) \<and> script_bytes (demo_reads d p) = drop p d \<and>
    (\<forall>e. SError e \<in> set (demo_reads d p) \<longrightarrow> is_timeout e)"
  by (auto simp: demo_reads_def is_timeout_def)


text \<open>
  C18 (a replay ends). Over any bytes, in any pieces, damaged or not: with no rate to keep to and a clock
  that does not go back, the loop of a replay stops by itself within as many turns as there are bytes and
  reads, three times over. Every turn takes a byte or more off the log, or waits for a read.
\<close>

theorem log_replay_ends:
  fixes en :: "'f Env"
  assumes "en_start en = None" and "antimono (en_clock en)" and "script_ok (reads 0)"
    and "3 * script_size (reads 0) < n"
  shows "fst (log_reader en Unthrottled file reads n :: Stop option \<times> ('k, 'f) Replay) \<noteq> None"
proof -
  have "no_rate en n (\<lparr>rp_counters = counters_new, rp_out = [], rp_pace = pace_new Unthrottled,
      rp_anchor = None\<rparr> :: ('k, 'f) Replay)"
    by (simp add: no_rate_def pace_new_def)
  from log_loop_ends [OF pending_new assms(3) _ _ this assms(2), of 0] assms(1,4) show ?thesis
    by (simp add: log_reader_def unread_new)
qed

theorem log_replay_ends_witness:
  "fst (log_reader (demo_env\<lparr>en_start := None\<rparr>) Unthrottled [1, 2, 3] (demo_reads [1, 2, 3]) 100
    :: Stop option \<times> (nat, nat) Replay) \<noteq> None"
  by (rule log_replay_ends) (simp_all add: demo_env_def demo_reads_ok antimono_def, simp add: demo_reads_def)

text \<open>
  C19 (nothing is made up). Whatever the file holds, each event a replay hands on stands in the file as the
  encoder writes it, behind the one before it and not overlapping it: sliding over damage never makes an
  event out of bytes that are none, and never gives one twice.
\<close>

theorem log_replay_sound:
  fixes en :: "'f Env"
  assumes start: "en_start en = None" and w: "en_wanted en = (\<lambda>_. w)"
    and reads: "script_ok (reads 0)" "script_bytes (reads 0) = file"
    and run: "log_reader en speed file reads n = (r, st :: ('k, 'f) Replay)"
  shows "\<exists>evs. written_in evs file \<and> map snd (rp_out st) = map delivery_of (filter (\<lambda>ev. w (channel (ev_frame ev))) evs)"
proof -
  have "log_loop en n (reads 0) (with_limits 65536 LOG_EVENT_MAX) 0 \<lparr>rp_counters = counters_new, rp_out = [],
      rp_pace = pace_new speed, rp_anchor = None\<rparr> = (r, st)"
    using run start by (simp add: log_reader_def)
  from log_loop_sound [OF pending_new reads(1) _ this w] reads(2) show ?thesis
    by (simp add: unread_new delivered_by_def replays_def [abs_def] before_start_def start)
qed

theorem log_replay_sound_witness:
  "\<exists>r. \<exists>st :: (nat, nat) Replay. \<exists>evs.
    log_reader (demo_env\<lparr>en_start := None\<rparr>) Unthrottled [1, 2, 3] (demo_reads [1, 2, 3]) 100 = (r, st) \<and>
    written_in evs [1, 2, 3] \<and> map snd (rp_out st) = map delivery_of (filter (\<lambda>ev. channel (ev_frame ev) = ''a'') evs)"
proof -
  let ?en = "demo_env\<lparr>en_start := None\<rparr>"
  obtain r and st :: "(nat, nat) Replay" where run: "log_reader ?en Unthrottled [1, 2, 3] (demo_reads [1, 2, 3]) 100 = (r, st)"
    by (metis surj_pair)
  have "en_start ?en = None" "en_wanted ?en = (\<lambda>_ ch. ch = ''a'')" by (simp_all add: demo_env_def)
  from log_replay_sound [OF this _ _ run] demo_reads_ok [of "[1, 2, 3]" 0] run show ?thesis by auto
qed

text \<open>
  C20 (recovery). A replay whose file begins with bytes that hold no sync word, such as an event whose head
  is damaged, slides over exactly those bytes, in any pieces, and hands on every wanted event behind them.
\<close>

theorem log_recovers:
  fixes en :: "'f Env"
  assumes log: "list_all2 (\<lambda>ev bs. log_encode ev = Inr bs \<and> is_str (channel (ev_frame ev))) evs bss" "evs \<noteq> []"
    and whole: "file = junk @ concat bss" and no_sync: "\<forall>i < length junk. take 4 (drop i file) \<noteq> to_be_bytes LOG_MAGIC"
    and start: "en_start en = None" and w: "en_wanted en = (\<lambda>_. w)"
    and reads: "script_ok (reads 0)" "script_bytes (reads 0) = file" "\<forall>e. SError e \<in> set (reads 0) \<longrightarrow> is_timeout e"
    and run: "log_reader en speed file reads n = (r, st :: ('k, 'f) Replay)" and ended: "r \<noteq> None"
  shows "r = Some EndOfLog \<and> ct_received (rp_counters st) = length evs \<and>
    map snd (rp_out st) = map delivery_of (filter (\<lambda>ev. w (channel (ev_frame ev))) evs)"
proof -
  let ?st = "\<lparr>rp_counters = counters_new, rp_out = [], rp_pace = pace_new speed, rp_anchor = None\<rparr> :: ('k, 'f) Replay"
  have logged: "list_all2 logged evs bss" using log by (simp add: logged_def [abs_def])
  have "field32 file i \<noteq> LOG_MAGIC" if "i < length junk" for i
  proof -
    have "length junk + 28 < length file"
      using logged log(2) by (cases evs) (auto simp: whole list_all2_Cons1 dest: logged_bytes)
    with that have "to_be_bytes (field32 file i) = take 4 (drop i file)" by (intro field32_bytes) simp
    with that no_sync show ?thesis by auto
  qed
  with logged log(2) whole have "readable junk evs (drop 0 (unread (with_limits 65536 LOG_EVENT_MAX)) @ script_bytes (reads 0))"
    by (auto simp: readable_def unread_new reads(2))
  from log_loop_replays [OF pending_new reads(1) _ this reads(3) w, of ?st n]
  have "replayed en w junk evs ?st (r, st)" using run start by (simp add: log_reader_def)
  with ended show ?thesis
    by (auto simp: replayed_def delivered_by_def replays_def [abs_def] before_start_def start tally_def counters_new_def)
qed

lemma all_less_two: "(\<forall>i < Suc (Suc 0). P i) \<longleftrightarrow> P 0 \<and> P (Suc 0)"
  by (auto simp: less_Suc_eq)

lemma magic_bytes: "to_be_bytes LOG_MAGIC = [0xED, 0xA1, 0xDA, 1]"
proof -
  have "be_of_nat (Suc (Suc (Suc (Suc 0)))) v = [of_nat (v div 256 div 256 div 256 mod 256),
      of_nat (v div 256 div 256 mod 256), of_nat (v div 256 mod 256), of_nat (v mod 256)]" for v by simp
  moreover have "LENGTH(32) div 8 = Suc (Suc (Suc (Suc 0)))" by simp
  ultimately show ?thesis by (simp only: to_be_bytes_def LOG_MAGIC_def) simp
qed

theorem log_recovers_witness:
  "\<exists>st :: (nat, nat) Replay. log_reader (demo_env\<lparr>en_start := None\<rparr>) Unthrottled
      ([1, 2] @ concat (map log_bytes demo_log)) (demo_reads ([1, 2] @ concat (map log_bytes demo_log))) 400
      = (Some EndOfLog, st) \<and> ct_received (rp_counters st) = 2"
proof -
  let ?en = "demo_env\<lparr>en_start := None\<rparr>" and ?d = "[1, 2] @ concat (map log_bytes demo_log)"
  obtain r and st :: "(nat, nat) Replay" where run: "log_reader ?en Unthrottled ?d (demo_reads ?d) 400 = (r, st)"
    by (metis surj_pair)
  have ne: "demo_log \<noteq> []" and len: "length demo_log = 2" by (simp_all add: demo_log_def)
  have en: "en_start ?en = None" "en_wanted ?en = (\<lambda>_ ch. ch = ''a'')" by (simp_all add: demo_env_def)
  have sync: "\<forall>i < length [1, 2 :: u8]. take 4 (drop i ?d) \<noteq> to_be_bytes LOG_MAGIC"
    by (simp add: demo_log_def log_bytes_def magic_bytes all_less_two)
  have "r \<noteq> None"
    using log_loop_ends [of "with_limits 65536 LOG_EVENT_MAX" "demo_reads ?d 0" 0 400 ?en
        "\<lparr>rp_counters = counters_new, rp_out = [], rp_pace = pace_new Unthrottled, rp_anchor = None\<rparr> :: (nat, nat) Replay"]
      run pending_new demo_reads_ok [of ?d 0] demo_log_length
    by (simp add: log_reader_def unread_new no_rate_def pace_new_def demo_env_def antimono_def demo_reads_def)
  from log_recovers [OF demo_log_written ne refl sync en _ _ _ run this] demo_reads_ok [of ?d 0] run len
  show ?thesis by auto
qed


section \<open>The outbox of a relay client\<close>







text \<open>
  C24 (room). Where no message is longer than some length, the messages that wait are never above the
  budget by more than one of them. The first publisher in line is let in whatever its length as soon as
  the budget is not passed, and no other is before it; the line is in the sequence of the tickets.
\<close>

theorem outbox_room:
  assumes run: "outbox_run world_new w" and small: "\<forall>f \<in> set (wo_put w). length f \<le> m"
    and callers: "wo_callers w = (t, f) # rst"
  shows "qu_waiting (wo_queue w) \<le> OUTBOX_BYTES + m + FRAME_COST \<and>
    (qu_open (wo_queue w) \<and> qu_waiting (wo_queue w) \<le> OUTBOX_BYTES \<longrightarrow>
      snd (put_turn (wo_queue w) t f expired) = Some (Inr ())) \<and>
    ((u, g) \<in> set rst \<longrightarrow> t < u \<and> snd (put_turn (wo_queue w) u g expired) \<noteq> Some (Inr ()))"
proof -
  note L = line_first [OF reachable_ok [OF run] callers]
  have "snd (put_turn (wo_queue w) u g expired) \<noteq> Some (Inr ())" if "t < u"
    using L(1) that by (simp add: put_turn_def)
  with L waiting_run [OF run small] show ?thesis by (auto simp: put_turn_def)
qed

theorem outbox_room_witness:
  "\<exists>w. outbox_run world_new w \<and> wo_callers w = [(1, [7])] \<and> qu_waiting (wo_queue w) \<le> OUTBOX_BYTES + OUTBOX_BYTES + FRAME_COST"
proof -
  obtain w where w: "outbox_run world_new w" "wo_callers w = [(1, [7])]"
    "\<forall>f \<in> set (wo_put w). length f \<le> OUTBOX_BYTES"
    using one_waits by blast
  from outbox_room [OF w(1,3,2), of False 0 "[]"] w show ?thesis by blast
qed


section \<open>Bus addresses\<close>

text \<open>Rates that are natural numbers, for the witnesses.\<close>

definition count_rates :: "nat Float" where
  "count_rates = \<lparr>fl_parse = (\<lambda>s. if s = [] then None else parse_digits s 0), fl_show = show_nat, fl_nan = (\<lambda>_. False),
     fl_negative = (\<lambda>_. False), fl_zero = (\<lambda>r. r = 0), fl_one = 1\<rparr>"

lemma count_rates_laws: "float_laws count_rates"
  by (simp add: float_laws_def rate_ok_def count_rates_def parse_show_digits to_digit_def)

text \<open>
  C25 (a URL comes back). Whatever URL parses, what is shown for its bus parses again, as that same bus.
\<close>

theorem url_round_trip:
  assumes "float_laws fl" and "parse_url fl url = Inr u"
  shows "parse_url fl (show_url fl u) = Inr u"
  by (rule url_reads_back [OF assms(1) parse_url_ok [OF assms]])

theorem url_round_trip_witness:
  "parse_url count_rates (show_url count_rates (BusTcpq \<lparr>re_host = ''::1'', re_port = 7700\<rparr>))
    = Inr (BusTcpq \<lparr>re_host = ''::1'', re_port = 7700\<rparr>)"
  by (rule url_round_trip [OF count_rates_laws ipv6_host_binds_all(1)])

text \<open>
  No other bus. A URL is refused with its own text, or it names a bus the rest of the crate can use: the
  group is a multicast one, the datagram limit is within the two bounds, a relay has a host, a log a path
  with no query in it, and a rate is a number above zero.
\<close>

lemma url_outcome:
  assumes "float_laws fl"
  shows "case parse_url fl url of
      Inl e \<Rightarrow> bu_url e = url
    | Inr (BusTcpq r) \<Rightarrow> re_host r \<noteq> []
    | Inr (BusUdpm u) \<Rightarrow> is_multicast (mb_group u) \<and>
        (\<forall>n. mb_short_max u = Some n \<longrightarrow> MIN_SHORT_MAX \<le> n \<and> n \<le> MAX_SHORT_MAX)
    | Inr (BusFile f) \<Rightarrow> lf_path f \<noteq> [] \<and> CHR ''?'' \<notin> set (lf_path f) \<and>
        (\<forall>r. lf_speed f = Rate r \<longrightarrow> \<not> fl_nan fl r \<and> \<not> fl_negative fl r \<and> \<not> fl_zero fl r)"
proof (cases "parse_url fl url")
  case (Inl e)
  then show ?thesis using parse_url_error by simp
next
  case (Inr u)
  from parse_url_ok [OF assms Inr] show ?thesis
    by (cases u) (auto simp: Inr multicast_ok_def logfile_ok_def rate_ok_def)
qed

section \<open>The relay that listens\<close>

text \<open>
  C26 (the fan-out). A connection whose bytes are any requests, cut into any reads: when it closes, the outbox
  of each peer with room has got exactly the messages its subscriptions selected, in order and each once (the
  peer whose requests they are by its subscriptions at that point of its own stream), and the participant that
  serves was given exactly the ones it wants, and counted each.
\<close>

theorem relay_carries:
  fixes s :: "('re, 'k) Served"
  assumes frames: "list_all2 request_frame qs bss" and script: "script_ok script" "script_bytes script = concat bss"
    and errs: "\<forall>e. SError e \<in> set script \<longrightarrow> is_timeout e" and n: "3 * script_size script < n"
    and peers: "distinct (sv_peers s)" "\<forall>b \<in> set (sv_peers s). \<exists>p. sv_store s b = Some p \<and>
      roomy (frames_size (published qs)) (pe_outbox p)"
    and participant: "sv_local s = Some subs"
  shows "\<exists>s'. peer_reader compile is_match woken now i n script s = (Some Closed, s') \<and>
    (\<forall>b \<in> set (sv_peers s). \<exists>p p'. sv_store s b = Some p \<and> sv_store s' b = Some p' \<and>
      qu_messages (pe_outbox p') = qu_messages (pe_outbox p) @
        map publish_bytes (heard compile is_match (b = i) (pe_subscriptions p) qs)) \<and>
    (\<exists>new. snd (sv_seen s') = snd (sv_seen s) @ new \<and>
      map de_frame new = filter (\<lambda>f. list_ex (selects is_match (channel f)) (su_rules subs)) (published qs) \<and>
      ct_received (fst (sv_seen s')) = ct_received (fst (sv_seen s)) + length (published qs) \<and>
      ct_delivered (fst (sv_seen s')) = ct_delivered (fst (sv_seen s)) + length new)"
proof -
  from peer_reader_run [OF frames script errs n] obtain ns where ns: "length ns = length qs"
    and run: "peer_reader compile is_match woken now i n script s
      = (Some Closed, handle_all (peer_item compile is_match woken now i) (\<lambda>s. s) ns (map Some qs) s)" by blast
  let ?s = "handle_all (peer_item compile is_match woken now i) (\<lambda>s. s) ns (map Some qs) s"
  have "\<exists>p p'. sv_store s b = Some p \<and> sv_store ?s b = Some p' \<and> qu_messages (pe_outbox p') = qu_messages (pe_outbox p) @
      map publish_bytes (heard compile is_match (b = i) (pe_subscriptions p) qs)" if "b \<in> set (sv_peers s)" for b
    using peers(2) peer_items_heard [OF peers(1) that _ _ frames ns] that by blast
  moreover obtain c out where seen: "sv_seen s = (c, out)" by (cases "sv_seen s")
  from peer_items_local [OF participant seen frames ns] obtain c' new where
    "sv_seen ?s = (c', out @ new)" "map de_frame new = filter (\<lambda>f. list_ex (selects is_match (channel f)) (su_rules subs)) (published qs)"
    "ct_received c' = ct_received c + length (published qs)" "ct_delivered c' = ct_delivered c + length new" by blast
  then have "\<exists>new. snd (sv_seen ?s) = snd (sv_seen s) @ new \<and>
      map de_frame new = filter (\<lambda>f. list_ex (selects is_match (channel f)) (su_rules subs)) (published qs) \<and>
      ct_received (fst (sv_seen ?s)) = ct_received (fst (sv_seen s)) + length (published qs) \<and>
      ct_delivered (fst (sv_seen ?s)) = ct_delivered (fst (sv_seen s)) + length new"
    unfolding seen by (intro exI [of _ new]) simp
  ultimately show ?thesis by (intro exI [of _ ?s] conjI run ballI) blast+
qed

text \<open>One peer that wants the channel \<open>a\<close>, and one that asks for it and then publishes.\<close>

definition demo_peer :: "string Peer" where
  "demo_peer = peer_new\<lparr>pe_subscriptions := \<lparr>su_rules = [Name ''a''], su_failures = 0\<rparr>\<rparr>"

definition demo_served :: "(string, nat) Served" where
  "demo_served = (served_new (Some \<lparr>su_rules = [Name ''b''], su_failures = 0\<rparr>))
     \<lparr>sv_store := [0 \<mapsto> demo_peer, 1 \<mapsto> peer_new], sv_peers := [0, 1], sv_next_id := 2\<rparr>"

lemma demo_publish: "request_frame (Publish demo_frame) (publish_bytes demo_frame)" "length (publish_bytes demo_frame) = 27"
  by (simp_all add: request_frame_def demo_str publish_Inr CHANNEL_READ_MAX_def)
     (simp_all add: demo_frame_def check_channel_Inr_iff MAX_CHANNEL_LEN_def MAX_MESSAGE_LEN_def as_bytes_def
        byte_of_char_def publish_bytes_def)

lemma demo_served_room:
  "distinct (sv_peers demo_served)" "sv_local demo_served = Some \<lparr>su_rules = [Name ''b''], su_failures = 0\<rparr>"
  "\<forall>b \<in> set (sv_peers demo_served). \<exists>p. sv_store demo_served b = Some p \<and> roomy 67 (pe_outbox p) \<and> qu_messages (pe_outbox p) = []"
  by (simp_all add: demo_served_def served_new_def demo_peer_def peer_new_def outbox_new_def roomy_def OUTBOX_BYTES_def)

lemma demo_stream:
  "list_all2 request_frame [Publish demo_frame] [publish_bytes demo_frame]"
  "script_ok [SBytes (publish_bytes demo_frame)]" "script_bytes [SBytes (publish_bytes demo_frame)] = concat [publish_bytes demo_frame]"
  "\<forall>e. SError e \<in> set [SBytes (publish_bytes demo_frame)] \<longrightarrow> is_timeout e"
  "3 * script_size [SBytes (publish_bytes demo_frame)] < 1000"
  "frames_size (published [Publish demo_frame]) = 67"
  using demo_publish by (auto simp: FRAME_COST_def)

theorem relay_carries_witness:
  "\<exists>s'. peer_reader Inr (\<lambda>_ _. Some False) (\<lambda>_ _. []) (\<lambda>_. 5) 1 1000 [SBytes (publish_bytes demo_frame)] demo_served
      = (Some Closed, s') \<and> (\<exists>p'. sv_store s' 0 = Some p' \<and> qu_messages (pe_outbox p') = [publish_bytes demo_frame])"
proof -
  have room: "\<forall>b \<in> set (sv_peers demo_served). \<exists>p. sv_store demo_served b = Some p \<and>
      roomy (frames_size (published [Publish demo_frame])) (pe_outbox p)"
    unfolding demo_stream(6) using demo_served_room(3) by blast
  from relay_carries [OF demo_stream(1-5) demo_served_room(1) room demo_served_room(2), where i = 1 and compile = Inr
      and is_match = "\<lambda>_ _. Some False" and woken = "\<lambda>_ _. []" and now = "\<lambda>_. 5"] obtain s' where
    run: "peer_reader Inr (\<lambda>_ _. Some False) (\<lambda>_ _. []) (\<lambda>_. 5) 1 1000 [SBytes (publish_bytes demo_frame)] demo_served = (Some Closed, s')"
    and out: "\<forall>b \<in> set (sv_peers demo_served). \<exists>p p'. sv_store demo_served b = Some p \<and> sv_store s' b = Some p' \<and>
      qu_messages (pe_outbox p') = qu_messages (pe_outbox p) @
        map publish_bytes (heard Inr (\<lambda>_ _. Some False) (b = 1) (pe_subscriptions p) [Publish demo_frame])" by blast
  have "0 \<in> set (sv_peers demo_served)" "sv_store demo_served 0 = Some demo_peer" by (simp_all add: demo_served_def)
  with out obtain p' where "sv_store s' 0 = Some p'" "qu_messages (pe_outbox p') = qu_messages (pe_outbox demo_peer) @
        map publish_bytes (heard Inr (\<lambda>_ _. Some False) False (pe_subscriptions demo_peer) [Publish demo_frame])" by fastforce
  moreover have "channel demo_frame = ''a''" by (simp add: demo_frame_def)
  ultimately show ?thesis using run by (simp add: demo_peer_def peer_new_def outbox_new_def)
qed

text \<open>
  C27 (from one client to another). One client publishes and another, a peer with room and with nothing
  waiting, has its subscriptions at the relay; the bytes the relay has for it come to its reader in any reads.
  Its handler gets exactly the messages that the relay selects for it and it wants itself, in the sequence in
  which they were published.
\<close>

theorem relay_end_to_end:
  fixes s :: "('re, 'k) Served"
  assumes frames: "list_all2 request_frame qs bss" and script: "script_ok script" "script_bytes script = concat bss"
    and errs: "\<forall>e. SError e \<in> set script \<longrightarrow> is_timeout e" and n: "3 * script_size script < n"
    and peers: "distinct (sv_peers s)" and b: "b \<in> set (sv_peers s)" "b \<noteq> i" "sv_store s b = Some p"
      "roomy (frames_size (published qs)) (pe_outbox p)" "qu_messages (pe_outbox p) = []"
  shows "\<exists>s' p'. peer_reader compile is_match woken now i n script s = (Some Closed, s') \<and> sv_store s' b = Some p' \<and>
    (\<forall>script' n'. script_ok script' \<and> script_bytes script' = concat (qu_messages (pe_outbox p')) \<and>
        (\<forall>e. SError e \<in> set script' \<longrightarrow> is_timeout e) \<and> 3 * script_size script' < n' \<longrightarrow>
      (\<exists>c. \<exists>out :: 'k Delivery list. tcpq_reader None (\<lambda>_. w) now' n' script' (counters_new, []) = (Some Closed, (c, out)) \<and>
        map de_frame out = filter (\<lambda>f. list_ex (selects is_match (channel f)) (su_rules (pe_subscriptions p)) \<and> w (channel f))
          (published qs)))"
proof -
  from peer_reader_run [OF frames script errs n] obtain ns where ns: "length ns = length qs"
    and run: "peer_reader compile is_match woken now i n script s
      = (Some Closed, handle_all (peer_item compile is_match woken now i) (\<lambda>s. s) ns (map Some qs) s)" by blast
  let ?s = "handle_all (peer_item compile is_match woken now i) (\<lambda>s. s) ns (map Some qs) s"
  let ?fs = "filter (\<lambda>f. list_ex (selects is_match (channel f)) (su_rules (pe_subscriptions p))) (published qs)"
  have other: "(b = i) = False" using b(2) by simp
  from peer_items_heard [OF peers b(1,3,4) frames ns, where i = i and is_match = is_match and compile = compile
      and woken = woken and now = now and skip = "\<lambda>s. s"] obtain p' where p': "sv_store ?s b = Some p'"
    "qu_messages (pe_outbox p') = map publish_bytes ?fs" unfolding other heard_others b(5) by auto
  have "list_all2 (\<lambda>f bs. publish f = Inr bs \<and> is_str (channel f)) ?fs (map publish_bytes ?fs)"
    using published_frames [OF frames] by (auto simp: list_all2_conv_all_nth all_set_conv_all_nth [symmetric] simp del: nth_mem dest: nth_mem)
  note reads = tcpq_reader_delivers [OF this]
  have "\<exists>c. \<exists>out :: 'k Delivery list. tcpq_reader None (\<lambda>_. w) now' n' script' (counters_new, []) = (Some Closed, (c, out)) \<and>
      map de_frame out = filter (\<lambda>f. list_ex (selects is_match (channel f)) (su_rules (pe_subscriptions p)) \<and> w (channel f)) (published qs)"
    if "script_ok script'" "script_bytes script' = concat (qu_messages (pe_outbox p'))"
      "\<forall>e. SError e \<in> set script' \<longrightarrow> is_timeout e" "3 * script_size script' < n'" for script' n'
    using reads [OF that(1) that(2) [unfolded p'(2)] that(3,4), of None w now'] by (simp add: conj_commute) blast
  with p'(1) run show ?thesis by blast
qed

theorem relay_end_to_end_witness:
  "\<exists>s'. \<exists>p' :: string Peer. peer_reader Inr (\<lambda>_ _. Some False) (\<lambda>_ _. []) (\<lambda>_. 5) 1 1000 [SBytes (publish_bytes demo_frame)] demo_served
      = (Some Closed, s') \<and> sv_store s' 0 = Some p'"
proof -
  have b: "0 \<in> set (sv_peers demo_served)" "(0::nat) \<noteq> 1" "sv_store demo_served 0 = Some demo_peer"
    "roomy (frames_size (published [Publish demo_frame])) (pe_outbox demo_peer)" "qu_messages (pe_outbox demo_peer) = []"
    unfolding demo_stream(6) by (simp_all add: demo_served_def demo_peer_def peer_new_def outbox_new_def roomy_def OUTBOX_BYTES_def)
  from relay_end_to_end [OF demo_stream(1-5) demo_served_room(1) b, where compile = Inr
      and is_match = "\<lambda>_ _. Some False" and woken = "\<lambda>_ _. []" and now = "\<lambda>_. 5"] show ?thesis by blast
qed

text \<open>
  C28 (no connection is lost sight of). However the threads of a relay interleave, whatever fails in the start of
  a peer and whichever handler panics: each connection that a peer was made for is in the list of peers once, or
  the accept thread is just about to put it there, or its outbox is shut and its stream closed, but for those
  whose reader could not be started; no reader runs for these. The relay has accepted as many as it gave numbers,
  but for some of those it counts as refused.
\<close>

theorem relay_connections:
  assumes "relay_run compile is_match (relay_new participant) w"
  shows "distinct (sv_peers (rw_served w)) \<and> set (sv_peers (rw_served w)) \<subseteq> dom (sv_store (rw_served w)) \<and>
    sv_accepted (rw_served w) + card (starting w) \<le> sv_next_id (rw_served w) \<and>
    sv_next_id (rw_served w) \<le> sv_accepted (rw_served w) + card (starting w) + sv_refused (rw_served w) \<and>
    rw_halves w \<inter> (set (sv_peers (rw_served w)) \<union> rw_reading w) = {} \<and>
    (\<forall>i p. sv_store (rw_served w) i = Some p \<longrightarrow> i \<in> set (sv_peers (rw_served w)) \<or> rw_accept w = AStarted i \<or>
      i \<in> rw_halves w \<or> \<not> qu_open (pe_outbox p) \<and> \<not> pe_stream_open p)"
proof -
  note ok = relay_run_ok [OF assms relay_new_ok]
  have "i \<in> set (sv_peers (rw_served w)) \<or> rw_accept w = AStarted i \<or> i \<in> rw_halves w \<or> is_cut p"
    if "sv_store (rw_served w) i = Some p" for i p
    using relay_okD(8) [OF ok that] by (cases "rw_accept w") (auto simp: starting_def)
  with relay_okD(1,7,9,10) [OF ok] show ?thesis by (auto simp: is_cut_def)
qed

theorem relay_connections_witness:
  "sv_accepted (rw_served (dead_listed :: (string, nat) RelayWorld)) + card (starting (dead_listed :: (string, nat) RelayWorld))
    \<le> sv_next_id (rw_served (dead_listed :: (string, nat) RelayWorld))"
  using relay_connections [OF dead_listed_reached [where compile = Inr and is_match = "\<lambda>_ _. None"]] by blast



section \<open>The operations of a client\<close>


definition demo_outside :: Outside where
  "demo_outside = \<lparr>ou_woken = [], ou_peers = (\<lambda>_. []), ou_clock = Some 5, ou_sends = (\<lambda>_. None), ou_write = None, ou_flush = None\<rparr>"

definition demo_client :: "(string, nat) Transport \<Rightarrow> (string, nat) Client" where
  "demo_client tr = \<lparr>cl_transport = tr, cl_receives = True, cl_writable = True, cl_running = True,
     cl_subscriptions = subscriptions_new, cl_counters = counters_new\<rparr>"



text \<open>An engine that knows only names.\<close>

definition demo_compile :: "string \<Rightarrow> string + string" where
  "demo_compile t = (case regex_literal (take (length t - 6) (drop 4 t)) of Some name \<Rightarrow> Inr name | None \<Rightarrow> Inl t)"



text \<open>
  C32 (the opening). A client that \<open>open_tcpq\<close> gives back has written its greeting, which a relay takes, and then
  a subscription for each it opens with, in order, which the relay reads as exactly those where no pattern is
  too long; and it has taken exactly the eight bytes of the relay's greeting off the socket.
\<close>

theorem opening_is_read:
  assumes opened: "open_relay deadline hello_turns ats poll turns script subs = (Inr left, wire)" and script: "script_ok script"
    and short: "\<forall>t \<in> set (for_a_relay subs). is_str t \<and> length t \<le> CHANNEL_READ_MAX"
  shows "greet_peer None (Inr (take 8 wire)) = Inr server_handshake \<and>
    drain decode_request (drop 8 wire) = Some (map (\<lambda>t. Some (Subscribe t)) (for_a_relay subs), [], None) \<and>
    (\<exists>reply v. script_bytes script = reply @ script_bytes left \<and> length reply = 8 \<and> check_handshake reply = Inr v)"
proof -
  from open_relay_wire [OF opened script] have wire: "wire = handshake @ concat (map subscribe (for_a_relay subs))"
    and reply: "\<exists>reply v. check_handshake reply = Inr v \<and> length reply = 8 \<and> script_bytes script = reply @ script_bytes left"
    by blast+
  have "list_all2 request_frame (map Subscribe (for_a_relay subs)) (map subscribe (for_a_relay subs))"
    using short by (simp add: list_all2_map1 list_all2_map2 list_all2_same request_frame_def)
  from drain_requests [OF this] have "drain decode_request (drop 8 wire) = Some (map (\<lambda>t. Some (Subscribe t)) (for_a_relay subs), [], None)"
    by (simp add: wire handshake_fields comp_def)
  with reply show ?thesis using hello by (auto simp: wire handshake_fields)
qed

theorem opening_is_read_witness:
  "\<exists>wire. open_relay 10 [(0, Inr (Suc 1)), (1, Inl TimedOut), (2, Inr (Suc 9))] [3, 4] None [] [SBytes server_handshake]
      (subscriptions_new :: string Subscriptions) = (Inr [], wire) \<and> greet_peer None (Inr (take 8 wire)) = Inr server_handshake"
proof -
  have "length server_handshake = Suc 7" by (simp add: handshake_fields)
  then obtain a as where sh: "server_handshake = a # as" "length as = 7" unfolding length_Suc_conv by blast
  have "read_by 10 [3, 4] [SBytes (a # as)] (Suc n) = (Inr (a # as), [])" if "length as = n" for n using that by simp
  from this [OF sh(2)] have read: "read_by 10 [3, 4] [SBytes server_handshake] 8 = (Inr server_handshake, [])" by (simp add: sh(1))
  obtain b c d ds where h: "handshake = b # c # d # ds" "length ds = 5"
    using handshake_fields(3) by (auto simp: numeral_eq_Suc length_Suc_conv)
  have "write_by 10 [(0, Inr (Suc 1)), (1, Inl TimedOut), (2, Inr (Suc 9))] (b # c # d # ds) = (None, b # c # d # ds)"
    using h(2) by (simp add: is_timeout_def)
  then have wrote: "write_by 10 [(0, Inr (Suc 1)), (1, Inl TimedOut), (2, Inr (Suc 9))] handshake = (None, handshake)" by (simp add: h(1))
  obtain v where "check_handshake server_handshake = Inr v" by (simp add: check_handshake_eq handshake_fields)
  then have o: "open_relay 10 [(0, Inr (Suc 1)), (1, Inl TimedOut), (2, Inr (Suc 9))] [3, 4] None [] [SBytes server_handshake]
      (subscriptions_new :: string Subscriptions) = (Inr [], handshake)"
    unfolding open_relay_def wrote read by (simp add: for_a_relay_def subscriptions_new_def)
  have "script_ok [SBytes server_handshake]" by (simp add: sh(1))
  moreover have "\<forall>t \<in> set (for_a_relay (subscriptions_new :: string Subscriptions)). is_str t \<and> length t \<le> CHANNEL_READ_MAX"
    by (simp add: for_a_relay_def subscriptions_new_def)
  ultimately have "greet_peer None (Inr (take 8 handshake)) = Inr server_handshake" using opening_is_read [OF o] by blast
  with o show ?thesis by blast
qed

text \<open>
  C33 (a relay that listens is reached). Where the addresses in front of it give nothing but errors, each within
  its share of the time, an address that answers within the first share is reached: no share is less than
  that one, so an address that hangs does not take the time of those behind it.
\<close>

theorem relay_reached:
  assumes "\<forall>j < k. \<forall>share. \<exists>e. connect j share = Inl e" and "\<forall>share \<ge> share_of deadline clock addrs 0. connect k share = Inr stream"
    and "\<forall>j. clock (j + 1) \<le> clock j + share_of deadline clock addrs j" and "0 < share_of deadline clock addrs 0" and "k < addrs"
  shows "connect_within deadline clock connect addrs = Inr stream"
  unfolding connect_within_def
  using connect_from_reaches [OF assms(1,2) _ assms(4,5), where i = 0 and n = addrs] share_first [OF assms(3)] by simp

theorem relay_reached_witness:
  "connect_within 10 (\<lambda>i. if i = 0 then 0 else 5) (\<lambda>i share. if i = 0 then Inl TimedOut else Inr ()) 2 = Inr ()"
  by (rule relay_reached [where k = 1]) (simp_all add: share_of_def)

section \<open>The life of a client\<close>



text \<open>The bus of \<open>udpm://\<close>, with the default group.\<close>

definition demo_udpm :: "(string, nat) Client" where
  "demo_udpm = client_new (TUdpm \<lparr>us_recv_buffer = Some 425984, us_destination = (DEFAULT_GROUP, DEFAULT_UDPM_PORT),
     us_sequence = 0, us_short_max = 65499\<rparr>) True (Some subscriptions_new)"



text \<open>
  C35 (a stop is told). However the calls of the user, the writer and the reader of a client interleave: the
  handler is told of a stop at most once, and only when the reader has ended; it is told why the reader left; it
  is told whenever the reader ended and \<open>close\<close> was not called, and of a panic even then; and from the end of
  the reader on, as from \<open>close\<close>, the client says that it is not connected.
\<close>

theorem stop_is_told:
  assumes run: "life_run compile is_match (life_new shares c) w" and "cl_running c"
  shows "length (li_told w) \<le> 1 \<and> (li_told w \<noteq> [] \<longrightarrow> li_reader w = REnded \<and>
      (\<exists>panicked. li_left w = Some (panicked, Some (hd (li_told w))) \<and> (panicked \<longrightarrow> li_told w = [Panicked]))) \<and>
    (li_reader w = REnded \<or> li_closed w \<longrightarrow> \<not> is_connected (li_client w)) \<and>
    (li_reader w = REnded \<and> (\<not> li_closed w \<or> (\<exists>cause. li_left w = Some (True, cause))) \<longrightarrow> li_told w \<noteq> [])"
proof -
  from life_run_ok [OF run life_ok_new [OF assms(2)]] have "life_ok w" .
  then show ?thesis by (cases "li_reader w") (auto simp: life_ok_def is_connected_def)
qed

theorem stop_is_told_witness:
  "\<exists>w. life_run demo_compile (\<lambda>_ _. None) (life_new False demo_udpm) w \<and> li_reader w = REnded \<and> li_told w \<noteq> []"
proof -
  let ?w0 = "life_new False demo_udpm" and ?s = "StopIo OutOfMemory"
  let ?w1 = "reader_leaves False (Some ?s) ?w0"
  obtain c told where exit: "reader_exit False False (Some ?s) demo_udpm = (c, told)" by (cases "reader_exit False False (Some ?s) demo_udpm")
  let ?w2 = "?w1\<lparr>li_client := c, li_reader := REnded, li_told := li_told ?w1 @ (case told of Some stop \<Rightarrow> [stop] | None \<Rightarrow> [])\<rparr>"
  have "life_step demo_compile (\<lambda>_ _. None) ?w0 ?w1" by (rule reader_stops) (simp add: life_new_def)
  moreover have "life_step demo_compile (\<lambda>_ _. None) ?w1 ?w2"
    by (rule reader_exits [where panicked = False and cause = "Some ?s"])
      (use exit in \<open>simp_all add: life_new_def reader_leaves_def\<close>)
  ultimately have run: "life_run demo_compile (\<lambda>_ _. None) ?w0 ?w2" by (blast intro: run_refl run_step)
  have up: "cl_running demo_udpm" by (simp add: demo_udpm_def client_new_def)
  have "li_reader ?w2 = REnded \<and> \<not> li_closed ?w2" by (simp add: life_new_def reader_leaves_def)
  with stop_is_told [OF run up] run show ?thesis by blast
qed

text \<open>
  C36 (deliveries). A client opened by \<open>connect_channel\<close>, with its reader, its end and the caller that reads from
  the channel interleaved in any way: what the caller has read and what still waits for it is, in order, what the
  channel took of what the handler was given, up to what it held when the caller went; each delivery it did not
  take is counted as dropped; it holds no more than it is deep, which is at least 1 and at most a million and a
  bit; and where the caller was there and fewer than that behind at each delivery, nothing is dropped. Once the client has
  stopped, a loop over the channel gives all that still waits, and ends.
\<close>

theorem channel_keeps_order:
  assumes run: "channel_run (channel_world depth) w"
  shows "let ch = cw_channel w; offered = cw_offered w in
    cw_taken w @ cn_held ch @ cw_left w = map fst (filter snd offered) \<and> (cn_receiver ch \<longrightarrow> cw_left w = []) \<and>
    cn_dropped ch = length (filter (\<lambda>x. \<not> snd x) offered) \<and>
    length (cn_held ch) \<le> cn_bound ch \<and> 1 \<le> cn_bound ch \<and> cn_bound ch \<le> 2 ^ 20 \<and> (1 \<le> depth \<and> depth \<le> 2 ^ 20 \<longrightarrow> cn_bound ch = depth) \<and>
    (\<not> cw_late w \<longrightarrow> cn_dropped ch = 0) \<and>
    (\<not> cn_sender ch \<and> length (cn_held ch) < length turns \<longrightarrow>
      deliveries_loop turns ch = (cn_held ch, True, ch\<lparr>cn_held := []\<rparr>))"
proof -
  from channel_run_ok [OF run channel_ok_new] have "channel_ok depth w" .
  then show ?thesis
    by (auto simp: channel_ok_def Let_def kept_def missed_def comp_def clamp_def DEEPEST_CHANNEL_def
        deliveries_loop_ends split: if_splits)
qed

text \<open>A channel of depth one: one message taken, one dropped, and the first read.\<close>

theorem channel_keeps_order_witness:
  "\<exists>w. channel_run (channel_world 0) w \<and> cw_taken w = [10 :: nat] \<and> cn_dropped (cw_channel w) = 1 \<and>
    cw_taken w @ cn_held (cw_channel w) @ cw_left w = map fst (filter snd (cw_offered w))"
proof -
  let ?w = "\<lambda>held dropped offered got late. \<lparr>cw_channel = \<lparr>cn_bound = 1, cn_held = held, cn_sender = True, cn_receiver = True,
    cn_dropped = dropped\<rparr>, cw_offered = offered, cw_taken = got, cw_left = [], cw_late = late\<rparr> :: nat ChannelWorld"
  have start: "channel_world 0 = ?w [] 0 [] [] False" by (simp add: channel_world_def channel_new_def clamp_def)
  have "channel_step (?w [] 0 [] [] False) (?w [10] 0 [(10, True)] [] False)"
    using offer [of "?w [] 0 [] [] False" 10] by (simp add: to_channel_cases behind_def)
  moreover have "channel_step (?w [10] 0 [(10, True)] [] False) (?w [10] 1 [(10, True), (20, False)] [] True)"
    using offer [of "?w [10] 0 [(10, True)] [] False" 20] by (simp add: to_channel_cases behind_def)
  moreover have "channel_step (?w [10] 1 [(10, True), (20, False)] [] True) (?w [] 1 [(10, True), (20, False)] [10] True)"
    using read_one [of "?w [10] 1 [(10, True), (20, False)] [] True" 10] by (simp add: try_recv_def)
  ultimately have run: "channel_run (channel_world 0) (?w [] 1 [(10, True), (20, False)] [10] True)"
    unfolding start by (blast intro: run_refl run_step)
  from channel_keeps_order [OF run, of "[]"] run show ?thesis by (auto simp: Let_def)
qed

section \<open>From the one client to the other\<close>



text \<open>
  C38 (across a multicast bus). One client publishes any messages, whole and fragmented ones alike, from a bus
  whose sends do not fail; its datagrams come to the socket of another in any order, those of one message mixed
  with those of others, with any datagrams of any other senders, timeouts and ICMP errors between them. While the
  reassembler of the other evicts nothing, its reader hands on as coming from that client exactly the messages
  of the calls that were answered \<open>Ok\<close>, each once, where their channel is wanted; in the order they were
  published, where the datagrams come in the order they were sent. The reader goes on, and nothing of those
  messages stays behind. (Numbers come round after \<open>2 ^ 32\<close> messages, so no more are published.)
\<close>

theorem multicast_carries:
  fixes src :: "'k :: linorder"
  assumes c: "cl_transport c = TUdpm u" "cl_writable c" "us_short_max u \<le> MAX_SHORT_MAX"
    and calls: "only_publishes hs" "length hs \<le> 2 ^ 32" and run: "happenings compile is_match hs c = Some (rs, c', sent)"
    and s: "reassembler_ok s" "\<forall>sequence. bt_get (ra_partial s) (src, sequence) = None" and srt: "sorts_pieces srt"
    and bus: "bus_stays evs" "mset (filter (\<lambda>x. fst x = src) (brought evs)) = mset (map (Pair src) sent)" "length evs \<le> n"
    and read: "udpm_reader srt (\<lambda>_. wanted) now n evs s (counters_new, []) = Some (stop, s', (counters, out))"
    and room: "ra_evicted s' = ra_evicted s"
  shows "let got = map de_frame (filter (\<lambda>d. \<exists>q. de_origin d = OMulticast src q) out);
      meant = filter (\<lambda>f. wanted (channel f)) (answered_ok rs) in
    mset got = mset meant \<and> (filter (\<lambda>x. fst x = src) (brought evs) = map (Pair src) sent \<longrightarrow> got = meant) \<and>
    stop = None \<and> (\<forall>sequence. bt_get (ra_partial s') (src, sequence) = None)"
proof -
  have "quiet src s" using s(2) by (simp add: quiet_def)
  from multicast_delivers [OF c calls run s(1) this srt bus read room] show ?thesis
    unfolding quiet_def Let_def by blast
qed

text \<open>Two messages, the second before the first, with a timeout and three bytes of another sender between them.\<close>

abbreviation demo_sender :: SocketAddr where "demo_sender \<equiv> SocketAddr (Ipv4Addr 10 0 0 1) 7667"

theorem multicast_carries_witness:
  "\<exists>rs c' d0 d1 s' counters out.
    happenings demo_compile (\<lambda>_ _. None) (replicate 2 (demo_outside, Calls (Publishes demo_frame None))) demo_udpm
      = Some (rs, c', [d0, d1]) \<and>
    udpm_reader (sort_key pc_start) (\<lambda>_ ch. ch = ''a'') (\<lambda>_. 0) 4
      [Datagram demo_sender d1, UError TimedOut, Datagram (SocketAddr (Ipv4Addr 10 0 0 2) 7667) [1, 2, 3], Datagram demo_sender d0]
      reassembler_new (counters_new, []) = Some (None, s', (counters, out)) \<and> answered_ok rs = [demo_frame, demo_frame] \<and>
    mset (map de_frame (filter (\<lambda>d. \<exists>q. de_origin d = OMulticast demo_sender q) out)) = {#demo_frame, demo_frame#}"
proof -
  let ?hs = "replicate 2 (demo_outside, Calls (Publishes demo_frame None))" and ?s = "reassembler_new :: SocketAddr Reassembler"
  have ch: "check_channel (channel demo_frame) MAX_CHANNEL_LEN = Inr ()"
    by (simp add: demo_frame_def check_channel_Inr_iff MAX_CHANNEL_LEN_def as_bytes_def byte_of_char_def)
  have frag: "\<exists>f. fragments q demo_frame 65499 = Inr f \<and> fs_count f = 1" for q
    using ch by (simp add: fragments_def demo_frame_def MAX_MESSAGE_LEN_def Let_def)
  have one: "\<exists>d. udpm_encode q demo_frame 65499 = Some (Inr [d]) \<and> udpm_decode d = Inr (Whole q demo_frame) \<and> take 65536 d = d" for q
  proof -
    from frag obtain f where f: "fragments q demo_frame 65499 = Inr f" "fs_count f = 1" by blast
    then have enc: "udpm_encode q demo_frame 65499 = Some (Inr [datagram f 0])" by (simp add: udpm_encode_eq)
    moreover have "udpm_decode (datagram f 0) = Inr (Whole q demo_frame)"
      using udpm_decode_datagram [OF f(1) demo_str, of 0] f(2) by simp
    moreover have "take 65536 (datagram f 0) = datagram f 0"
      using encode_fits [OF enc, of "datagram f 0"] by (simp add: HEADER_SHORT_def)
    ultimately show ?thesis by blast
  qed
  from one [of 0] obtain d0 where d0: "udpm_encode 0 demo_frame 65499 = Some (Inr [d0])"
    "udpm_decode d0 = Inr (Whole 0 demo_frame)" "take 65536 d0 = d0" by blast
  from one [of 1] obtain d1 where d1: "udpm_encode 1 demo_frame 65499 = Some (Inr [d1])"
    "udpm_decode d1 = Inr (Whole 1 demo_frame)" "take 65536 d1 = d1" by blast
  obtain e where bad: "udpm_decode [1, 2, 3] = Inl e"
    by (simp add: udpm_decode_def reader_u32_def reader_take_def reader_new_def and_then_def)
  obtain u where c: "cl_transport demo_udpm = TUdpm u" "cl_writable demo_udpm" "us_short_max u \<le> MAX_SHORT_MAX"
    by (simp add: demo_udpm_def client_new_def MAX_SHORT_MAX_def MAX_UDP_PAYLOAD_def)
  have calls: "only_publishes ?hs" "length ?hs \<le> 2 ^ 32" using demo_str by (simp_all add: only_publishes_def demo_outside_def)
  obtain c' where run: "happenings demo_compile (\<lambda>_ _. None) ?hs demo_udpm =
      Some ([(Publishes demo_frame None, Inr True), (Publishes demo_frame None, Inr True)], c', [d0, d1])"
    by (simp add: numeral_2_eq_2 client_call_def client_write_def demo_udpm_def client_new_def d0(1) d1(1) Let_def answered_def
        demo_outside_def and_then_def)
  let ?evs = "[Datagram demo_sender d1, UError TimedOut, Datagram (SocketAddr (Ipv4Addr 10 0 0 2) 7667) [1, 2, 3], Datagram demo_sender d0]"
  have four: "4 = Suc (Suc (Suc (Suc 0)))" by simp
  obtain counters out where read: "udpm_reader (sort_key pc_start) (\<lambda>_ ch. ch = ''a'') (\<lambda>_. 0) 4 ?evs ?s (counters_new, [])
      = Some (None, ?s, (counters, out))"
    by (simp add: four is_timeout_def on_datagram_def bad d0(2,3) d1(2,3) then_some_def demo_frame_def Let_def)
  have new: "\<forall>sequence. bt_get (ra_partial ?s) (demo_sender, sequence) = None" using quiet_new by (simp add: quiet_def)
  have bus: "bus_stays ?evs" "mset (filter (\<lambda>x. fst x = demo_sender) (brought ?evs)) = mset (map (Pair demo_sender) [d0, d1])" "length ?evs \<le> 4"
    by (simp_all add: brought_def is_timeout_def add_mset_commute)
  have want: "channel demo_frame = ''a''" by (simp add: demo_frame_def)
  from multicast_carries [OF c calls run reassembler_new_ok new demo_sort bus read refl] run read want show ?thesis
    by (intro exI conjI) (auto simp: Let_def)
qed

section \<open>Closing a client\<close>



text \<open>
  C40 (close of a connection to a relay). \<open>close\<close> shuts the outbox and the sending half before it waits for the
  writer, and only then reads what the relay sent, so that nothing is left unread behind it: it takes away a
  beginning of what comes, at most 16 KiB at each of its turns; and where the time is enough it stops at the
  first read that finds nothing and has left nothing that came before that.
\<close>

theorem close_reads_away:
  assumes c: "cl_transport c = TTcpq q" and me: "me \<noteq> ClientWriter"
    and on: "close_on me start ats script ou h c = (r, c', h', made, left)"
  shows "cl_transport c' = TTcpq (outbox_shut q) \<and> made = [ShutsSending] @ map Joins (if ha_writer h then [ClientWriter] else []) @
      [SetsReadTimeout EMPTY_ENOUGH, ReadsAway] @ map Joins (if ha_reader h \<and> me \<noteq> ClientReader then [ClientReader] else []) \<and>
    (\<exists>gone. script_bytes script = gone @ script_bytes left \<and>
      length gone \<le> turns_before (start + LINGER) ats * LEFTOVER) \<and>
    (reads_to_quiet script \<le> turns_before (start + LINGER) ats \<longrightarrow> left = after_quiet script)"
  using close_relay_calls [OF c me on] close_drain_takes [of script "start + LINGER" ats]
    close_drain_quiet [of script "start + LINGER" ats] by simp

theorem close_reads_away_witness:
  "\<exists>r made. \<exists>c' :: (string, nat) Client. \<exists>h'.
    close_on (User 1) 100 [100, 105, 110, 115] [SBytes [1, 2], SError Interrupted, SBytes [3], SError TimedOut, SBytes [4]]
      demo_outside \<lparr>ha_reader = True, ha_writer = True, ha_accept = False\<rparr> (demo_client (TTcpq outbox_new)) =
      (r, c', h', made, [SBytes [4]]) \<and> cl_transport c' = TTcpq (outbox_shut outbox_new) \<and>
    made = [ShutsSending, Joins ClientWriter, SetsReadTimeout EMPTY_ENOUGH, ReadsAway, Joins ClientReader]"
proof -
  let ?h = "\<lparr>ha_reader = True, ha_writer = True, ha_accept = False\<rparr>"
  let ?c = "demo_client (TTcpq outbox_new)"
  let ?script = "[SBytes [1, 2], SError Interrupted, SBytes [3], SError TimedOut, SBytes [4]]"
  obtain r c' h' made left where on:
    "close_on (User 1) 100 [100, 105, 110, 115] ?script demo_outside ?h ?c = (r, c', h', made, left)"
    by (cases "close_on (User 1) 100 [100, 105, 110, 115] ?script demo_outside ?h ?c") auto
  have c: "cl_transport ?c = TTcpq outbox_new" by (simp add: demo_client_def)
  have time: "reads_to_quiet ?script \<le> turns_before (100 + LINGER) [100, 105, 110, 115]"
    by (simp add: LINGER_def LEFTOVER_def)
  from close_reads_away [OF c _ on] time on show ?thesis by (intro exI conjI) auto
qed

end
